(* ===== verification/Prelude.thy ===== *)
theory Prelude
  imports Main "HOL-Library.Word" "HOL-Library.Char_ord"
begin

text \<open>
  Shared vocabulary of the Town Crier development: the machine types of the enclave code,
  C++ exceptions and undefined behaviour as values, the conversions between byte buffers
  (\<open>uint8_t*\<close>, \<open>std::vector<uint8_t>\<close>) and character strings (\<open>std::string\<close>),
  and the generic facts on lists and words that several components use.
\<close>

unbundle bit_operations_syntax

section \<open>Machine types\<close>

type_synonym byte = "8 word"
type_synonym u32 = "32 word"
type_synonym u64 = "64 word"
type_synonym bytes = "byte list"

text \<open>A C \<open>int\<close> is a 32-bit two's complement value, read with \<open>sint\<close>.\<close>

type_synonym i32 = "32 word"

section \<open>Exceptions and undefined behaviour\<close>

text \<open>
  The C++ exceptions the enclave raises. \<open>Std_exception\<close> is any other class derived from
  \<open>std::exception\<close>; \<open>Unknown_exception\<close> is what only a \<open>catch (...)\<close> clause catches.
\<close>

datatype exn =
    Invalid_argument string
  | Runtime_error string
  | Decryption_exception string
  | Std_exception string
  | Unknown_exception

text \<open>
  A computation either returns, throws, or does something the language does not define
  (reads outside a buffer, shifts by the width, dereferences an end iterator).  Undefined
  behaviour is never caught by a handler.
\<close>

datatype fault = Throw exn | UB

type_synonym 'a res = "fault + 'a"

definition bind_res :: "'a res \<Rightarrow> ('a \<Rightarrow> 'b res) \<Rightarrow> 'b res" where
  "bind_res m f = (case m of Inl e \<Rightarrow> Inl e | Inr x \<Rightarrow> f x)"

lemma bind_res_simps [simp]:
  "bind_res (Inl e) f = Inl e"
  "bind_res (Inr x) f = f x"
  by (simp_all add: bind_res_def)

lemma bind_res_Inr_iff: "bind_res m f = Inr y \<longleftrightarrow> (\<exists>x. m = Inr x \<and> f x = Inr y)"
  by (cases m) auto

lemma bind_res_cong [fundef_cong]:
  "m = m' \<Longrightarrow> (\<And>x. m' = Inr x \<Longrightarrow> f x = f' x) \<Longrightarrow> bind_res m f = bind_res m' f'"
  by (cases m') auto

text \<open>\<open>is_ub m\<close>: the run is not defined by the language.\<close>

definition is_ub :: "'a res \<Rightarrow> bool" where
  "is_ub m \<longleftrightarrow> m = Inl UB"

fun catch_exn :: "'a res \<Rightarrow> (exn \<Rightarrow> 'a res) \<Rightarrow> 'a res" where
  "catch_exn (Inl (Throw e)) h = h e"
| "catch_exn (Inl UB) h = Inl UB"
| "catch_exn (Inr x) h = Inr x"

section \<open>Collections of facts\<close>

named_theorems be_simps \<open>big-endian byte strings and their values\<close>
named_theorems codec_simps \<open>round trips of encoders and decoders\<close>

section \<open>Strings and bytes\<close>

lemma byte_lt_256: "unat (b :: byte) < 256"
  using unsigned_less [of b] by simp

definition char_of_byte :: "byte \<Rightarrow> char" where
  "char_of_byte b = char_of (unat b)"

definition byte_of_char :: "char \<Rightarrow> byte" where
  "byte_of_char c = word_of_nat (of_char c)"

lemma byte_of_char_of_byte [simp]: "byte_of_char (char_of_byte b) = b"
  using byte_lt_256 [of b] by (simp add: byte_of_char_def char_of_byte_def)

lemma unat_byte_of_char: "unat (byte_of_char c) = of_char c"
  by (simp add: byte_of_char_def unat_of_nat)

lemma char_of_byte_of_char [simp]: "char_of_byte (byte_of_char c) = c"
  by (simp add: char_of_byte_def unat_byte_of_char)

definition str_of :: "bytes \<Rightarrow> string" where
  "str_of bs = map char_of_byte bs"

definition bytes_of :: "string \<Rightarrow> bytes" where
  "bytes_of s = map byte_of_char s"

lemma str_of_bytes_of [simp]: "str_of (bytes_of s) = s"
  by (simp add: str_of_def bytes_of_def comp_def)

lemma bytes_of_str_of [simp]: "bytes_of (str_of s) = s"
  by (simp add: str_of_def bytes_of_def comp_def)

lemma length_str_of [simp]: "length (str_of bs) = length bs"
  by (simp add: str_of_def)

lemma length_bytes_of [simp]: "length (bytes_of s) = length s"
  by (simp add: bytes_of_def)

text \<open>The NUL character, and what \<open>s.c_str()\<close> or \<open>string(s.c_str())\<close> keeps of a string.\<close>

abbreviation NUL :: char where
  "NUL \<equiv> CHR 0x00"

definition c_str :: "string \<Rightarrow> string" where
  "c_str s = takeWhile (\<lambda>c. c \<noteq> NUL) s"

lemma c_str_no_nul: "NUL \<notin> set (c_str s)"
  by (auto simp: c_str_def dest: set_takeWhileD)

lemma c_str_id [simp]: "NUL \<notin> set s \<Longrightarrow> c_str s = s"
  by (auto simp: c_str_def takeWhile_eq_all_conv)

text \<open>\<open>prefix_of p s\<close>: the comparison \<open>strncmp(s, p, strlen(p)) == 0\<close> on strings without NUL.\<close>

fun prefix_of :: "'a list \<Rightarrow> 'a list \<Rightarrow> bool" where
  "prefix_of [] s = True"
| "prefix_of (x # xs) [] = False"
| "prefix_of (x # xs) (y # ys) = (x = y \<and> prefix_of xs ys)"

lemma prefix_of_iff: "prefix_of p s \<longleftrightarrow> (\<exists>t. s = p @ t)"
  by (induction p s rule: prefix_of.induct) auto

lemma prefix_of_append [simp]: "prefix_of p (p @ t)"
  by (simp add: prefix_of_iff)

section \<open>Big-endian values\<close>

text \<open>The number a byte string denotes, most significant byte first.\<close>

definition be_val :: "bytes \<Rightarrow> nat" where
  "be_val bs = foldl (\<lambda>a b. a * 256 + unat b) 0 bs"

lemma be_val_foldl: "foldl (\<lambda>a b. a * 256 + unat b) a bs = a * 256 ^ length bs + be_val bs"
  for bs :: bytes
proof (induction bs arbitrary: a)
  case Nil
  show ?case by (simp add: be_val_def)
next
  case (Cons b bs)
  have "foldl (\<lambda>a b. a * 256 + unat b) a (b # bs) = (a * 256 + unat b) * 256 ^ length bs + be_val bs"
    using Cons.IH [of "a * 256 + unat b"] by simp
  moreover have "be_val (b # bs) = unat b * 256 ^ length bs + be_val bs"
    using Cons.IH [of "unat b"] by (simp add: be_val_def)
  ultimately show ?case by (simp add: algebra_simps)
qed

lemma be_val_Nil [simp]: "be_val [] = 0"
  by (simp add: be_val_def)

lemma be_val_Cons [be_simps]: "be_val (b # bs) = unat b * 256 ^ length bs + be_val bs"
  using be_val_foldl [of "unat b" bs] by (simp add: be_val_def)

lemma be_val_append [be_simps]: "be_val (xs @ ys) = be_val xs * 256 ^ length ys + be_val ys"
  by (induction xs) (simp_all add: be_val_Cons algebra_simps power_add)

lemma be_val_zeros [simp]: "be_val (replicate n 0) = 0"
  by (induction n) (simp_all add: be_val_Cons)

lemma be_val_bound: "be_val bs < 256 ^ length bs"
proof (induction bs)
  case Nil
  then show ?case by simp
next
  case (Cons b bs)
  have "Suc (unat b) * 256 ^ length bs \<le> 256 * (256 :: nat) ^ length bs"
    using byte_lt_256 [of b] by (intro mult_le_mono1) simp
  then have "unat b * 256 ^ length bs + 256 ^ length bs \<le> (256 :: nat) ^ length (b # bs)"
    unfolding mult_Suc by (simp only: add.commute length_Cons power_Suc)
  with Cons.IH show ?case unfolding be_val_Cons by linarith
qed

lemma be_val_inj: "length xs = length ys \<Longrightarrow> be_val xs = be_val ys \<Longrightarrow> xs = ys"
proof (induction xs ys rule: list_induct2)
  case Nil
  then show ?case by simp
next
  case (Cons x xs y ys)
  let ?m = "(256 :: nat) ^ length xs"
  have eq: "unat x * ?m + be_val xs = unat y * ?m + be_val ys"
    using Cons by (simp add: be_val_Cons)
  have bx: "be_val xs < ?m" and "by": "be_val ys < ?m"
    using be_val_bound [of xs] be_val_bound [of ys] Cons.hyps by simp_all
  have "(unat x * ?m + be_val xs) div ?m = unat x" "(unat y * ?m + be_val ys) div ?m = unat y"
    using bx "by" by simp_all
  then have xy: "unat x = unat y" using eq by metis
  then have "x = y" by (simp only: word_unat_eq_iff)
  moreover have "xs = ys" using eq xy Cons.IH by simp
  ultimately show ?case by simp
qed

text \<open>Bytes are equal if their eight bits are.\<close>

lemma byte_eqI:
  assumes "\<And>n. n \<in> {0, 1, 2, 3, 4, 5, 6, 7} \<Longrightarrow> bit v n = bit w n"
  shows "v = (w :: byte)"
proof (rule bit_word_eqI)
  fix n :: nat
  assume "n < LENGTH(8)"
  then have "n < 8" by simp
  then have "n \<in> {0, 1, 2, 3, 4, 5, 6, 7}" unfolding insert_iff empty_iff by presburger
  then show "bit v n = bit w n" by (rule assms)
qed

lemma bit_times_2: "bit (b * 2) n \<longleftrightarrow> 0 < n \<and> n < LENGTH('a) \<and> bit b (n - 1)"
  for b :: "'a::len word"
  using bit_double_iff [of b n] by (auto simp: mult.commute)

lemma xor_cancel: "a XOR (a XOR b) = (b :: 'a::len word)"
  by (rule bit_word_eqI) (auto simp: bit_simps)

text \<open>The \<open>n\<close>-th byte of a word, counted from the least significant one.\<close>

definition byte_at :: "'a::len word \<Rightarrow> nat \<Rightarrow> byte" where
  "byte_at w n = ucast (drop_bit (8 * n) w AND 0xff)"

lemma unat_byte_at: "unat (byte_at w n) = unat w div 256 ^ n mod 256"
proof -
  have p: "(2 :: nat) ^ (8 * n) = 256 ^ n" by (simp add: power_mult)
  have m: "(0xff :: 'a word) = mask 8" by (simp add: mask_eq_exp_minus_1)
  have "byte_at w n = ucast (take_bit 8 (drop_bit (8 * n) w))"
    unfolding byte_at_def m by (simp only: take_bit_eq_mask)
  also have "\<dots> = ucast (drop_bit (8 * n) w)"
    by (rule bit_word_eqI) (simp add: bit_simps)
  finally have "unat (byte_at w n) = take_bit 8 (unat (drop_bit (8 * n) w))"
    by (simp only: unsigned_ucast_eq) simp
  also have "\<dots> = unat w div 256 ^ n mod 256"
    unfolding unat_drop_bit_eq by (simp add: drop_bit_eq_div p take_bit_eq_mod)
  finally show ?thesis .
qed

text \<open>The \<open>n\<close> low bytes of a word, most significant first.\<close>

fun be_bytes :: "nat \<Rightarrow> 'a::len word \<Rightarrow> bytes" where
  "be_bytes 0 w = []"
| "be_bytes (Suc n) w = byte_at w n # be_bytes n w"

lemma length_be_bytes [simp]: "length (be_bytes n w) = n"
  by (induction n) auto

lemma be_val_be_bytes [be_simps]: "be_val (be_bytes n w) = unat w mod 256 ^ n"
proof (induction n)
  case 0
  then show ?case by simp
next
  case (Suc n)
  have "unat w mod 256 ^ Suc n = 256 ^ n * (unat w div 256 ^ n mod 256) + unat w mod 256 ^ n"
    using mod_mult2_eq [of "unat w" "256 ^ n" 256] by (simp add: mult.commute)
  with Suc show ?case by (simp add: be_val_Cons unat_byte_at mult.commute)
qed

lemma be_bytes_8_val: "be_val (be_bytes 8 (w :: u64)) = unat w"
  using unsigned_less [of w, where ?'a = nat] by (simp add: be_val_be_bytes)

section \<open>Lists\<close>

lemma take_append_exact [simp]: "length xs = n \<Longrightarrow> take n (xs @ ys) = xs"
  by simp

lemma drop_append_exact [simp]: "length xs = n \<Longrightarrow> drop n (xs @ ys) = ys"
  by simp

end
