(* ===== verification/Codec.thy ===== *)
theory Codec
  imports Prelude
begin

text \<open>
  The contract between an encoder that appends self-delimiting items to a byte string and
  the decoder that takes one item off its front.  The locale is interpreted on the RLP
  strings of \<open>encoding.h\<close> and on the 32-byte words of the contract ABI; every client
  that concatenates such items gets unique decodability of the whole from it.
\<close>

text \<open>Decoding a fixed number of items off the front.\<close>

fun decode_many :: "(bytes \<Rightarrow> ('a \<times> bytes) option) \<Rightarrow> nat \<Rightarrow> bytes \<Rightarrow> ('a list \<times> bytes) option" where
  "decode_many dec 0 bs = Some ([], bs)"
| "decode_many dec (Suc n) bs =
     (case dec bs of
        None \<Rightarrow> None
      | Some (x, bs') \<Rightarrow>
          (case decode_many dec n bs' of None \<Rightarrow> None | Some (xs, r) \<Rightarrow> Some (x # xs, r)))"

text \<open>Decoding until the input is used up; every item must consume at least one byte.\<close>

function decode_all :: "(bytes \<Rightarrow> ('a \<times> bytes) option) \<Rightarrow> bytes \<Rightarrow> 'a list option" where
  "decode_all dec bs =
     (if bs = [] then Some []
      else case dec bs of
             None \<Rightarrow> None
           | Some (x, bs') \<Rightarrow>
               if length bs' < length bs then map_option (Cons x) (decode_all dec bs') else None)"
  by pat_completeness auto
termination
  by (relation "measure (\<lambda>(dec, bs). length bs)") auto

declare decode_all.simps [simp del]

locale prefix_codec =
  fixes enc :: "'a \<Rightarrow> bytes"
    and dec :: "bytes \<Rightarrow> ('a \<times> bytes) option"
    and ok :: "'a \<Rightarrow> bool"
  assumes dec_enc: "ok x \<Longrightarrow> dec (enc x @ r) = Some (x, r)"
    and enc_nonempty: "ok x \<Longrightarrow> enc x \<noteq> []"
begin

lemma enc_prefix_free:
  assumes "ok x" and "ok y" and "enc x @ r = enc y @ s"
  shows "x = y \<and> r = s"
proof -
  have "Some (x, r) = Some (y, s)"
    using dec_enc [OF assms(1), of r] dec_enc [OF assms(2), of s] assms(3) by metis
  then show ?thesis by simp
qed

lemma enc_inj: "ok x \<Longrightarrow> ok y \<Longrightarrow> enc x = enc y \<Longrightarrow> x = y"
  using enc_prefix_free [of x y "[]" "[]"] by simp

lemma decode_many_concat:
  "list_all ok xs \<Longrightarrow> decode_many dec (length xs) (concat (map enc xs) @ r) = Some (xs, r)"
  by (induction xs) (simp_all add: dec_enc)

lemma decode_all_concat: "list_all ok xs \<Longrightarrow> decode_all dec (concat (map enc xs)) = Some xs"
proof (induction xs)
  case Nil
  then show ?case by (simp add: decode_all.simps [of dec "[]"])
next
  case (Cons x xs)
  then have "enc x \<noteq> []" by (simp add: enc_nonempty)
  then show ?case
    using Cons by (simp add: decode_all.simps [of dec "enc x @ concat (map enc xs)"] dec_enc)
qed

lemma concat_inj:
  "list_all ok xs \<Longrightarrow> list_all ok ys \<Longrightarrow> concat (map enc xs) = concat (map enc ys) \<Longrightarrow> xs = ys"
  by (metis decode_all_concat option.inject)

end

end
