(* ===== verification/Encoding.thy ===== *)
theory Encoding
  imports Codec
begin

text \<open>
  Byte-level encodings of the enclave: \<open>src/Enclave/encoding.cpp\<close>, \<open>encoding.h\<close> and the
  hexadecimal and endianness helpers of \<open>commons.cpp\<close> and \<open>commons.h\<close>.
  The theory models the integer splitters (\<open>get_n_th_byte\<close>, \<open>byte_length\<close>, \<open>itob\<close>,
  \<open>append_as_uint256\<close>, \<open>swap_endian\<close>, \<open>uint_bytes\<close>), the hexadecimal codec, the byte
  classes \<open>bytes\<close>, \<open>bytes20\<close>, \<open>bytes32\<close>, and the RLP encoding of strings, together with
  a reference RLP decoder the encoder is proved to invert.
\<close>

section \<open>Splitting integers\<close>

text \<open>
  \<open>get_n_th_byte\<close>: the guard is \<open>n > 8\<close>, so \<open>n = 8\<close> shifts a 64-bit value by 64, which
  is undefined, as is a negative shift.
\<close>

definition get_n_th_byte :: "u64 \<Rightarrow> int \<Rightarrow> byte res" where
  "get_n_th_byte i n =
     (if n > 8 then Inr 0xFF
      else if n = 8 \<or> n < 0 then Inl UB
      else Inr (ucast (drop_bit (8 * nat n) i AND 0xff)))"

text \<open>The two loops of \<open>append_as_uint256\<close>: \<open>n\<close> is \<open>i + 1\<close> in the second one.\<close>

fun push_zeros :: "nat \<Rightarrow> bytes \<Rightarrow> bytes" where
  "push_zeros 0 out = out"
| "push_zeros (Suc n) out = push_zeros n (out @ [0])"

fun push_be :: "u64 \<Rightarrow> nat \<Rightarrow> bytes \<Rightarrow> bytes res" where
  "push_be i 0 out = Inr out"
| "push_be i (Suc n) out =
     bind_res (get_n_th_byte i (int n)) (\<lambda>b. push_be i n (out @ [b]))"

definition append_as_uint256 :: "bytes \<Rightarrow> u64 \<Rightarrow> int \<Rightarrow> (int \<times> bytes) res" where
  "append_as_uint256 out i len =
     (if len > 32 then Inr (-1, out)
      else bind_res (push_be i (nat len) (push_zeros (nat (32 - len)) out))
             (\<lambda>out'. Inr (0, out')))"

lemma unat_drop_bit_8: "unat (drop_bit 8 (x :: u64)) = unat x div 256"
  unfolding unat_drop_bit_eq by (simp add: drop_bit_eq_div)

text \<open>\<open>byte_length\<close> counts in a \<open>uint8_t\<close> until the value is shifted away.\<close>

function byte_length_loop :: "u64 \<Rightarrow> byte \<Rightarrow> byte" where
  "byte_length_loop x i = (if x = 0 then i else byte_length_loop (drop_bit 8 x) (i + 1))"
  by pat_completeness auto
termination
proof (relation "measure (\<lambda>(x, i). unat x)")
  fix x :: u64 and i :: byte
  assume "x \<noteq> 0"
  then have "0 < unat x" by (simp add: unat_gt_0)
  then show "((drop_bit 8 x, i + 1), x, i) \<in> measure (\<lambda>(x, i). unat x)"
    by (simp only: in_measure prod.case unat_drop_bit_8)
qed simp

declare byte_length_loop.simps [simp del]

definition byte_length :: "u64 \<Rightarrow> byte" where
  "byte_length x = byte_length_loop x 0"

definition bytesRequired :: "u64 \<Rightarrow> byte" where
  "bytesRequired i = byte_length i"

fun itob_loop :: "u64 \<Rightarrow> nat \<Rightarrow> bytes \<Rightarrow> bytes" where
  "itob_loop num 0 out = out"
| "itob_loop num (Suc n) out =
     itob_loop num n (out @ [ucast (drop_bit (8 * n) num AND 0xFF)])"

definition itob :: "u64 \<Rightarrow> nat \<Rightarrow> bytes" where
  "itob num width =
     (if num = 0 \<and> width = 0 then []
      else let out = itob_loop num (unat (byte_length num)) []
           in if width > length out then replicate (width - length out) 0 @ out else out)"

section \<open>Endianness (commons.h)\<close>

text \<open>A little-endian machine: the bytes of a 64-bit value in memory, and back.\<close>

definition le_bytes :: "u64 \<Rightarrow> bytes" where
  "le_bytes w = rev (be_bytes 8 w)"

definition le_word :: "bytes \<Rightarrow> u64" where
  "le_word bs = word_of_nat (be_val (rev bs))"

definition swap_endian :: "u64 \<Rightarrow> u64" where
  "swap_endian u = le_word (map (\<lambda>k. le_bytes u ! (8 - k - 1)) [0..<8])"

text \<open>
  \<open>uint_bytes<T>(buf, n)\<close> for an eight-byte \<open>T\<close>: copies the eight bytes ending at \<open>buf + n\<close>.
  Reading before the buffer or past its end is undefined.
\<close>

definition uint_bytes :: "bytes \<Rightarrow> nat \<Rightarrow> bool \<Rightarrow> u64 res" where
  "uint_bytes buf n big_endian =
     (if n < 8 \<or> length buf < n then Inl UB
      else let ret = le_word (take 8 (drop (n - 8) buf))
           in Inr (if big_endian then swap_endian ret else ret))"

section \<open>Hexadecimal (commons.cpp)\<close>

definition hex2int :: "char \<Rightarrow> byte res" where
  "hex2int c =
     (let n = (of_char c :: nat) in
      if 48 \<le> n \<and> n \<le> 57 then Inr (word_of_nat (n - 48))
      else if 65 \<le> n \<and> n \<le> 70 then Inr (word_of_nat (n - 65 + 10))
      else if 97 \<le> n \<and> n \<le> 102 then Inr (word_of_nat (n - 97 + 10))
      else Inl (Throw (Invalid_argument ''Invalid input string'')))"

fun from_hex_loop :: "string \<Rightarrow> bytes \<Rightarrow> bytes res" where
  "from_hex_loop (a # b # src) out =
     bind_res (hex2int a) (\<lambda>h. bind_res (hex2int b) (\<lambda>l. from_hex_loop src (out @ [h * 16 + l])))"
| "from_hex_loop src out = Inr out"

text \<open>The argument is the C string: its characters before the NUL.\<close>

definition from_hex :: "string \<Rightarrow> bytes res" where
  "from_hex src =
     (if odd (length src) then Inl (Throw (Invalid_argument ''input is not of even length''))
      else from_hex_loop (if prefix_of ''0x'' src then drop 2 src else src) [])"

text \<open>The unchecked variant writing to a target buffer: what it writes.\<close>

definition from_hex_target :: "string \<Rightarrow> bytes res" where
  "from_hex_target src = from_hex_loop src []"

definition hexmap :: string where
  "hexmap = ''0123456789abcdef''"

fun to_hex :: "bytes \<Rightarrow> string" where
  "to_hex [] = []"
| "to_hex (d # ds) =
     hexmap ! unat (drop_bit 4 (d AND 0xF0)) # hexmap ! unat (d AND 0x0F) # to_hex ds"

section \<open>RLP strings (encoding.h)\<close>

definition rlp_string :: "bytes \<Rightarrow> bytes \<Rightarrow> bytes res" where
  "rlp_string s out =
     (let len = length s in
      if len = 1 \<and> hd s < 0x80 then Inr (out @ [hd s])
      else if len < 56 then Inr (out @ [0x80 + word_of_nat len] @ s)
      else let len_len = byte_length (word_of_nat len)
           in if len_len > 8 then Inl (Throw (Invalid_argument ''String too long to be encoded.''))
              else Inr (out @ [0xb7 + len_len] @ itob (word_of_nat len) 0 @ s))"

section \<open>The byte classes\<close>

text \<open>
  \<open>bytes\<close> is a \<open>std::vector<uint8_t>\<close>; \<open>bytes20\<close> an array of 20 bytes; \<open>bytes32\<close> a
  \<open>bytes\<close> that the constructors fill with 32 bytes, but whose inherited operations
  (\<open>parseUInt64\<close>, \<open>from_hex\<close>) resize.  A method that changes the object returns it.
\<close>

definition bytes_concat :: "bytes \<Rightarrow> bytes \<Rightarrow> bytes" where
  "bytes_concat a b = a @ b"

definition bytes_replace :: "bytes \<Rightarrow> bytes \<Rightarrow> bytes" where
  "bytes_replace self inp = inp"

definition bytes_from_hex :: "bytes \<Rightarrow> string \<Rightarrow> bytes res" where
  "bytes_from_hex self src = from_hex src"

definition parseUInt64 :: "bytes \<Rightarrow> u64 \<Rightarrow> bytes" where
  "parseUInt64 self i = itob i 0"

definition bytes_to_rlp :: "bytes \<Rightarrow> bytes \<Rightarrow> bytes res" where
  "bytes_to_rlp self out = rlp_string self out"

definition bytes20_of_hex :: "string \<Rightarrow> bytes res" where
  "bytes20_of_hex hex =
     bind_res (from_hex hex)
       (\<lambda>b. if length b \<noteq> 20 then Inl (Throw (Invalid_argument ''wrong size'')) else Inr b)"

definition bytes32_zero :: bytes where
  "bytes32_zero = replicate 32 0"

definition bytes32_of_buffer :: "bytes \<Rightarrow> nat \<Rightarrow> bytes res" where
  "bytes32_of_buffer data len =
     (if len \<noteq> 32 then Inl (Throw (Invalid_argument ''len has to be 32''))
      else if length data < len then Inl UB
      else Inr (take len data))"

definition bytes32_of_uint64 :: "u64 \<Rightarrow> bytes" where
  "bytes32_of_uint64 i = itob i 32"

definition bytes32_of_string :: "string \<Rightarrow> bytes res" where
  "bytes32_of_string s =
     (if length s > 32 then Inl (Throw (Invalid_argument ''too big''))
      else Inr (bytes_of s @ replicate (32 - length s) 0))"

definition bytes32_replace :: "bytes \<Rightarrow> bytes \<Rightarrow> bytes res" where
  "bytes32_replace self inp =
     (if length inp > 32 then Inl (Throw (Invalid_argument ''too large''))
      else Inr inp)"

text \<open>\<open>bytes32::reset\<close> has an empty body.\<close>

definition bytes32_reset :: "bytes \<Rightarrow> bytes" where
  "bytes32_reset self = self"


section \<open>Facts\<close>

subsection \<open>Splitting integers\<close>

lemma push_zeros_eq [simp]: "push_zeros n out = out @ replicate n 0"
  by (induction n arbitrary: out) (simp_all add: replicate_append_same)

lemma get_n_th_byte_ok: "n < 8 \<Longrightarrow> get_n_th_byte i (int n) = Inr (byte_at i n)"
  by (simp add: get_n_th_byte_def byte_at_def)

lemma push_be_ok: "n \<le> 8 \<Longrightarrow> push_be i n out = Inr (out @ be_bytes n i)"
  by (induction n arbitrary: out) (simp_all add: get_n_th_byte_ok)

lemma push_be_ub: "8 < n \<Longrightarrow> push_be i n out = Inl UB"
proof (induction n arbitrary: out)
  case (Suc n)
  show ?case
  proof (cases "n = 8")
    case True
    then show ?thesis unfolding push_be.simps by (simp add: get_n_th_byte_def)
  next
    case False
    with Suc have "8 < n" by simp
    then show ?thesis using Suc.IH by (simp add: get_n_th_byte_def)
  qed
qed simp

lemma append_as_uint256_ok:
  "0 \<le> len \<Longrightarrow> len \<le> 8 \<Longrightarrow>
     append_as_uint256 out i len
       = Inr (0, out @ replicate (nat (32 - len)) 0 @ be_bytes (nat len) i)"
  by (simp add: append_as_uint256_def push_be_ok)

lemma byte_length_loop_0 [simp]: "byte_length_loop 0 i = i"
  by (subst byte_length_loop.simps) simp

lemma byte_length_loop_spec:
  "unat x < 256 ^ n \<Longrightarrow> n + unat i < 256 \<Longrightarrow>
     unat i \<le> unat (byte_length_loop x i)
     \<and> unat (byte_length_loop x i) \<le> unat i + n
     \<and> unat x < 256 ^ (unat (byte_length_loop x i) - unat i)
     \<and> (x \<noteq> 0 \<longrightarrow> unat i < unat (byte_length_loop x i)
          \<and> 256 ^ (unat (byte_length_loop x i) - unat i - 1) \<le> unat x)"
proof (induction x i arbitrary: n rule: byte_length_loop.induct)
  case (1 x i)
  show ?case
  proof (cases "x = 0")
    case True
    then show ?thesis by simp
  next
    case False
    let ?x' = "drop_bit 8 x" and ?i' = "i + 1"
    have n: "0 < n" using "1.prems"(1) False by (cases n) (simp_all add: unat_eq_zero)
    then obtain m where m: "n = Suc m" by (cases n) auto
    have ui: "unat ?i' = unat i + 1"
      using "1.prems"(2) n by (simp add: unat_word_ariths)
    have x': "unat ?x' = unat x div 256" by (rule unat_drop_bit_8)
    have lt: "unat ?x' < 256 ^ m" using "1.prems"(1) m unfolding x' by (simp add: less_mult_imp_div_less mult.commute)
    have step: "byte_length_loop x i = byte_length_loop ?x' ?i'"
      using False by (simp add: byte_length_loop.simps [of x i])
    let ?r = "unat (byte_length_loop ?x' ?i')"
    have IH: "unat i + 1 \<le> ?r \<and> ?r \<le> unat i + 1 + m \<and> unat x div 256 < 256 ^ (?r - (unat i + 1))
        \<and> (?x' \<noteq> 0 \<longrightarrow> unat i + 1 < ?r \<and> 256 ^ (?r - (unat i + 1) - 1) \<le> unat x div 256)"
      using "1.IH" [OF False lt] "1.prems"(2) m unfolding ui x' by simp
    have r: "?r - unat i = Suc (?r - (unat i + 1))" using IH by arith
    have up: "unat x < 256 ^ (?r - unat i)"
      using IH unfolding r by (simp add: div_less_iff_less_mult mult.commute)
    have low: "256 ^ (?r - unat i - 1) \<le> unat x"
    proof (cases "?x' = 0")
      case True
      then have "?r = unat i + 1"
        using ui by simp
      then show ?thesis using False by (simp add: Suc_le_eq unat_gt_0)
    next
      case nz: False
      then have "256 ^ (?r - (unat i + 1) - 1) \<le> unat x div 256" and gt: "unat i + 1 < ?r"
        using IH by simp_all
      then have "256 * 256 ^ (?r - (unat i + 1) - 1) \<le> unat x" by arith
      moreover have "?r - unat i - 1 = Suc (?r - (unat i + 1) - 1)" using gt by arith
      ultimately show ?thesis by simp
    qed
    show ?thesis unfolding step using IH m up low by auto
  qed
qed

lemma byte_length_spec:
  "unat (byte_length x) \<le> 8
   \<and> unat x < 256 ^ unat (byte_length x)
   \<and> (x \<noteq> 0 \<longrightarrow> 0 < unat (byte_length x) \<and> 256 ^ (unat (byte_length x) - 1) \<le> unat x)"
  using byte_length_loop_spec [of x 8 0] unsigned_less [of x, where ?'a = nat]
  by (simp add: byte_length_def)

lemma byte_length_le_8: "unat (byte_length x) \<le> 8"
  and byte_length_upper: "unat x < 256 ^ unat (byte_length x)"
  and byte_length_pos: "x \<noteq> 0 \<Longrightarrow> 0 < unat (byte_length x)"
  and byte_length_lower: "x \<noteq> 0 \<Longrightarrow> 256 ^ (unat (byte_length x) - 1) \<le> unat x"
  using byte_length_spec [of x] by auto

lemma byte_length_0 [simp]: "byte_length 0 = 0"
  by (simp add: byte_length_def)

lemma itob_loop_eq: "itob_loop num n out = out @ be_bytes n num"
  by (induction n arbitrary: out) (simp_all add: byte_at_def)

lemma itob_eq:
  "itob num w = replicate (w - unat (byte_length num)) 0 @ be_bytes (unat (byte_length num)) num"
  by (simp add: itob_def itob_loop_eq Let_def)

lemma length_itob: "length (itob num w) = max w (unat (byte_length num))"
  by (simp add: itob_eq)

lemma be_val_itob [be_simps]: "be_val (itob num w) = unat num"
  using byte_length_upper [of num] by (simp add: itob_eq be_val_append be_val_be_bytes)

lemma itob_canonical: "num \<noteq> 0 \<Longrightarrow> itob num 0 \<noteq> [] \<and> hd (itob num 0) \<noteq> 0"
proof -
  assume nz: "num \<noteq> 0"
  obtain k where k: "unat (byte_length num) = Suc k"
    using byte_length_pos [OF nz] by (cases "unat (byte_length num)") auto
  have "itob num 0 = byte_at num k # be_bytes k num" by (simp add: itob_eq k)
  moreover have "unat (byte_at num k) \<noteq> 0"
  proof -
    have "256 ^ k \<le> unat num" and "unat num < 256 ^ k * 256"
      using byte_length_lower [OF nz] byte_length_upper [of num] by (simp_all add: k)
    then have "1 \<le> unat num div 256 ^ k" and "unat num div 256 ^ k < 256"
      by (simp_all add: div_less_iff_less_mult less_eq_div_iff_mult_less_eq mult.commute)
    then show ?thesis by (simp add: unat_byte_at)
  qed
  ultimately show ?thesis by auto
qed


subsection \<open>Endianness\<close>

lemma length_le_bytes [simp]: "length (le_bytes w) = 8"
  by (simp add: le_bytes_def)

lemma le_word_le_bytes [simp]: "le_word (le_bytes w) = w"
  by (simp add: le_word_def le_bytes_def be_bytes_8_val)

lemma le_bytes_le_word: "length bs = 8 \<Longrightarrow> le_bytes (le_word bs) = bs"
proof -
  assume len: "length bs = 8"
  have "be_val (rev bs) < 2 ^ 64" using be_val_bound [of "rev bs"] len by simp
  then have "be_val (be_bytes 8 (le_word bs)) = be_val (rev bs)"
    by (simp add: be_bytes_8_val le_word_def unat_of_nat)
  then have "be_bytes 8 (le_word bs) = rev bs"
    by (rule be_val_inj [rotated]) (simp add: len)
  then show ?thesis by (simp add: le_bytes_def)
qed

lemma rev_by_index: "length bs = 8 \<Longrightarrow> map (\<lambda>k. bs ! (7 - k)) [0..<8] = rev bs"
  by (rule nth_equalityI) (simp_all add: rev_nth)

lemma swap_endian_le_word: "length bs = 8 \<Longrightarrow> swap_endian (le_word bs) = word_of_nat (be_val bs)"
  unfolding swap_endian_def
  by (simp add: le_bytes_le_word rev_by_index) (simp add: le_word_def)

lemma swap_endian_rev: "swap_endian u = le_word (rev (le_bytes u))"
  unfolding swap_endian_def by (simp add: rev_by_index)

lemma swap_endian_involution: "swap_endian (swap_endian u) = u"
  by (simp add: swap_endian_rev le_bytes_le_word)

lemma uint_bytes_be:
  "8 \<le> n \<Longrightarrow> n \<le> length buf \<Longrightarrow>
     uint_bytes buf n True = Inr (word_of_nat (be_val (take 8 (drop (n - 8) buf))))"
  by (simp add: uint_bytes_def Let_def swap_endian_le_word)

subsection \<open>Hexadecimal\<close>

definition is_hex_char :: "char \<Rightarrow> bool" where
  "is_hex_char c \<longleftrightarrow>
     CHR ''0'' \<le> c \<and> c \<le> CHR ''9'' \<or> CHR ''A'' \<le> c \<and> c \<le> CHR ''F'' \<or> CHR ''a'' \<le> c \<and> c \<le> CHR ''f''"

lemma hexmap_le_15: "n < 16 \<Longrightarrow> hex2int (hexmap ! n) = Inr (word_of_nat n)"
proof -
  have "\<forall>n \<in> set [0..<16]. hex2int (hexmap ! n) = Inr (word_of_nat n)"
    by (simp add: hexmap_def hex2int_def upt_rec)
  then show "n < 16 \<Longrightarrow> hex2int (hexmap ! n) = Inr (word_of_nat n)" by simp
qed

lemma hexmap_not_x: "n < 16 \<Longrightarrow> hexmap ! n \<noteq> CHR ''x''"
proof -
  have "\<forall>n \<in> set [0..<16]. hexmap ! n \<noteq> CHR ''x''"
    by (simp add: hexmap_def upt_rec)
  then show "n < 16 \<Longrightarrow> hexmap ! n \<noteq> CHR ''x''" by simp
qed

lemma hi_nibble: "unat (drop_bit 4 (d AND 0xF0)) = unat (d :: byte) div 16"
proof -
  have m: "(0xF0 :: byte) = NOT (mask 4)"
    by (simp add: mask_eq_exp_minus_1)
  have "drop_bit 4 (d AND 0xF0) = drop_bit 4 d"
    unfolding m by (rule bit_word_eqI) (auto simp: bit_simps dest: bit_imp_le_length)
  then have "unat (drop_bit 4 (d AND 0xF0)) = unat (drop_bit 4 d)" by (simp only:)
  also have "\<dots> = unat d div 16" unfolding unat_drop_bit_eq by (simp add: drop_bit_eq_div)
  finally show ?thesis .
qed


lemma lo_nibble: "unat (d AND 0x0F) = unat (d :: byte) mod 16"
proof -
  have "(0x0F :: byte) = mask 4" by (simp add: mask_eq_exp_minus_1)
  then have "d AND 0x0F = take_bit 4 d" by (simp only: take_bit_eq_mask)
  then have "unat (d AND 0x0F) = take_bit 4 (unat d)" by (simp only: unsigned_take_bit_eq)
  then show ?thesis by (simp add: take_bit_eq_mod)
qed

lemma nibbles_byte: "word_of_nat (unat d div 16) * 16 + word_of_nat (unat d mod 16) = (d :: byte)"
proof -
  have "word_of_nat (unat d div 16 * 16 + unat d mod 16) = d"
    unfolding div_mult_mod_eq by simp
  then show ?thesis by (simp only: of_nat_add of_nat_mult of_nat_numeral)
qed

lemma hex2int_hi: "hex2int (hexmap ! unat (drop_bit 4 (d AND 0xF0))) = Inr (word_of_nat (unat d div 16))"
  for d :: byte
  using byte_lt_256 [of d] by (simp only: hi_nibble) (rule hexmap_le_15, simp)

lemma hex2int_lo: "hex2int (hexmap ! unat (d AND 0x0F)) = Inr (word_of_nat (unat d mod 16))"
  for d :: byte
  by (simp only: lo_nibble) (rule hexmap_le_15, simp)

lemma from_hex_loop_to_hex: "from_hex_loop (to_hex bs) out = Inr (out @ bs)"
  by (induction bs arbitrary: out)
     (simp_all only: to_hex.simps from_hex_loop.simps hex2int_hi hex2int_lo bind_res_simps
        nibbles_byte append_Nil2 append_assoc append_Cons append_Nil)

lemma length_to_hex [simp]: "length (to_hex bs) = 2 * length bs"
  by (induction bs) auto

lemma to_hex_no_prefix: "\<not> prefix_of ''0x'' (to_hex bs)"
proof (cases bs)
  case (Cons d ds)
  have "hexmap ! unat (d AND 0x0F) \<noteq> CHR ''x''"
    by (simp only: lo_nibble) (rule hexmap_not_x, simp)
  with Cons show ?thesis by simp
qed simp

lemma from_hex_to_hex [codec_simps]: "from_hex (to_hex bs) = Inr bs"
  by (simp add: from_hex_def to_hex_no_prefix from_hex_loop_to_hex)

lemma hex2int_error:
  "\<not> is_hex_char c \<Longrightarrow> hex2int c = Inl (Throw (Invalid_argument ''Invalid input string''))"
  by (auto simp: hex2int_def Let_def is_hex_char_def less_eq_char_def)

lemma hex2int_hex: "is_hex_char c \<Longrightarrow> \<exists>v. hex2int c = Inr v"
  by (auto simp: hex2int_def Let_def is_hex_char_def less_eq_char_def)

lemma from_hex_loop_length:
  "even (length src) \<Longrightarrow> list_all is_hex_char src \<Longrightarrow>
     \<exists>bs. from_hex_loop src out = Inr (out @ bs) \<and> length bs = length src div 2"
proof (induction src out rule: from_hex_loop.induct)
  case (1 a b src out)
  from "1.prems" obtain h l where hl: "hex2int a = Inr h" "hex2int b = Inr l"
    using hex2int_hex by fastforce
  with "1.IH" [OF hl] "1.prems" obtain bs where
    "from_hex_loop src (out @ [h * 16 + l]) = Inr ((out @ [h * 16 + l]) @ bs)"
    "length bs = length src div 2" by auto
  with hl show ?case by simp
qed auto

lemma from_hex_loop_error:
  "even (length src) \<Longrightarrow> \<not> list_all is_hex_char src \<Longrightarrow>
     from_hex_loop src out = Inl (Throw (Invalid_argument ''Invalid input string''))"
proof (induction src out rule: from_hex_loop.induct)
  case (1 a b src out)
  show ?case
  proof (cases "is_hex_char a \<and> is_hex_char b")
    case True
    then obtain h l where hl: "hex2int a = Inr h" "hex2int b = Inr l"
      using hex2int_hex by blast
    with "1.IH" [OF hl] "1.prems" True show ?thesis by simp
  next
    case False
    then show ?thesis
      by (cases "is_hex_char a") (auto simp: hex2int_error dest: hex2int_hex)
  qed
qed auto


subsection \<open>RLP strings\<close>

text \<open>
  A decoder for RLP strings, written from the definition of RLP: it takes one string off
  the front of its input, and refuses the non-canonical forms (a single byte below 128
  with a header, a long form for less than 56 bytes or with a leading zero in its length).
\<close>

definition rlp_decode_string :: "bytes \<Rightarrow> (bytes \<times> bytes) option" where
  "rlp_decode_string inp =
     (case inp of
        [] \<Rightarrow> None
      | b # rest \<Rightarrow>
          (let t = unat b in
           if t < 128 then Some ([b], rest)
           else if t < 184 then
             (let n = t - 128 in
              if length rest < n then None
              else if n = 1 \<and> unat (hd rest) < 128 then None
              else Some (take n rest, drop n rest))
           else if t < 192 then
             (let k = t - 183; n = be_val (take k rest); body = drop k rest in
              if length rest < k \<or> hd rest = 0 \<or> n < 56 \<or> length body < n then None
              else Some (take n body, drop n body))
           else None))"

definition rlp_ok :: "bytes \<Rightarrow> bool" where
  "rlp_ok s \<longleftrightarrow> length s < 2 ^ 64"

text \<open>The encoding alone, without the buffer it is appended to.\<close>

definition rlp_enc :: "bytes \<Rightarrow> bytes" where
  "rlp_enc s = projr (rlp_string s [])"

lemma byte_length_not_gt_8: "\<not> byte_length x > 8"
  using byte_length_le_8 [of x] by (simp add: word_less_nat_alt)

lemma rlp_string_eq: "rlp_string s out = Inr (out @ rlp_enc s)"
  by (simp add: rlp_enc_def rlp_string_def Let_def byte_length_not_gt_8)

lemma rlp_enc_short: "length s < 56 \<Longrightarrow> \<not> (length s = 1 \<and> hd s < 0x80) \<Longrightarrow>
    rlp_enc s = (0x80 + word_of_nat (length s)) # s"
  by (auto simp add: rlp_enc_def rlp_string_def Let_def)

lemma rlp_enc_single: "length s = 1 \<Longrightarrow> hd s < 0x80 \<Longrightarrow> rlp_enc s = s"
  by (cases s) (auto simp add: rlp_enc_def rlp_string_def Let_def)

lemma rlp_enc_long: "56 \<le> length s \<Longrightarrow>
    rlp_enc s = (0xb7 + byte_length (word_of_nat (length s))) # itob (word_of_nat (length s)) 0 @ s"
  by (auto simp add: rlp_enc_def rlp_string_def Let_def byte_length_not_gt_8)

lemma rlp_decode_enc:
  assumes "rlp_ok s"
  shows "rlp_decode_string (rlp_enc s @ r) = Some (s, r)"
proof -
  consider (single) "length s = 1" "hd s < 0x80"
    | (short) "length s < 56" "\<not> (length s = 1 \<and> hd s < 0x80)"
    | (long) "56 \<le> length s" by linarith
  then show ?thesis
  proof cases
    case single
    then obtain b where s: "s = [b]" by (cases s) auto
    with single have "unat b < 128" by (simp add: word_less_nat_alt)
    with single s show ?thesis by (simp add: rlp_enc_single rlp_decode_string_def Let_def)
  next
    case short
    have t: "unat (0x80 + word_of_nat (length s) :: byte) = 128 + length s"
      using short(1) by (simp add: unat_word_ariths unat_of_nat)
    have nz: "\<not> (length s = 1 \<and> unat (hd (s @ r)) < 128)"
      using short(2) by (cases s) (auto simp: word_less_nat_alt)
    show ?thesis
      using short(1) nz by (simp add: rlp_enc_short [OF short] rlp_decode_string_def Let_def t)
  next
    case long
    let ?w = "word_of_nat (length s) :: u64"
    have uw: "unat ?w = length s" using assms by (simp add: rlp_ok_def unat_of_nat)
    then have nz: "?w \<noteq> 0" using long by auto
    let ?k = "unat (byte_length ?w)"
    have k: "0 < ?k" "?k \<le> 8" using byte_length_pos [OF nz] byte_length_le_8 [of ?w] by simp_all
    have t: "unat (0xb7 + byte_length ?w) = 183 + ?k"
      using k by (simp add: unat_word_ariths)
    have lk: "length (itob ?w 0) = ?k" by (simp add: length_itob)
    have v: "be_val (itob ?w 0) = length s" by (simp add: be_val_itob uw)
    have hd0: "itob ?w 0 \<noteq> []" "hd (itob ?w 0) \<noteq> 0" using itob_canonical [OF nz] by auto
    show ?thesis
      using long k hd0 by (simp add: rlp_enc_long rlp_decode_string_def Let_def t lk v)
  qed
qed

lemma rlp_enc_nonempty: "rlp_enc s \<noteq> []"
  by (cases s) (auto simp add: rlp_enc_def rlp_string_def Let_def byte_length_not_gt_8)

interpretation rlp: prefix_codec rlp_enc rlp_decode_string rlp_ok
  by unfold_locales (simp_all add: rlp_decode_enc rlp_enc_nonempty)

lemma hex2int_Inl: "hex2int c = Inl f \<Longrightarrow> \<exists>msg. f = Throw (Invalid_argument msg)"
  by (auto simp: hex2int_def Let_def split: if_splits)

lemma from_hex_loop_Inl: "from_hex_loop s out = Inl f \<Longrightarrow> \<exists>msg. f = Throw (Invalid_argument msg)"
  by (induction s out rule: from_hex_loop.induct)
    (auto simp: bind_res_def dest: hex2int_Inl split: sum.splits)

lemma from_hex_Inl: "from_hex s = Inl f \<Longrightarrow> \<exists>msg. f = Throw (Invalid_argument msg)"
  by (auto simp: from_hex_def dest: from_hex_loop_Inl split: if_splits)

lemma uint_bytes_bytes32:
  "length (bytes32_of_uint64 x) = 32 \<and> uint_bytes (bytes32_of_uint64 x @ rest) 32 True = Inr x"
proof -
  let ?k = "unat (byte_length x)"
  let ?b = "itob x 32"
  have len: "length ?b = 32" using byte_length_le_8 [of x] by (simp add: length_itob)
  let ?t = "replicate (8 - ?k) 0 @ be_bytes ?k x"
  have "?b = replicate 24 0 @ ?t"
    using byte_length_le_8 [of x] by (simp add: itob_eq flip: replicate_add append_assoc)
  then have t: "take 8 (drop (32 - 8) (?b @ rest)) = ?t"
    using byte_length_le_8 [of x] by simp
  have v: "be_val ?t = unat x"
    using byte_length_upper [of x] by (simp add: be_simps)
  have "uint_bytes (?b @ rest) 32 True = Inr (word_of_nat (be_val (take 8 (drop (32 - 8) (?b @ rest)))))"
    by (rule uint_bytes_be) (simp_all add: len)
  then have "uint_bytes (?b @ rest) 32 True = Inr x"
    unfolding t v by simp
  with len show ?thesis by (simp add: bytes32_of_uint64_def)
qed

section \<open>Properties\<close>

text \<open>\<open>append_as_uint256\<close> on every branch: a length above 32 is refused without touching the
  buffer, a length of 9 to 32 reaches the undefined shift of \<open>get_n_th_byte\<close>, and a length
  of 0 to 8 bytes appends exactly one 32-byte big-endian word whose value is the integer
  reduced to that many bytes.\<close>

theorem append_as_uint256_word:
  assumes "0 \<le> len"
  shows "if 32 < len then append_as_uint256 out i len = Inr (-1, out)
         else if 8 < len then append_as_uint256 out i len = Inl UB
         else \<exists>w. append_as_uint256 out i len = Inr (0, out @ w)
                \<and> length w = 32 \<and> be_val w = unat i mod 256 ^ nat len"
proof -
  have "append_as_uint256 out i len = Inl UB" if "8 < len" "len \<le> 32"
    using that push_be_ub [of "nat len"] by (simp add: append_as_uint256_def)
  moreover have "append_as_uint256 out i len = Inr (-1, out)" if "32 < len"
    using that by (simp add: append_as_uint256_def)
  moreover have "length (replicate (nat (32 - len)) 0 @ be_bytes (nat len) i) = 32" if "len \<le> 8"
    using assms that by simp
  ultimately show ?thesis
    using assms append_as_uint256_ok [of len out i] by (auto simp: be_simps)
qed

theorem append_as_uint256_word_witness:
  "(0::int) \<le> 2 \<and> (\<exists>w. append_as_uint256 [7] 66051 2 = Inr (0, [7] @ w)
     \<and> length w = 32 \<and> be_val w = unat (66051 :: u64) mod 256 ^ nat 2)"
  using append_as_uint256_word [of 2 "[7]" 66051] by simp

text \<open>A 64-bit value written as a \<open>bytes32\<close> (big-endian, padded in front) and read back with
  \<open>uint_bytes\<close>, the way a request carries its times and counters, is unchanged.\<close>

theorem uint_bytes_of_bytes32:
  "length (bytes32_of_uint64 x) = 32 \<and> uint_bytes (bytes32_of_uint64 x @ rest) 32 True = Inr x"
  by (rule uint_bytes_bytes32)

text \<open>\<open>from_hex\<close> inverts \<open>to_hex\<close>, and on any C string it fails exactly when the length is odd
  or a character after the optional \<open>0x\<close> is not a hexadecimal digit, with the exception
  the code names; otherwise it returns half as many bytes as there are digits.\<close>

theorem from_hex_spec:
  defines "digits \<equiv> \<lambda>s. if prefix_of ''0x'' s then drop 2 s else s"
  shows "from_hex (to_hex bs) = Inr bs
    \<and> (odd (length s) \<longrightarrow> from_hex s = Inl (Throw (Invalid_argument ''input is not of even length'')))
    \<and> (even (length s) \<and> \<not> list_all is_hex_char (digits s) \<longrightarrow>
         from_hex s = Inl (Throw (Invalid_argument ''Invalid input string'')))
    \<and> (even (length s) \<and> list_all is_hex_char (digits s) \<longrightarrow>
         (\<exists>out. from_hex s = Inr out \<and> length out = length (digits s) div 2))"
proof -
  have ev: "even (length (digits s))" if "even (length s)"
    using that by (auto simp: digits_def prefix_of_iff)
  show ?thesis
    using from_hex_to_hex [of bs] from_hex_loop_error [OF ev, of "[]"]
      from_hex_loop_length [OF ev, of "[]"]
    by (auto simp: from_hex_def digits_def)
qed

theorem from_hex_spec_witness:
  "odd (length ''123'') \<and> from_hex ''123'' = Inl (Throw (Invalid_argument ''input is not of even length''))
   \<and> from_hex ''0xzz'' = Inl (Throw (Invalid_argument ''Invalid input string''))
   \<and> (\<exists>out. from_hex ''0xCAfe'' = Inr out \<and> length out = Suc (Suc 0))"
  using from_hex_spec [of "[]" "''123''"] from_hex_spec [of "[]" "''0xzz''"]
    from_hex_spec [of "[]" "''0xCAfe''"]
  by (simp add: is_hex_char_def less_eq_char_def)

text \<open>The RLP encoding of a sequence of byte strings shorter than \<open>2^64\<close> never throws, and decodes to
  exactly that sequence, whatever follows it: each string is one self-delimiting item,
  canonical for the reference decoder.\<close>

theorem rlp_string_decodes:
  assumes "list_all (\<lambda>s. length s < 2 ^ 64) ss"
  shows "foldl (\<lambda>acc s. bind_res acc (rlp_string s)) (Inr out) ss
           = Inr (out @ concat (map rlp_enc ss))
         \<and> decode_many rlp_decode_string (length ss) (concat (map rlp_enc ss) @ rest) = Some (ss, rest)"
proof
  show "foldl (\<lambda>acc s. bind_res acc (rlp_string s)) (Inr out) ss = Inr (out @ concat (map rlp_enc ss))"
    by (induction ss arbitrary: out) (simp_all add: rlp_string_eq)
  have "list_all rlp_ok ss" using assms by (simp add: rlp_ok_def [abs_def])
  then show "decode_many rlp_decode_string (length ss) (concat (map rlp_enc ss) @ rest) = Some (ss, rest)"
    by (rule rlp.decode_many_concat)
qed

theorem rlp_string_decodes_witness:
  "list_all (\<lambda>s. length s < 2 ^ 64) [[], [5], [1, 2 :: byte]]
   \<and> decode_many rlp_decode_string (length [[], [5], [1, 2 :: byte]])
        (concat (map rlp_enc [[], [5], [1, 2]]) @ [9]) = Some ([[], [5], [1, 2]], [9])"
proof -
  have h: "list_all (\<lambda>s. length s < 2 ^ 64) [[], [5], [1, 2 :: byte]]" by simp
  show ?thesis using h rlp_string_decodes [OF h, of "[]" "[9]"] by blast
qed

end
