(* ===== verification/Eth_Abi.thy ===== *)
theory Eth_Abi
  imports Encoding
begin

text \<open>
  The Ethereum contract ABI encoder of \<open>src/Enclave/eth_abi.cpp\<close> and \<open>eth_abi.h\<close>.
  The class hierarchy \<open>ABI_serializable\<close> is a datatype with one constructor per concrete
  class, its virtual methods are functions over it.  \<open>encode\<close> returns the C return code
  and the grown output buffer.  Buffer sizes are natural numbers (they are far below
  \<open>2^31\<close> in any run); what the code writes as an integer is reduced to 64 bits.
\<close>

section \<open>Model\<close>

datatype abi =
    ABI_UInt64 u64
  | ABI_UInt8 byte
  | ABI_UInt32 u32
  | ABI_Address bytes
  | ABI_Bytes32 bytes
  | ABI_Bytes bytes
  | ABI_Generic_Array "abi list"

definition round_to_32 :: "nat \<Rightarrow> nat" where
  "round_to_32 x = (x + 31) div 32 * 32"

fun dynamic :: "abi \<Rightarrow> bool" where
  "dynamic (ABI_UInt64 _) = False"
| "dynamic (ABI_UInt8 _) = False"
| "dynamic (ABI_UInt32 _) = False"
| "dynamic (ABI_Address _) = False"
| "dynamic (ABI_Bytes32 _) = False"
| "dynamic (ABI_Bytes _) = True"
| "dynamic (ABI_Generic_Array _) = True"

fun encode_len :: "abi \<Rightarrow> nat" where
  "encode_len (ABI_UInt64 _) = 32"
| "encode_len (ABI_UInt8 _) = 32"
| "encode_len (ABI_UInt32 _) = 32"
| "encode_len (ABI_Address _) = 32"
| "encode_len (ABI_Bytes32 _) = 32"
| "encode_len (ABI_Bytes d) = 32 + round_to_32 (length d)"
| "encode_len (ABI_Generic_Array items) = 32 + sum_list (map encode_len items)"

definition head_len :: "abi \<Rightarrow> nat" where
  "head_len a = (if dynamic a then 32 else encode_len a)"

definition tail_len :: "abi \<Rightarrow> nat" where
  "tail_len a = (if dynamic a then encode_len a else 0)"

text \<open>Reading \<open>n\<close> bytes through a \<open>bytes32*\<close>; a shorter vector is read past its end.\<close>

definition push_first :: "nat \<Rightarrow> bytes \<Rightarrow> bytes \<Rightarrow> (int \<times> bytes) res" where
  "push_first n d out = (if length d < n then Inl UB else Inr (0, out @ take n d))"

text \<open>
  \<open>ABI_Generic_Array::encode\<close>: the first loop writes the heads, the second the tails.
  \<open>prev\<close> holds the items before the current one; \<open>tail_len_sum\<close> is declared outside the
  loop and never reset, so every dynamic item adds the tails of all items before it.
\<close>

fun encode :: "abi \<Rightarrow> bytes \<Rightarrow> (int \<times> bytes) res"
and encode_heads :: "nat \<Rightarrow> nat \<Rightarrow> abi list \<Rightarrow> abi list \<Rightarrow> bytes \<Rightarrow> (int \<times> bytes) res"
and encode_tails :: "abi list \<Rightarrow> bytes \<Rightarrow> (int \<times> bytes) res" where
  "encode (ABI_UInt64 d) out = append_as_uint256 out d 8"
| "encode (ABI_UInt8 d) out = append_as_uint256 out (ucast d) 1"
| "encode (ABI_UInt32 d) out = append_as_uint256 out (ucast d) 4"
| "encode (ABI_Address d) out = push_first 20 d (out @ replicate 12 0)"
| "encode (ABI_Bytes32 d) out = push_first 32 d out"
| "encode (ABI_Bytes d) out =
     bind_res (append_as_uint256 out (word_of_nat (length d)) 4) (\<lambda>(r, out').
       if r \<noteq> 0 then Inr (-1, out')
       else Inr (0, out' @ replicate (round_to_32 (length d) - length d) 0 @ d))"
| "encode (ABI_Generic_Array items) out =
     bind_res (encode_heads (sum_list (map head_len items)) 0 [] items out) (\<lambda>(r, out').
       if r \<noteq> 0 then Inr (-1, out') else encode_tails items out')"
| "encode_heads head_len_sum tail_len_sum prev [] out = Inr (0, out)"
| "encode_heads head_len_sum tail_len_sum prev (x # xs) out =
     (if dynamic x then
        let tail_len_sum' = tail_len_sum + sum_list (map tail_len prev)
        in bind_res (append_as_uint256 out (word_of_nat (head_len_sum + tail_len_sum')) 8)
             (\<lambda>(r, out'). if r \<noteq> 0 then Inr (-1, out')
                else encode_heads head_len_sum tail_len_sum' (prev @ [x]) xs out')
      else
        bind_res (encode x out)
          (\<lambda>(r, out'). if r \<noteq> 0 then Inr (-1, out')
             else encode_heads head_len_sum tail_len_sum (prev @ [x]) xs out'))"
| "encode_tails [] out = Inr (0, out)"
| "encode_tails (x # xs) out =
     (if dynamic x then
        bind_res (encode x out)
          (\<lambda>(r, out'). if r \<noteq> 0 then Inr (-1, out') else encode_tails xs out')
      else encode_tails xs out)"

section \<open>Reference encoding\<close>

text \<open>The 32-byte word of a number, and the decoder of one such word.\<close>

definition abi_uint :: "u64 \<Rightarrow> bytes" where
  "abi_uint x = replicate 24 0 @ be_bytes 8 x"

definition abi_uint_dec :: "bytes \<Rightarrow> (u64 \<times> bytes) option" where
  "abi_uint_dec bs =
     (if length bs < 32 \<or> be_val (take 32 bs) \<ge> 2 ^ 64 then None
      else Some (word_of_nat (be_val (take 32 bs)), drop 32 bs))"

lemma length_abi_uint [simp]: "length (abi_uint x) = 32"
  by (simp add: abi_uint_def)

lemma be_val_abi_uint [be_simps]: "be_val (abi_uint x) = unat x"
  by (simp add: abi_uint_def be_val_append be_bytes_8_val)

lemma unat_u64_less: "unat (x :: u64) < 18446744073709551616"
  using unsigned_less [of x, where ?'a = nat] by simp

interpretation word256: prefix_codec abi_uint abi_uint_dec "\<lambda>_. True"
proof
  fix x :: u64 and r
  have "take 32 (abi_uint x @ r) = abi_uint x" by simp
  then show "abi_uint_dec (abi_uint x @ r) = Some (x, r)"
    using unat_u64_less [of x] unfolding abi_uint_dec_def by (simp add: be_val_abi_uint)
  show "abi_uint x \<noteq> []" by (simp add: abi_uint_def)
qed

text \<open>The word of a static item and the bytes of an \<open>ABI_Bytes\<close> item.\<close>

fun abi_word :: "abi \<Rightarrow> bytes" where
  "abi_word (ABI_UInt64 d) = abi_uint d"
| "abi_word (ABI_UInt8 d) = abi_uint (ucast d)"
| "abi_word (ABI_UInt32 d) = abi_uint (ucast d)"
| "abi_word (ABI_Address d) = replicate 12 0 @ take 20 d"
| "abi_word (ABI_Bytes32 d) = take 32 d"
| "abi_word (ABI_Bytes d) = []"
| "abi_word (ABI_Generic_Array items) = []"

fun wf_abi :: "abi \<Rightarrow> bool" where
  "wf_abi (ABI_Address d) = (20 \<le> length d)"
| "wf_abi (ABI_Bytes32 d) = (32 \<le> length d)"
| "wf_abi (ABI_Bytes d) = (length d < 2 ^ 32)"
| "wf_abi (ABI_Generic_Array items) = list_all wf_abi items"
| "wf_abi _ = True"

lemma pad_small_be:
  assumes "n \<le> 8" and "unat x < 256 ^ n"
  shows "replicate (32 - n) 0 @ be_bytes n x = abi_uint x"
proof (rule be_val_inj)
  show "length (replicate (32 - n) 0 @ be_bytes n x) = length (abi_uint x)"
    using assms(1) by simp
  show "be_val (replicate (32 - n) 0 @ be_bytes n x) = be_val (abi_uint x)"
    using assms by (simp add: be_simps)
qed

lemma append_uint_small:
  assumes "n \<le> 8" and "unat x < 256 ^ n"
  shows "append_as_uint256 out x (int n) = Inr (0, out @ abi_uint x)"
  using append_as_uint256_ok [of "int n" out x] pad_small_be [OF assms] assms(1)
  by (simp add: nat_diff_distrib)

lemma append_uint_8: "append_as_uint256 out x 8 = Inr (0, out @ abi_uint x)"
  using append_uint_small [of 8 x out] unat_u64_less [of x] by simp

lemma append_uint_byte: "append_as_uint256 out (ucast (d :: byte)) 1 = Inr (0, out @ abi_uint (ucast d))"
  using append_uint_small [of 1 "ucast d" out] byte_lt_256 [of d]
  by (simp add: unsigned_ucast_eq take_bit_eq_mod)

lemma unat_u32_less: "unat (x :: u32) < 4294967296"
  using unsigned_less [of x, where ?'a = nat] by simp

lemma append_uint_u32: "append_as_uint256 out (ucast (d :: u32)) 4 = Inr (0, out @ abi_uint (ucast d))"
  using append_uint_small [of 4 "ucast d" out] unat_u32_less [of d]
  by (simp add: unsigned_ucast_eq take_bit_eq_mod)

lemma encode_static:
  "\<not> dynamic x \<Longrightarrow> wf_abi x \<Longrightarrow> encode x out = Inr (0, out @ abi_word x)"
  by (cases x) (simp_all add: append_uint_8 append_uint_byte append_uint_u32 push_first_def)

lemma length_abi_word: "\<not> dynamic x \<Longrightarrow> wf_abi x \<Longrightarrow> length (abi_word x) = 32"
  by (cases x) simp_all

lemma head_len_32 [simp]: "head_len x = 32"
  by (cases x) (simp_all add: head_len_def)

lemma encode_len_static: "\<not> dynamic x \<Longrightarrow> encode_len x = 32"
  by (cases x) simp_all

lemma tail_len_static [simp]: "\<not> dynamic x \<Longrightarrow> tail_len x = 0"
  by (simp add: tail_len_def)

definition abi_bytes :: "bytes \<Rightarrow> bytes" where
  "abi_bytes d = abi_uint (word_of_nat (length d)) @ replicate (round_to_32 (length d) - length d) 0 @ d"

lemma encode_bytes:
  "length d < 2 ^ 32 \<Longrightarrow> encode (ABI_Bytes d) out = Inr (0, out @ abi_bytes d)"
  using append_uint_small [of 4 "word_of_nat (length d)" out]
  by (simp add: abi_bytes_def unat_of_nat)

lemma round_to_32_ge: "n \<le> round_to_32 n"
  unfolding round_to_32_def by presburger

lemma length_abi_bytes: "length (abi_bytes d) = 32 + round_to_32 (length d)"
  using round_to_32_ge [of "length d"] by (simp add: abi_bytes_def)

text \<open>The heads the code writes, as a function of the two running sums of the loop.\<close>

fun code_heads :: "nat \<Rightarrow> nat \<Rightarrow> nat \<Rightarrow> abi list \<Rightarrow> bytes" where
  "code_heads h ts p [] = []"
| "code_heads h ts p (x # xs) =
     (if dynamic x then abi_uint (word_of_nat (h + (ts + p))) @ code_heads h (ts + p) (p + tail_len x) xs
      else abi_word x @ code_heads h ts p xs)"

lemma encode_heads_eq:
  "list_all wf_abi xs \<Longrightarrow>
     encode_heads h ts prev xs out
       = Inr (0, out @ code_heads h ts (sum_list (map tail_len prev)) xs)"
  by (induction xs arbitrary: ts prev out)
     (simp_all add: append_uint_8 encode_static Let_def)

lemma length_code_heads: "list_all wf_abi xs \<Longrightarrow> length (code_heads h ts p xs) = 32 * length xs"
  by (induction xs arbitrary: ts p) (auto simp: length_abi_word)

text \<open>The heads the ABI asks for: an offset is the heads plus the tails before it.\<close>

fun spec_heads :: "nat \<Rightarrow> nat \<Rightarrow> abi list \<Rightarrow> bytes" where
  "spec_heads h t [] = []"
| "spec_heads h t (x # xs) =
     (if dynamic x then abi_uint (word_of_nat (h + t)) else abi_word x)
       @ spec_heads h (t + tail_len x) xs"

lemma code_heads_static: "filter dynamic xs = [] \<Longrightarrow> code_heads h ts p xs = spec_heads h t xs"
  by (induction xs arbitrary: t) (auto split: if_splits)

lemma code_heads_one:
  "length (filter dynamic xs) \<le> 1 \<Longrightarrow> code_heads h ts p xs = spec_heads h (ts + p) xs"
  by (induction xs arbitrary: ts p) (auto intro: code_heads_static)

lemma code_heads_two:
  "length (filter dynamic xs) \<le> 2 \<Longrightarrow> code_heads h 0 0 xs = spec_heads h 0 xs"
  by (induction xs) (auto intro: code_heads_one [where ts = 0, simplified])

text \<open>The tail of an array without nested arrays.\<close>

fun abi_tail :: "abi \<Rightarrow> bytes" where
  "abi_tail (ABI_Bytes d) = abi_bytes d"
| "abi_tail _ = []"

definition flat :: "abi \<Rightarrow> bool" where
  "flat x \<longleftrightarrow> (\<forall>items. x \<noteq> ABI_Generic_Array items)"

lemma length_abi_tail: "flat x \<Longrightarrow> length (abi_tail x) = tail_len x"
  by (cases x) (simp_all add: flat_def tail_len_def length_abi_bytes)

lemma encode_flat_dynamic:
  "dynamic x \<Longrightarrow> flat x \<Longrightarrow> wf_abi x \<Longrightarrow> encode x out = Inr (0, out @ abi_tail x)"
  by (cases x) (simp_all add: flat_def encode_bytes del: encode.simps)

lemma abi_tail_static: "\<not> dynamic x \<Longrightarrow> abi_tail x = []"
  by (cases x) simp_all

lemma encode_tails_eq:
  "list_all wf_abi xs \<Longrightarrow> list_all flat xs \<Longrightarrow>
     encode_tails xs out = Inr (0, out @ concat (map abi_tail xs))"
  by (induction xs arbitrary: out) (simp_all add: encode_flat_dynamic abi_tail_static)

lemma sum_head_len: "sum_list (map head_len xs) = 32 * length xs"
  by (induction xs) simp_all

lemma encode_array_eq:
  "list_all wf_abi xs \<Longrightarrow> list_all flat xs \<Longrightarrow>
     encode (ABI_Generic_Array xs) out
       = Inr (0, out @ code_heads (32 * length xs) 0 0 xs @ concat (map abi_tail xs))"
  by (simp add: encode_heads_eq encode_tails_eq sum_head_len)

lemma code_heads_all_static:
  "list_all (\<lambda>x. \<not> dynamic x) xs \<Longrightarrow> code_heads h ts p xs = concat (map abi_word xs)"
  by (induction xs) simp_all

lemma static_flat: "\<not> dynamic x \<Longrightarrow> flat x"
  by (auto simp: flat_def)

lemma tails_all_static: "list_all (\<lambda>x. \<not> dynamic x) xs \<Longrightarrow> concat (map abi_tail xs) = []"
  by (induction xs) (simp_all add: abi_tail_static)

lemma encode_static_array:
  assumes "list_all (\<lambda>x. \<not> dynamic x) xs" and "list_all wf_abi xs"
  shows "encode (ABI_Generic_Array xs) out = Inr (0, out @ concat (map abi_word xs))"
proof -
  have "list_all flat xs" using assms(1) by (auto simp: list_all_iff static_flat)
  then show ?thesis
    using assms by (simp add: encode_array_eq code_heads_all_static tails_all_static del: encode.simps)
qed

lemma length_concat_words:
  "list_all (\<lambda>x. \<not> dynamic x) xs \<Longrightarrow> list_all wf_abi xs \<Longrightarrow>
     length (concat (map abi_word xs)) = 32 * length xs"
  by (induction xs) (simp_all add: length_abi_word)

text \<open>Splitting the heads and the tails at one item.\<close>

lemma spec_heads_append:
  "spec_heads h t (xs @ ys) = spec_heads h t xs @ spec_heads h (t + sum_list (map tail_len xs)) ys"
  by (induction xs arbitrary: t) (simp_all add: add.assoc)

lemma length_spec_heads: "list_all wf_abi xs \<Longrightarrow> length (spec_heads h t xs) = 32 * length xs"
  by (induction xs arbitrary: t) (auto simp: length_abi_word)

lemma length_tails: "list_all flat xs \<Longrightarrow> length (concat (map abi_tail xs)) = sum_list (map tail_len xs)"
  by (induction xs) (simp_all add: length_abi_tail)

section \<open>Properties\<close>

text \<open>An argument list of static items (integers, addresses, 32-byte strings) encodes to the
  concatenation of one 32-byte word per item, in order, and never fails.\<close>

theorem abi_static_args:
  assumes "list_all (\<lambda>x. \<not> dynamic x \<and> wf_abi x) xs"
  shows "encode (ABI_Generic_Array xs) out = Inr (0, out @ concat (map abi_word xs))
    \<and> length (concat (map abi_word xs)) = 32 * length xs
    \<and> (\<forall>i < length xs. take 32 (drop (32 * i) (concat (map abi_word xs))) = abi_word (xs ! i))"
proof -
  have s: "list_all (\<lambda>x. \<not> dynamic x) xs" and w: "list_all wf_abi xs"
    using assms by (auto simp: list_all_iff)
  have "take 32 (drop (32 * i) (concat (map abi_word xs))) = abi_word (xs ! i)" if "i < length xs" for i
  proof -
    let ?pre = "take i xs" and ?post = "drop (Suc i) xs"
    have "concat (map abi_word xs) = concat (map abi_word ?pre) @ abi_word (xs ! i) @ concat (map abi_word ?post)"
      using id_take_nth_drop [OF that] by (metis concat.simps(2) concat_append list.simps(9) map_append)
    moreover have "length (concat (map abi_word ?pre)) = 32 * i"
      using that s w by (subst length_concat_words) (auto simp: list_all_iff dest: in_set_takeD)
    moreover have "length (abi_word (xs ! i)) = 32"
      using that s w by (intro length_abi_word) (auto simp: list_all_length)
    ultimately show ?thesis by simp
  qed
  with encode_static_array [OF s w] length_concat_words [OF s w] show ?thesis by blast
qed

theorem abi_static_args_witness:
  "list_all (\<lambda>x. \<not> dynamic x \<and> wf_abi x) [ABI_UInt64 7, ABI_Bytes32 (replicate 32 1)]
   \<and> length (concat (map abi_word [ABI_UInt64 7, ABI_Bytes32 (replicate 32 1)])) = 64"
  using abi_static_args [of "[ABI_UInt64 7, ABI_Bytes32 (replicate 32 1)]" "[]"] by simp

text \<open>C14: With at most two dynamic items and no nested arrays, every head of a dynamic item holds the
  offset at which the encoding of that item starts, so a reader that follows the offset
  finds the item.\<close>

theorem abi_offsets_resolve:
  assumes wf: "list_all (\<lambda>y. wf_abi y \<and> flat y) (pre @ x # post)"
    and dyn: "dynamic x"
    and two: "length (filter dynamic (pre @ x # post)) \<le> 2"
  shows "\<exists>e off. encode (ABI_Generic_Array (pre @ x # post)) [] = Inr (0, e)
           \<and> take 32 (drop (32 * length pre) e) = abi_uint (word_of_nat off)
           \<and> prefix_of (abi_tail x) (drop off e)"
proof -
  let ?xs = "pre @ x # post"
  let ?h = "32 * length ?xs"
  let ?t = "sum_list (map tail_len pre)"
  let ?off = "?h + ?t"
  have w: "list_all wf_abi ?xs" "list_all wf_abi pre" "list_all wf_abi post"
    and f: "list_all flat ?xs" "list_all flat pre"
    using wf by (auto simp: list_all_iff)
  let ?e = "spec_heads ?h 0 ?xs @ concat (map abi_tail ?xs)"
  have enc: "encode (ABI_Generic_Array ?xs) [] = Inr (0, ?e)"
    using encode_array_eq [OF w(1) f(1), of "[]"] code_heads_two [OF two, of ?h]
    by (simp only: append_Nil)
  have heads: "spec_heads ?h 0 ?xs
      = spec_heads ?h 0 pre @ abi_uint (word_of_nat ?off) @ spec_heads ?h (?t + tail_len x) post"
    using dyn by (simp add: spec_heads_append)
  have lh: "length (spec_heads ?h 0 ?xs) = ?h" by (rule length_spec_heads [OF w(1)])
  have "take 32 (drop (32 * length pre) ?e) = abi_uint (word_of_nat ?off)"
    using length_spec_heads [OF w(2), of ?h 0] unfolding heads by simp
  moreover have "drop ?off ?e = abi_tail x @ concat (map abi_tail post)"
    using lh length_tails [OF f(2)] by simp
  then have "prefix_of (abi_tail x) (drop ?off ?e)" by simp
  ultimately show ?thesis using enc by blast
qed

theorem abi_offsets_resolve_witness:
  "\<exists>e off. encode (ABI_Generic_Array ([ABI_UInt8 1] @ ABI_Bytes [1, 2] # [ABI_Bytes []])) [] = Inr (0, e)
     \<and> take 32 (drop (32 * length [ABI_UInt8 1]) e) = abi_uint (word_of_nat off)
     \<and> prefix_of (abi_tail (ABI_Bytes [1, 2])) (drop off e)"
  by (rule abi_offsets_resolve) (simp_all add: flat_def)


text \<open>\<open>encode_len\<close> is the number of bytes \<open>encode\<close> appends for every item but an array; for an array
  of static items it announces 32 bytes more than are written (the length word the
  commented-out typed array had).\<close>

theorem abi_encode_len:
  "(flat x \<and> wf_abi x \<longrightarrow>
      (\<exists>w. encode x out = Inr (0, out @ w) \<and> length w = encode_len x))
   \<and> (list_all (\<lambda>y. \<not> dynamic y \<and> wf_abi y) xs \<longrightarrow>
      (\<exists>w. encode (ABI_Generic_Array xs) out = Inr (0, out @ w)
         \<and> length w + 32 = encode_len (ABI_Generic_Array xs)))"
proof (intro conjI impI)
  assume a: "flat x \<and> wf_abi x"
  show "\<exists>w. encode x out = Inr (0, out @ w) \<and> length w = encode_len x"
  proof (cases "dynamic x")
    case True
    with a show ?thesis
      using encode_flat_dynamic [of x out] length_abi_tail [of x] by (auto simp: tail_len_def)
  next
    case False
    then have "encode_len x = 32" by (rule encode_len_static)
    with False a show ?thesis
      using encode_static [of x out] length_abi_word [of x] by auto
  qed
next
  assume a: "list_all (\<lambda>y. \<not> dynamic y \<and> wf_abi y) xs"
  then have s: "list_all (\<lambda>y. \<not> dynamic y) xs" and w: "list_all wf_abi xs"
    by (auto simp: list_all_iff)
  have "sum_list (map encode_len xs) = 32 * length xs"
    using s by (induction xs) (auto simp: encode_len_static)
  then show "\<exists>w. encode (ABI_Generic_Array xs) out = Inr (0, out @ w)
         \<and> length w + 32 = encode_len (ABI_Generic_Array xs)"
    using encode_static_array [OF s w, of out] length_concat_words [OF s w]
    by (auto simp del: encode.simps)
qed

theorem abi_encode_len_witness:
  "\<exists>w. encode (ABI_Bytes [1, 2, 3]) [] = Inr (0, [] @ w) \<and> length w = encode_len (ABI_Bytes [1, 2, 3])"
  using abi_encode_len [of "ABI_Bytes [1, 2, 3]" "[]" "[]"] by (simp add: flat_def del: encode.simps encode_len.simps)

end
