(* ===== verification/Env.thy ===== *)
theory Env
  imports Prelude
begin

text \<open>
  The key-value store of the enclave (\<open>src/Enclave/env.h\<close>, \<open>env.cpp\<close>): a \<open>std::map\<close> behind the
  global pointer \<open>g_environment\<close>, which is null until \<open>init_enclave_kv_store\<close> runs.
\<close>

section \<open>The store interface\<close>

text \<open>What the clients of a string store rely on: a read returns the last value written.\<close>

locale kv_store =
  fixes empty_store :: 's
    and set_kv :: "string \<Rightarrow> string \<Rightarrow> 's \<Rightarrow> 's"
    and get_kv :: "string \<Rightarrow> 's \<Rightarrow> string"
  assumes get_empty: "get_kv k empty_store = []"
    and get_set_same: "get_kv k (set_kv k v s) = v"
    and get_set_other: "k \<noteq> k' \<Longrightarrow> get_kv k' (set_kv k v s) = get_kv k' s"
begin

text \<open>A sequence of writes that never touches a key leaves its value unchanged.\<close>

lemma get_fold_other:
  "\<forall>(k', v) \<in> set kvs. k' \<noteq> k \<Longrightarrow>
     get_kv k (foldl (\<lambda>s (k', v). set_kv k' v s) s kvs) = get_kv k s"
  by (induction kvs arbitrary: s) (auto simp: get_set_other)

text \<open>The value read is that of the last write to the key.\<close>

lemma get_fold_last:
  "\<forall>(k', v') \<in> set kvs2. k' \<noteq> k \<Longrightarrow>
     get_kv k (foldl (\<lambda>s (k', v). set_kv k' v s) s (kvs1 @ (k, v) # kvs2)) = v"
  by (simp add: get_fold_other get_set_same)

end

section \<open>Model\<close>

type_synonym kv_map = "string \<rightharpoonup> string"

definition env_set :: "string \<Rightarrow> string \<Rightarrow> kv_map \<Rightarrow> kv_map" where
  "env_set key v env = env(key \<mapsto> v)"

definition env_get :: "string \<Rightarrow> kv_map \<Rightarrow> string" where
  "env_get key env = (case env key of None \<Rightarrow> [] | Some v \<Rightarrow> v)"

interpretation env: kv_store Map.empty env_set env_get
  by unfold_locales (simp_all add: env_set_def env_get_def)

definition TC_ADDR_MAP_KEY :: string where
  "TC_ADDR_MAP_KEY = ''TC_ADDRESS''"

text \<open>The global pointer: \<open>None\<close> is the null pointer.\<close>

type_synonym g_env = "kv_map option"

definition get_env :: "string \<Rightarrow> g_env \<Rightarrow> string res" where
  "get_env key g = (case g of None \<Rightarrow> Inl UB | Some env \<Rightarrow> Inr (env_get key env))"

definition getContractAddress :: "g_env \<Rightarrow> string res" where
  "getContractAddress g = get_env TC_ADDR_MAP_KEY g"

definition init_enclave_kv_store :: "string \<Rightarrow> g_env \<Rightarrow> g_env" where
  "init_enclave_kv_store tc_address g = Some (env_set TC_ADDR_MAP_KEY tc_address Map.empty)"

definition set_enclave_kv :: "string \<Rightarrow> string \<Rightarrow> g_env \<Rightarrow> g_env" where
  "set_enclave_kv key v g = (case g of None \<Rightarrow> None | Some env \<Rightarrow> Some (env_set key v env))"

section \<open>Properties\<close>

lemma set_enclave_kv_foldl:
  "foldl (\<lambda>g (k, v). set_enclave_kv k v g) (Some env) kvs
     = Some (foldl (\<lambda>s (k, v). env_set k v s) env kvs)"
  by (induction kvs arbitrary: env) (auto simp: set_enclave_kv_def)

text \<open>C16: After \<open>init_enclave_kv_store\<close>, whatever \<open>set_enclave_kv\<close> calls follow, the contract address is
  the one of the last write to its key, the initial one if there is none; and before
  initialisation writes are dropped and the address is read through a null pointer.\<close>

theorem contract_address_last_write:
  assumes "\<forall>(k, v) \<in> set later. k \<noteq> TC_ADDR_MAP_KEY"
  shows "getContractAddress
           (foldl (\<lambda>g (k, v). set_enclave_kv k v g) (init_enclave_kv_store a g) later) = Inr a
    \<and> getContractAddress
           (foldl (\<lambda>g (k, v). set_enclave_kv k v g) (init_enclave_kv_store a g)
              (earlier @ (TC_ADDR_MAP_KEY, b) # later)) = Inr b
    \<and> is_ub (getContractAddress (foldl (\<lambda>g (k, v). set_enclave_kv k v g) None later))"
proof -
  have n: "foldl (\<lambda>g (k, v). set_enclave_kv k v g) None kvs = None" for kvs
    by (induction kvs) (auto simp: set_enclave_kv_def)
  show ?thesis
    using env.get_fold_other [OF assms] env.get_fold_last [OF assms]
    by (simp add: n init_enclave_kv_store_def set_enclave_kv_foldl getContractAddress_def
          get_env_def env.get_set_same is_ub_def del: foldl_append)
qed

theorem contract_address_last_write_witness:
  "(''PORT'' \<noteq> TC_ADDR_MAP_KEY)
   \<and> getContractAddress
        (foldl (\<lambda>g (k, v). set_enclave_kv k v g) (init_enclave_kv_store ''0xaa'' None) [(''PORT'', ''8123'')])
      = Inr ''0xaa''"
  using contract_address_last_write [of "[(''PORT'', ''8123'')]" "''0xaa''" None "[]" "[]"]
  by (simp add: TC_ADDR_MAP_KEY_def)

end
