(* ===== verification/Mpi.thy ===== *)
theory Mpi
  imports Encoding
begin

text \<open>
  The multi-precision integers of mbedtls (\<open>bignum.c\<close>) at the level of their values: an
  \<open>mbedtls_mpi\<close> is an \<open>int\<close>, its sign and limbs joined, and allocation never fails.
  The binary import and export, the random fill, and the two algorithms that loop on values,
  \<open>mbedtls_mpi_gcd\<close> and \<open>mbedtls_mpi_inv_mod\<close>, which are proved to compute the greatest
  common divisor and the modular inverse.  A run of the library that never returns is the
  value \<open>None\<close>.
\<close>

section \<open>Error codes\<close>

definition ERR_MPI_BAD_INPUT_DATA :: int where "ERR_MPI_BAD_INPUT_DATA = - 0x0004"
definition ERR_MPI_BUFFER_TOO_SMALL :: int where "ERR_MPI_BUFFER_TOO_SMALL = - 0x0008"
definition ERR_MPI_NOT_ACCEPTABLE :: int where "ERR_MPI_NOT_ACCEPTABLE = - 0x000E"

section \<open>Computations that draw random bytes\<close>

text \<open>
  \<open>f_rng(p_rng, buf, n)\<close> returns an error code or fills \<open>n\<close> bytes; its state is threaded
  through every caller.  An effectful computation may not return (\<open>None\<close>), return a
  non-zero error code, or succeed; \<open>eff_bind\<close> is \<open>MBEDTLS_MPI_CHK\<close>.
\<close>

type_synonym 'g rng = "'g \<Rightarrow> nat \<Rightarrow> (int + bytes) \<times> 'g"
type_synonym ('g, 'a) eff = "'g \<Rightarrow> ((int + 'a) \<times> 'g) option"

definition eff_ret :: "'a \<Rightarrow> ('g, 'a) eff" where
  "eff_ret x g = Some (Inr x, g)"

definition eff_err :: "int \<Rightarrow> ('g, 'a) eff" where
  "eff_err e g = Some (Inl e, g)"

definition eff_bind :: "('g, 'a) eff \<Rightarrow> ('a \<Rightarrow> ('g, 'b) eff) \<Rightarrow> ('g, 'b) eff" where
  "eff_bind m f g =
     (case m g of
        None \<Rightarrow> None
      | Some (Inl e, g') \<Rightarrow> Some (Inl e, g')
      | Some (Inr x, g') \<Rightarrow> f x g')"

text \<open>Lifting a computation without effects.\<close>

definition eff_lift :: "(int + 'a) option \<Rightarrow> ('g, 'a) eff" where
  "eff_lift m g = (case m of None \<Rightarrow> None | Some r \<Rightarrow> Some (r, g))"

lemma eff_bind_Some_Inr:
  "eff_bind m f g = Some (Inr y, g'') \<longleftrightarrow> (\<exists>x g'. m g = Some (Inr x, g') \<and> f x g' = Some (Inr y, g''))"
  by (auto simp: eff_bind_def split: option.splits sum.splits)

lemma eff_ret_Some_Inr [simp]: "eff_ret x g = Some (Inr y, g') \<longleftrightarrow> x = y \<and> g = g'"
  by (auto simp: eff_ret_def)

lemma eff_err_Some_Inr [simp]: "eff_err e g = Some (Inr y, g') \<longleftrightarrow> False"
  by (auto simp: eff_err_def)

lemma eff_lift_Some_Inr [simp]:
  "eff_lift m g = Some (Inr y, g') \<longleftrightarrow> m = Some (Inr y) \<and> g = g'"
  by (auto simp: eff_lift_def split: option.splits)

text \<open>A computation returns when it yields an error code or a result.\<close>

definition eff_returns :: "('g, 'a) eff \<Rightarrow> 'g \<Rightarrow> bool" where
  "eff_returns m g \<longleftrightarrow> m g \<noteq> None"

named_theorems returns \<open>computations that return\<close>

lemma eff_returns_ret [returns]: "eff_returns (eff_ret x) g"
  by (simp add: eff_returns_def eff_ret_def)

lemma eff_returns_err [returns]: "eff_returns (eff_err e) g"
  by (simp add: eff_returns_def eff_err_def)

lemma eff_returns_lift [returns]: "m \<noteq> None \<Longrightarrow> eff_returns (eff_lift m) g"
  by (auto simp: eff_returns_def eff_lift_def)

lemma eff_returns_bind [returns]:
  "eff_returns m g \<Longrightarrow> (\<And>x g'. m g = Some (Inr x, g') \<Longrightarrow> eff_returns (f x) g') \<Longrightarrow>
    eff_returns (eff_bind m f) g"
  by (auto simp: eff_returns_def eff_bind_def split: option.splits sum.splits)

section \<open>Import and export\<close>

definition mpi_read_binary :: "bytes \<Rightarrow> int" where
  "mpi_read_binary buf = int (be_val buf)"

text \<open>The number of bytes of a value (\<open>mbedtls_mpi_size\<close>); the sign is not counted.\<close>

function mpi_size :: "int \<Rightarrow> nat" where
  "mpi_size x = (if x = 0 then 0 else Suc (mpi_size (\<bar>x\<bar> div 256)))"
  by pat_completeness auto
termination
  by (relation "measure (\<lambda>x. nat \<bar>x\<bar>)") auto

declare mpi_size.simps [simp del]

definition mpi_write_binary :: "int \<Rightarrow> nat \<Rightarrow> int + bytes" where
  "mpi_write_binary x buflen =
     (if buflen < mpi_size x then Inl ERR_MPI_BUFFER_TOO_SMALL
      else Inr (map (\<lambda>i. word_of_int (\<bar>x\<bar> div 256 ^ (buflen - 1 - i))) [0..<buflen]))"

lemma div256: "a div 256 < m \<longleftrightarrow> a < 256 * m" for a m :: int
proof
  assume "a div 256 < m"
  then have "a div 256 + 1 \<le> m" by simp
  then have "256 * (a div 256) + 256 \<le> 256 * m" by (simp add: algebra_simps)
  moreover have "a < 256 * (a div 256) + 256"
    using mult_div_mod_eq [of 256 a] pos_mod_bound [of 256 a] by linarith
  ultimately show "a < 256 * m" by simp
next
  assume a: "a < 256 * m"
  have "256 * (a div 256) \<le> a"
    using mult_div_mod_eq [of 256 a] pos_mod_sign [of 256 a] by linarith
  with a show "a div 256 < m" by linarith
qed

lemma mpi_size_le_iff: "mpi_size x \<le> n \<longleftrightarrow> \<bar>x\<bar> < 256 ^ n"
proof (induction n arbitrary: x)
  case 0
  then show ?case by (subst mpi_size.simps) auto
next
  case (Suc n)
  show ?case
  proof (cases "x = 0")
    case True
    then show ?thesis by (subst mpi_size.simps) simp
  next
    case False
    have "mpi_size x \<le> Suc n \<longleftrightarrow> \<bar>x\<bar> div 256 < 256 ^ n"
      using False Suc.IH [of "\<bar>x\<bar> div 256"] by (subst mpi_size.simps) (simp add: pos_imp_zdiv_nonneg_iff)
    also have "\<dots> \<longleftrightarrow> \<bar>x\<bar> < 256 ^ Suc n"
      using div256 [of "\<bar>x\<bar>" "256 ^ n"] by simp
    finally show ?thesis .
  qed
qed

lemma write_digits_val:
  "0 \<le> x \<Longrightarrow> int (be_val (map (\<lambda>i. word_of_int (x div 256 ^ (n - 1 - i))) [0..<n])) = x mod 256 ^ n"
proof (induction n)
  case 0
  then show ?case by simp
next
  case (Suc n)
  let ?d = "\<lambda>n i. word_of_int (x div 256 ^ (n - 1 - i)) :: byte"
  have l: "map (?d (Suc n)) [0..<Suc n] = word_of_int (x div 256 ^ n) # map (?d n) [0..<n]"
    unfolding map_upt_Suc by simp
  have d: "uint (word_of_int (x div 256 ^ n) :: byte) = x div 256 ^ n mod 256"
    by (simp add: unsigned_of_int take_bit_eq_mod)
  have "x mod 256 ^ Suc n = 256 ^ n * (x div 256 ^ n mod 256) + x mod 256 ^ n"
    using zmod_zmult2_eq [of 256 x "256 ^ n"] by (simp add: mult.commute)
  then show ?case
    using Suc unfolding l be_val_Cons by (simp add: d mult.commute)
qed

lemma mpi_write_binary_val:
  assumes "mpi_write_binary x n = Inr bs" and "0 \<le> x"
  shows "mpi_read_binary bs = x \<and> length bs = n"
proof -
  have s: "mpi_size x \<le> n"
    and b: "bs = map (\<lambda>i. word_of_int (\<bar>x\<bar> div 256 ^ (n - 1 - i))) [0..<n]"
    using assms(1) by (auto simp: mpi_write_binary_def not_less split: if_splits)
  have "\<bar>x\<bar> < 256 ^ n" using s by (simp add: mpi_size_le_iff)
  then show ?thesis
    using write_digits_val [of x n] assms(2) b by (simp add: mpi_read_binary_def)
qed

lemma mpi_write_binary_ok: "0 \<le> x \<Longrightarrow> x < 256 ^ n \<Longrightarrow> \<exists>bs. mpi_write_binary x n = Inr bs"
  using mpi_size_le_iff [of x n] by (auto simp: mpi_write_binary_def)

lemma mpi_read_binary_bounds: "0 \<le> mpi_read_binary bs \<and> mpi_read_binary bs < 256 ^ length bs"
  using be_val_bound [of bs] of_nat_less_iff [of "be_val bs" "256 ^ length bs", where ?'a = int]
  by (simp add: mpi_read_binary_def)

lemma mpi_write_read:
  assumes "length bs = n"
  shows "mpi_write_binary (mpi_read_binary bs) n = Inr bs"
proof -
  obtain cs where c: "mpi_write_binary (mpi_read_binary bs) n = Inr cs"
    using mpi_write_binary_ok mpi_read_binary_bounds [of bs] assms by blast
  then have "mpi_read_binary cs = mpi_read_binary bs" "length cs = n"
    using mpi_write_binary_val [OF c] mpi_read_binary_bounds [of bs] by auto
  then have "cs = bs" using be_val_inj [of cs bs] assms by (simp add: mpi_read_binary_def)
  with c show ?thesis by simp
qed

text \<open>\<open>mbedtls_mpi_shift_r\<close> shifts the magnitude and keeps the sign.\<close>

definition mpi_shift_r :: "int \<Rightarrow> nat \<Rightarrow> int" where
  "mpi_shift_r x n = sgn x * (\<bar>x\<bar> div 2 ^ n)"

definition MPI_MAX_SIZE :: nat where "MPI_MAX_SIZE = 1024"

definition mpi_fill_random :: "'g rng \<Rightarrow> nat \<Rightarrow> ('g, int) eff" where
  "mpi_fill_random f_rng n g =
     (if n > MPI_MAX_SIZE then eff_err ERR_MPI_BAD_INPUT_DATA g
      else case f_rng g n of
             (Inl e, g') \<Rightarrow> eff_err e g'
           | (Inr buf, g') \<Rightarrow> eff_ret (mpi_read_binary buf) g')"

section \<open>Greatest common divisor\<close>

text \<open>\<open>mbedtls_mpi_lsb\<close>: the number of low zero bits, 0 for the value 0.\<close>

function mpi_lsb :: "nat \<Rightarrow> nat" where
  "mpi_lsb x = (if x = 0 \<or> odd x then 0 else Suc (mpi_lsb (x div 2)))"
  by pat_completeness auto
termination
  by (relation "measure id") auto

declare mpi_lsb.simps [simp del]

lemma lsb_double: "y \<noteq> 0 \<Longrightarrow> mpi_lsb (2 * y) = Suc (mpi_lsb y)"
  by (subst mpi_lsb.simps) simp

lemma gcd_step_smaller:
  fixes a b ta tb :: nat
  assumes "a \<le> ta" and "b \<le> tb" and "ta \<noteq> 0" and "b \<le> a"
  shows "(a - b) div 2 + b < ta + tb"
proof (cases "a = b")
  case True
  then show ?thesis using assms by simp
next
  case False
  then have "(a - b) div 2 < a - b" using assms(4) by simp
  then show ?thesis using assms by linarith
qed

lemma div_pow2_le: "x div 2 ^ k \<le> (x :: nat)"
  by (rule div_le_dividend)

function gcd_loop :: "nat \<Rightarrow> nat \<Rightarrow> nat" where
  "gcd_loop ta tb =
     (if ta = 0 then tb
      else let ta' = ta div 2 ^ mpi_lsb ta;
               tb' = tb div 2 ^ mpi_lsb tb
           in if ta' \<ge> tb' then gcd_loop ((ta' - tb') div 2) tb'
              else gcd_loop ta' ((tb' - ta') div 2))"
  by pat_completeness auto
termination
proof (relation "measure (\<lambda>(ta, tb). ta + tb)", goal_cases)
  case 1
  then show ?case by simp
next
  case (2 ta tb ta' tb')
  then show ?case
    using gcd_step_smaller [OF div_pow2_le [of ta "mpi_lsb ta"] div_pow2_le [of tb "mpi_lsb tb"]]
    by simp
next
  case (3 ta tb ta' tb')
  then have "(tb' - ta') div 2 < tb' - ta'" by simp
  then show ?case
    using 3 div_pow2_le [of ta "mpi_lsb ta"] div_pow2_le [of tb "mpi_lsb tb"]
    unfolding in_measure prod.case by linarith
qed

declare gcd_loop.simps [simp del]

definition mpi_gcd :: "int \<Rightarrow> int \<Rightarrow> int" where
  "mpi_gcd a b =
     (let lz = mpi_lsb (nat \<bar>a\<bar>);
          lzt = mpi_lsb (nat \<bar>b\<bar>);
          lz' = (if lzt < lz then lzt else lz)
      in int (gcd_loop (nat \<bar>a\<bar> div 2 ^ lz') (nat \<bar>b\<bar> div 2 ^ lz') * 2 ^ lz'))"

lemma lsb_dvd: "2 ^ mpi_lsb x dvd x"
proof (induction x rule: mpi_lsb.induct)
  case (1 x)
  show ?case
  proof (cases "x = 0 \<or> odd x")
    case True
    then show ?thesis by (simp add: mpi_lsb.simps [of x])
  next
    case False
    then obtain y where y: "x = 2 * y" by auto
    then have "mpi_lsb x = Suc (mpi_lsb y)" using False by (simp add: lsb_double)
    with 1 [OF False] y show ?thesis by simp
  qed
qed

lemma lsb_odd: "x \<noteq> 0 \<Longrightarrow> odd (x div 2 ^ mpi_lsb x)"
proof (induction x rule: mpi_lsb.induct)
  case (1 x)
  show ?case
  proof (cases "odd x")
    case True
    then show ?thesis by (simp add: mpi_lsb.simps [of x])
  next
    case False
    then obtain y where y: "x = 2 * y" by auto
    then have l: "mpi_lsb x = Suc (mpi_lsb y)" using False 1(2) by (simp add: lsb_double)
    have "odd (y div 2 ^ mpi_lsb y)" using 1 False y by simp
    moreover have "x div 2 ^ mpi_lsb x = y div 2 ^ mpi_lsb y" unfolding l by (simp add: y)
    ultimately show ?thesis by simp
  qed
qed

lemma lsb_odd_id [simp]: "odd x \<Longrightarrow> mpi_lsb x = 0"
  by (subst mpi_lsb.simps) simp

lemma coprime_pow2: "odd (x :: nat) \<Longrightarrow> coprime x (2 ^ k)"
  by simp

lemma gcd_strip:
  assumes "odd a" and "b \<noteq> 0"
  shows "gcd a (b div 2 ^ mpi_lsb b) = gcd a b"
proof -
  have "b = b div 2 ^ mpi_lsb b * 2 ^ mpi_lsb b" using lsb_dvd [of b] by simp
  then have "gcd a b = gcd a (b div 2 ^ mpi_lsb b * 2 ^ mpi_lsb b)" by simp
  also have "\<dots> = gcd a (b div 2 ^ mpi_lsb b)"
    using coprime_pow2 [OF assms(1)] by (rule gcd_mult_right_right_cancel)
  finally show ?thesis by simp
qed

lemma gcd_half_diff:
  assumes "odd (a :: nat)" and "odd b" and "b \<le> a"
  shows "gcd ((a - b) div 2) b = gcd a b"
proof -
  have e: "a - b = 2 * ((a - b) div 2)" using assms by simp
  have "gcd a b = gcd (a - b) b" using assms(3) by (metis gcd_diff1_nat)
  also have "\<dots> = gcd (2 * ((a - b) div 2)) b" using e by simp
  also have "\<dots> = gcd ((a - b) div 2) b"
    using assms(2) by (metis coprime_commute gcd_mult_left_left_cancel coprime_left_2_iff_odd)
  finally show ?thesis by simp
qed

lemma gcd_loop_correct:
  "odd ta \<or> odd tb \<Longrightarrow> tb \<noteq> 0 \<Longrightarrow> gcd_loop ta tb = gcd ta tb"
proof (induction ta tb rule: gcd_loop.induct)
  case (1 ta tb)
  let ?a = "ta div 2 ^ mpi_lsb ta" and ?b = "tb div 2 ^ mpi_lsb tb"
  show ?case
  proof (cases "ta = 0")
    case True
    then show ?thesis by (subst gcd_loop.simps) simp
  next
    case False
    have oa: "odd ?a" and ob: "odd ?b" using lsb_odd False 1(4) by auto
    have g: "gcd ?a ?b = gcd ta tb"
    proof (cases "odd ta")
      case True
      then show ?thesis using gcd_strip [of ta tb] 1(4) by simp
    next
      case ta: False
      then have "odd tb" using 1(3) by simp
      then show ?thesis using gcd_strip [of tb ta] False by (simp add: gcd.commute)
    qed
    show ?thesis
    proof (cases "?b \<le> ?a")
      case True
      have "gcd_loop ta tb = gcd_loop ((?a - ?b) div 2) ?b"
        using False True by (simp add: gcd_loop.simps [of ta tb] Let_def)
      also have "\<dots> = gcd ((?a - ?b) div 2) ?b"
        using 1(1) [OF False refl refl True] ob by (metis odd_pos not_gr_zero)
      finally show ?thesis using gcd_half_diff [OF oa ob True] g by simp
    next
      case b: False
      have "gcd_loop ta tb = gcd_loop ?a ((?b - ?a) div 2)"
        using False b by (simp add: gcd_loop.simps [of ta tb] Let_def)
      also have "\<dots> = gcd ?a ((?b - ?a) div 2)"
      proof (rule 1(2) [OF False refl refl b])
        show "(?b - ?a) div 2 \<noteq> 0" using b oa ob by (auto elim!: oddE)
      qed (use oa in simp)
      finally show ?thesis
        using gcd_half_diff [OF ob oa] b g by (simp add: gcd.commute)
    qed
  qed
qed

lemma gcd_loop_zero: "gcd_loop ta 0 = 0"
proof (induction ta rule: less_induct)
  case (less ta)
  show ?case
  proof (cases "ta = 0")
    case True
    then show ?thesis by (simp add: gcd_loop.simps)
  next
    case False
    then have "ta div 2 ^ mpi_lsb ta div 2 < ta"
      using div_pow2_le [of ta "mpi_lsb ta"] by linarith
    then show ?thesis using less False by (subst gcd_loop.simps) simp
  qed
qed

section \<open>Modular inverse\<close>

text \<open>
  \<open>mbedtls_mpi_inv_mod\<close> (HAC 14.61).  The inner loop halves \<open>u\<close> while it is even and
  keeps \<open>ta * u1 + tb * u2 = u\<close>; it never returns for \<open>u = 0\<close>.
\<close>

partial_function (option) even_loop ::
  "int \<Rightarrow> int \<Rightarrow> int \<Rightarrow> int \<Rightarrow> int \<Rightarrow> (int \<times> int \<times> int) option" where
  "even_loop ta tb u u1 u2 =
     (if even u then
        (if odd u1 \<or> odd u2
         then even_loop ta tb (mpi_shift_r u 1) (mpi_shift_r (u1 + tb) 1) (mpi_shift_r (u2 - ta) 1)
         else even_loop ta tb (mpi_shift_r u 1) (mpi_shift_r u1 1) (mpi_shift_r u2 1))
      else Some (u, u1, u2))"

partial_function (option) inv_loop ::
  "int \<Rightarrow> int \<Rightarrow> int \<Rightarrow> int \<Rightarrow> int \<Rightarrow> int \<Rightarrow> int \<Rightarrow> int \<Rightarrow> int option" where
  "inv_loop ta tb tu u1 u2 tv v1 v2 =
     Option.bind (even_loop ta tb tu u1 u2) (\<lambda>(tu, u1, u2).
     Option.bind (even_loop ta tb tv v1 v2) (\<lambda>(tv, v1, v2).
       if tu \<ge> tv then
         (if tu - tv \<noteq> 0 then inv_loop ta tb (tu - tv) (u1 - v1) (u2 - v2) tv v1 v2 else Some v1)
       else
         (if tu \<noteq> 0 then inv_loop ta tb tu u1 u2 (tv - tu) (v1 - u1) (v2 - u2)
          else Some (v1 - u1))))"

declare even_loop.simps [code] inv_loop.simps [code]

text \<open>The two closing loops; they run only with \<open>n > 0\<close>, which is checked at entry.\<close>

function norm_up :: "int \<Rightarrow> int \<Rightarrow> int" where
  "norm_up n v = (if v < 0 \<and> 0 < n then norm_up n (v + n) else v)"
  by pat_completeness auto
termination
  by (relation "measure (\<lambda>(n, v). nat (- v))") auto

function norm_down :: "int \<Rightarrow> int \<Rightarrow> int" where
  "norm_down n v = (if v \<ge> n \<and> 0 < n then norm_down n (v - n) else v)"
  by pat_completeness auto
termination
  by (relation "measure (\<lambda>(n, v). nat v)") auto

declare norm_up.simps [simp del] norm_down.simps [simp del]

definition mpi_inv_mod :: "int \<Rightarrow> int \<Rightarrow> (int + int) option" where
  "mpi_inv_mod a n =
     (if n \<le> 0 then Some (Inl ERR_MPI_BAD_INPUT_DATA)
      else if mpi_gcd a n \<noteq> 1 then Some (Inl ERR_MPI_NOT_ACCEPTABLE)
      else let ta = a mod n
           in map_option (\<lambda>v1. Inr (norm_down n (norm_up n v1))) (inv_loop ta n ta 1 0 n 0 1))"

lemma mpi_gcd_correct: "b \<noteq> 0 \<Longrightarrow> mpi_gcd a b = gcd a b"
proof -
  assume b: "b \<noteq> 0"
  let ?a = "nat \<bar>a\<bar>" and ?b = "nat \<bar>b\<bar>"
  define lz where "lz = (if mpi_lsb ?b < mpi_lsb ?a then mpi_lsb ?b else mpi_lsb ?a)"
  have d: "2 ^ lz dvd ?a" "2 ^ lz dvd ?b"
    using lsb_dvd [of ?a] lsb_dvd [of ?b]
    by (auto simp: lz_def intro: power_le_dvd)
  have g: "gcd_loop (?a div 2 ^ lz) (?b div 2 ^ lz) = gcd (?a div 2 ^ lz) (?b div 2 ^ lz)"
  proof (cases "?a = 0")
    case True
    then show ?thesis by (subst gcd_loop.simps) simp
  next
    case False
    have "odd (?a div 2 ^ lz) \<or> odd (?b div 2 ^ lz)"
      using lsb_odd [of ?a] lsb_odd [of ?b] False b by (simp add: lz_def)
    moreover have "?b div 2 ^ lz \<noteq> 0" using d(2) b by (simp add: dvd_div_eq_0_iff)
    ultimately show ?thesis by (rule gcd_loop_correct)
  qed
  have "gcd ?a ?b = gcd (?a div 2 ^ lz * 2 ^ lz) (?b div 2 ^ lz * 2 ^ lz)" using d by simp
  also have "\<dots> = gcd (?a div 2 ^ lz) (?b div 2 ^ lz) * 2 ^ lz"
    by (simp add: gcd_mult_distrib_nat mult.commute)
  finally have "int (gcd_loop (?a div 2 ^ lz) (?b div 2 ^ lz) * 2 ^ lz) = int (gcd ?a ?b)"
    using g by simp
  then show ?thesis unfolding mpi_gcd_def Let_def lz_def [symmetric] gcd_int_def .
qed

lemma mpi_gcd_zero: "mpi_gcd a 0 = 0"
  by (simp add: mpi_gcd_def Let_def gcd_loop_zero)

lemma mpi_shift_r_half: "even x \<Longrightarrow> 2 * mpi_shift_r x 1 = x"
proof -
  assume "even x"
  then obtain y where y: "x = 2 * y" by auto
  then have "sgn x = sgn y" "\<bar>x\<bar> div 2 = \<bar>y\<bar>" by (simp_all add: sgn_mult abs_mult)
  then show ?thesis by (simp add: mpi_shift_r_def y sgn_mult_abs)
qed

text \<open>Halving keeps the linear combination, whatever the parities.\<close>

lemma half_step:
  assumes "coprime ta tb" and "ta * u1 + tb * u2 = u" and "even u"
    and "w1 = (if odd u1 \<or> odd u2 then u1 + tb else u1)"
    and "w2 = (if odd u1 \<or> odd u2 then u2 - ta else u2)"
  shows "ta * mpi_shift_r w1 1 + tb * mpi_shift_r w2 1 = mpi_shift_r u 1"
proof -
  have nb: "odd ta \<or> odd tb" using assms(1) by (metis coprime_common_divisor odd_one)
  have lin: "ta * w1 + tb * w2 = u" using assms by (auto simp: algebra_simps)
  have "even (ta * u1 + tb * u2)" using assms(2,3) by simp
  then have "even w1" "even w2" using nb assms(4,5) by (auto split: if_splits)
  then have "2 * (ta * mpi_shift_r w1 1 + tb * mpi_shift_r w2 1) = 2 * mpi_shift_r u 1"
    using lin mpi_shift_r_half [of w1] mpi_shift_r_half [of w2] mpi_shift_r_half [OF assms(3)]
    by (metis distrib_left mult.left_commute)
  then show ?thesis by simp
qed

lemma even_loop_correct:
  assumes "coprime ta tb"
  shows "0 < u \<Longrightarrow> ta * u1 + tb * u2 = u \<Longrightarrow>
    \<exists>u' w1 w2. even_loop ta tb u u1 u2 = Some (u', w1, w2) \<and> odd u' \<and> 0 < u' \<and> u' \<le> u \<and> u' dvd u
      \<and> ta * w1 + tb * w2 = u'"
proof (induction "nat u" arbitrary: u u1 u2 rule: less_induct)
  case less
  show ?case
  proof (cases "even u")
    case False
    then show ?thesis using less.prems by (subst even_loop.simps) auto
  next
    case True
    let ?w1 = "if odd u1 \<or> odd u2 then u1 + tb else u1"
    let ?w2 = "if odd u1 \<or> odd u2 then u2 - ta else u2"
    have h: "2 * mpi_shift_r u 1 = u" by (rule mpi_shift_r_half [OF True])
    have e: "even_loop ta tb u u1 u2
        = even_loop ta tb (mpi_shift_r u 1) (mpi_shift_r ?w1 1) (mpi_shift_r ?w2 1)"
      using True by (subst even_loop.simps) simp
    have "nat (mpi_shift_r u 1) < nat u" "0 < mpi_shift_r u 1" using h less.prems(1) by auto
    from less.hyps [OF this half_step [OF assms less.prems(2) True refl refl]]
    obtain u' x1 x2 where
      "even_loop ta tb (mpi_shift_r u 1) (mpi_shift_r ?w1 1) (mpi_shift_r ?w2 1) = Some (u', x1, x2)"
      "odd u'" "0 < u'" "u' \<le> mpi_shift_r u 1" "u' dvd mpi_shift_r u 1" "ta * x1 + tb * x2 = u'"
      by blast
    moreover have "mpi_shift_r u 1 dvd u" by (rule dvdI [of _ _ 2]) (use h in simp)
    ultimately show ?thesis using e h less.prems(1) by (auto intro: dvd_trans)
  qed
qed

lemma coprime_diff: "coprime (a :: int) b \<Longrightarrow> coprime (a - b) b"
  by (metis coprime_iff_gcd_eq_1 gcd_diff1)

lemma inv_loop_correct:
  assumes "coprime ta tb"
  shows "0 < tu \<Longrightarrow> 0 < tv \<Longrightarrow> coprime tu tv \<Longrightarrow> ta * u1 + tb * u2 = tu \<Longrightarrow> ta * v1 + tb * v2 = tv \<Longrightarrow>
    \<exists>x y. inv_loop ta tb tu u1 u2 tv v1 v2 = Some x \<and> ta * x + tb * y = 1"
proof (induction "nat (tu + tv)" arbitrary: tu u1 u2 tv v1 v2 rule: less_induct)
  case less
  obtain tu' x1 x2 where u: "even_loop ta tb tu u1 u2 = Some (tu', x1, x2)" "odd tu'" "0 < tu'"
      "tu' \<le> tu" "tu' dvd tu" "ta * x1 + tb * x2 = tu'"
    using even_loop_correct [OF assms less.prems(1,4)] by blast
  obtain tv' y1 y2 where v: "even_loop ta tb tv v1 v2 = Some (tv', y1, y2)" "odd tv'" "0 < tv'"
      "tv' \<le> tv" "tv' dvd tv" "ta * y1 + tb * y2 = tv'"
    using even_loop_correct [OF assms less.prems(2,5)] by blast
  have cop: "coprime tu' tv'" using coprime_divisors [OF u(5) v(5) less.prems(3)] .
  consider "tu' = tv'" | "tv' < tu'" | "tu' < tv'" by linarith
  then show ?case
  proof cases
    case 1
    then have "tv' = 1" using cop v(3) by simp
    then have "ta * y1 + tb * y2 = 1" using v(6) by simp
    moreover have "inv_loop ta tb tu u1 u2 tv v1 v2 = Some y1"
      using u(1) v(1) 1 by (subst inv_loop.simps) simp
    ultimately show ?thesis by blast
  next
    case 2
    have "inv_loop ta tb tu u1 u2 tv v1 v2 = inv_loop ta tb (tu' - tv') (x1 - y1) (x2 - y2) tv' y1 y2"
      using u(1) v(1) 2 by (subst inv_loop.simps) simp
    moreover have "ta * (x1 - y1) + tb * (x2 - y2) = tu' - tv'"
      using u(6) v(6) by (simp add: algebra_simps)
    moreover have "coprime (tu' - tv') tv'" using cop by (rule coprime_diff)
    moreover have "nat (tu' - tv' + tv') < nat (tu + tv)" using u(4) less.prems(1,2) by linarith
    ultimately show ?thesis
      using less.hyps [of "tu' - tv'" tv' "x1 - y1" "x2 - y2" y1 y2] v(3,6) 2 by (simp only: diff_gt_0_iff_gt)
  next
    case 3
    have "inv_loop ta tb tu u1 u2 tv v1 v2 = inv_loop ta tb tu' x1 x2 (tv' - tu') (y1 - x1) (y2 - x2)"
      using u(1,3) v(1) 3 by (subst inv_loop.simps) simp
    moreover have "ta * (y1 - x1) + tb * (y2 - x2) = tv' - tu'"
      using u(6) v(6) by (simp add: algebra_simps)
    moreover have "coprime tu' (tv' - tu')" using cop coprime_diff by (metis coprime_commute)
    moreover have "nat (tu' + (tv' - tu')) < nat (tu + tv)" using v(4) less.prems(1,2) by linarith
    ultimately show ?thesis
      using less.hyps [of tu' "tv' - tu'" x1 x2 "y1 - x1" "y2 - x2"] u(3,6) 3 by (simp only: diff_gt_0_iff_gt)
  qed
qed

lemma even_loop_zero: "even_loop ta tb 0 u1 u2 = None"
proof -
  have "even_loop ta tb u u1 u2 = Some y \<Longrightarrow> u \<noteq> 0" for u u1 u2 y
    by (rule even_loop.raw_induct [where P = "\<lambda>ta tb u u1 u2 y. u \<noteq> 0"])
      (auto simp: mpi_shift_r_def split: if_splits, blast+)
  then show ?thesis by (metis not_None_eq)
qed

lemma norm_up_correct: "0 < n \<Longrightarrow> 0 \<le> norm_up n v \<and> norm_up n v mod n = v mod n"
proof (induction n v rule: norm_up.induct)
  case (1 n v)
  then show ?case by (subst (1 2) norm_up.simps) (auto simp: norm_up.simps [of n "v + n"])
qed

lemma norm_down_correct: "0 < n \<Longrightarrow> 0 \<le> v \<Longrightarrow> norm_down n v = v mod n"
proof (induction n v rule: norm_down.induct)
  case (1 n v)
  show ?case
  proof (cases "v \<ge> n")
    case True
    then have "norm_down n v = (v - n) mod n" using 1 by (subst norm_down.simps) simp
    then show ?thesis by simp
  next
    case False
    then show ?thesis using 1 by (subst norm_down.simps) simp
  qed
qed

lemma mpi_inv_mod_cases:
  assumes "1 < n"
  shows "gcd a n = 1 \<and> (\<exists>x. mpi_inv_mod a n = Some (Inr x) \<and> 0 \<le> x \<and> x < n \<and> (a * x) mod n = 1)
    \<or> gcd a n \<noteq> 1 \<and> mpi_inv_mod a n = Some (Inl ERR_MPI_NOT_ACCEPTABLE)"
proof (cases "gcd a n = 1")
  case False
  then show ?thesis using assms by (simp add: mpi_inv_mod_def mpi_gcd_correct)
next
  case True
  define ta where "ta = a mod n"
  have g: "gcd ta n = 1" using True unfolding ta_def by (metis gcd_red_int gcd.commute)
  then have cop: "coprime ta n" by (simp add: coprime_iff_gcd_eq_1)
  have pos: "0 < ta"
    using g assms by (cases "ta = 0") (auto simp: ta_def order_less_le)
  obtain x y where x: "inv_loop ta n ta 1 0 n 0 1 = Some x" "ta * x + n * y = 1"
    using inv_loop_correct [OF cop pos _ cop, where ?u1.0 = 1 and ?u2.0 = 0 and ?v1.0 = 0 and ?v2.0 = 1] assms
    by auto
  have m: "norm_down n (norm_up n x) = x mod n"
    using norm_up_correct [of n x] assms by (simp add: norm_down_correct)
  have "(a * (x mod n)) mod n = (ta * x) mod n"
    unfolding ta_def by (simp add: mod_mult_eq mod_simps)
  also have "ta * x = 1 - n * y" using x(2) by simp
  also have "(1 - n * y) mod n = 1"
    using assms mod_mult_self2 [of 1 n "- y"] by simp
  finally show ?thesis
    using True assms x(1) m by (simp add: mpi_inv_mod_def mpi_gcd_correct ta_def Let_def)
qed

section \<open>Properties\<close>

text \<open>C27: For every modulus above 1 the binary extended Euclid loop of \<open>mbedtls_mpi_inv_mod\<close>
  returns: with the inverse in the range of the modulus when the greatest common divisor is
  1, with \<open>MBEDTLS_ERR_MPI_NOT_ACCEPTABLE\<close> otherwise.\<close>

theorem inv_mod_correct:
  assumes "1 < n"
  shows "gcd a n = 1 \<and> (\<exists>x. mpi_inv_mod a n = Some (Inr x) \<and> 0 \<le> x \<and> x < n \<and> (a * x) mod n = 1)
    \<or> gcd a n \<noteq> 1 \<and> mpi_inv_mod a n = Some (Inl ERR_MPI_NOT_ACCEPTABLE)"
  using assms by (rule mpi_inv_mod_cases)

theorem inv_mod_correct_witness:
  "(1 :: int) < 10 \<and> mpi_inv_mod 7 10 = Some (Inr 3) \<and> mpi_inv_mod 4 10 = Some (Inl (- 14))"
proof -
  have a: "mpi_inv_mod 4 10 = Some (Inl (- 14))"
    using inv_mod_correct [of 10 4] by (simp add: ERR_MPI_NOT_ACCEPTABLE_def gcd_non_0_int)
  obtain x where x: "mpi_inv_mod 7 10 = Some (Inr x)" "0 \<le> x" "x < 10" "(7 * x) mod 10 = 1"
    using inv_mod_correct [of 10 7] by (auto simp: gcd_non_0_int)
  then have "x = 3" by presburger
  with a x show ?thesis by simp
qed

text \<open>C28: For the modulus 1, which \<open>mbedtls_mpi_inv_mod\<close> lets pass, the loop that halves an even
  value starts from 0 and never returns.\<close>

theorem inv_mod_one_diverges: "mpi_inv_mod a 1 = None"
proof -
  have "inv_loop 0 1 0 1 0 1 0 1 = None"
    by (subst inv_loop.simps) (simp add: even_loop_zero)
  then show ?thesis by (simp add: mpi_inv_mod_def mpi_gcd_correct)
qed

end
