(* ===== verification/Ecp.thy ===== *)
theory Ecp
  imports Mpi
begin

text \<open>
  The elliptic curve layer of mbedtls that the enclave calls (\<open>ecp.c\<close>, \<open>ecp_curves.c\<close>,
  \<open>ecdh.c\<close>), on values: points are affine or zero (every point that crosses the interface
  is normalised), coordinates are integers.  A curve is the data of \<open>mbedtls_ecp_group\<close>
  together with its two arithmetic routines, \<open>comb\<close> (\<open>ecp_mul_comb\<close>: scalar
  multiplication) and \<open>padd\<close> (\<open>ecp_add_mixed\<close> with normalisation: addition); these two
  are parameters, everything around them - validity checks, import and export, retries on
  the random generator - is translated.  \<open>curve_laws\<close> names what is used of the two.
\<close>

section \<open>Error codes, points and curves\<close>

definition ERR_ECP_BAD_INPUT_DATA :: int where "ERR_ECP_BAD_INPUT_DATA = - 0x4F80"
definition ERR_ECP_BUFFER_TOO_SMALL :: int where "ERR_ECP_BUFFER_TOO_SMALL = - 0x4F00"
definition ERR_ECP_FEATURE_UNAVAILABLE :: int where "ERR_ECP_FEATURE_UNAVAILABLE = - 0x4E80"
definition ERR_ECP_VERIFY_FAILED :: int where "ERR_ECP_VERIFY_FAILED = - 0x4E00"
definition ERR_ECP_RANDOM_FAILED :: int where "ERR_ECP_RANDOM_FAILED = - 0x4D00"
definition ERR_ECP_INVALID_KEY :: int where "ERR_ECP_INVALID_KEY = - 0x4C80"

datatype ecp_point = Zero | Affine int int

text \<open>\<open>gA = None\<close> is the library's convention for the coefficient \<open>-3\<close>.\<close>

record ecp_curve =
  gP :: int
  gA :: "int option"
  gB :: int
  gG :: ecp_point
  gN :: int
  pbits :: nat
  nbits :: nat
  comb :: "int \<Rightarrow> ecp_point \<Rightarrow> ecp_point"
  padd :: "ecp_point \<Rightarrow> ecp_point \<Rightarrow> ecp_point"

text \<open>The coordinates a normalised point has in its structure; \<open>mbedtls_ecp_set_zero\<close> gives 1, 1.\<close>

fun ecp_X :: "ecp_point \<Rightarrow> int" where
  "ecp_X Zero = 1"
| "ecp_X (Affine x y) = x"

fun ecp_Y :: "ecp_point \<Rightarrow> int" where
  "ecp_Y Zero = 1"
| "ecp_Y (Affine x y) = y"

definition ecp_is_zero :: "ecp_point \<Rightarrow> bool" where
  "ecp_is_zero pt \<longleftrightarrow> pt = Zero"

text \<open>The curve the enclave loads.\<close>

definition secp256k1 ::
  "(int \<Rightarrow> ecp_point \<Rightarrow> ecp_point) \<Rightarrow> (ecp_point \<Rightarrow> ecp_point \<Rightarrow> ecp_point) \<Rightarrow> ecp_curve" where
  "secp256k1 mul add =
     \<lparr>gP = 0xFFFFFFFFFFFFFFFFFFFFFFFFFFFFFFFFFFFFFFFFFFFFFFFFFFFFFFFEFFFFFC2F,
      gA = Some 0,
      gB = 7,
      gG = Affine 0x79BE667EF9DCBBAC55A06295CE870B07029BFCDB2DCE28D959F2815B16F81798
                  0x483ADA7726A3C4655DA4FBFC0E1108A8FD17B448A68554199C47D08FFB10D4B8,
      gN = 0xFFFFFFFFFFFFFFFFFFFFFFFFFFFFFFFEBAAEDCE6AF48A03BBFD25E8CD0364141,
      pbits = 256,
      nbits = 256,
      comb = mul,
      padd = add\<rparr>"

section \<open>Checks\<close>

definition ecp_check_pubkey_sw :: "ecp_curve \<Rightarrow> int \<Rightarrow> int \<Rightarrow> int" where
  "ecp_check_pubkey_sw C x y =
     (if x < 0 \<or> y < 0 \<or> x \<ge> gP C \<or> y \<ge> gP C then ERR_ECP_INVALID_KEY
      else let yy = y * y mod gP C;
               rhs = x * x mod gP C;
               rhs = (case gA C of None \<Rightarrow> (rhs - 3) mod gP C | Some a \<Rightarrow> (rhs + a) mod gP C);
               rhs = rhs * x mod gP C;
               rhs = (rhs + gB C) mod gP C
           in if yy \<noteq> rhs then ERR_ECP_INVALID_KEY else 0)"

fun ecp_check_pubkey :: "ecp_curve \<Rightarrow> ecp_point \<Rightarrow> int" where
  "ecp_check_pubkey C Zero = ERR_ECP_INVALID_KEY"
| "ecp_check_pubkey C (Affine x y) = ecp_check_pubkey_sw C x y"

definition ecp_check_privkey :: "ecp_curve \<Rightarrow> int \<Rightarrow> int" where
  "ecp_check_privkey C d = (if d < 1 \<or> d \<ge> gN C then ERR_ECP_INVALID_KEY else 0)"

section \<open>Scalar multiplication\<close>

text \<open>
  \<open>ecp_randomize_jac\<close> draws the blinding factor; its value cancels in the normalised result,
  so only the draws and the failure after eleven tries are kept.  A failing generator leaves
  the factor as it was.
\<close>

function jac_reduce :: "int \<Rightarrow> int \<Rightarrow> int" where
  "jac_reduce p l = (if l \<ge> p \<and> 0 < l then jac_reduce p (mpi_shift_r l 1) else l)"
  by pat_completeness auto
termination
  by (relation "measure (\<lambda>(p, l). nat l)") (auto simp: mpi_shift_r_def)

declare jac_reduce.simps [simp del]

function ecp_randomize_jac :: "ecp_curve \<Rightarrow> 'g rng \<Rightarrow> int \<Rightarrow> nat \<Rightarrow> ('g, unit) eff" where
  "ecp_randomize_jac C f_rng l count g =
     (case mpi_fill_random f_rng ((pbits C + 7) div 8) g of
        None \<Rightarrow> None
      | Some (r, g') \<Rightarrow>
          let l' = jac_reduce (gP C) (case r of Inl e \<Rightarrow> l | Inr x \<Rightarrow> x)
          in if count > 10 then eff_err ERR_ECP_RANDOM_FAILED g'
             else if l' \<le> 1 then ecp_randomize_jac C f_rng l' (count + 1) g'
             else eff_ret () g')"
  by pat_completeness auto
termination
  by (relation "measure (\<lambda>(C, f_rng, l, count, g). 11 - count)") auto

declare ecp_randomize_jac.simps [simp del]

definition ecp_mul :: "ecp_curve \<Rightarrow> 'g rng option \<Rightarrow> int \<Rightarrow> ecp_point \<Rightarrow> ('g, ecp_point) eff" where
  "ecp_mul C f_rng m P =
     (if P = Zero then eff_err ERR_ECP_BAD_INPUT_DATA
      else if ecp_check_privkey C m \<noteq> 0 then eff_err (ecp_check_privkey C m)
      else if ecp_check_pubkey C P \<noteq> 0 then eff_err (ecp_check_pubkey C P)
      else if even (gN C) then eff_err ERR_ECP_BAD_INPUT_DATA
      else case f_rng of
             None \<Rightarrow> eff_ret (comb C m P)
           | Some rng \<Rightarrow> eff_bind (ecp_randomize_jac C rng 0 0) (\<lambda>_. eff_ret (comb C m P)))"

fun ecp_neg :: "ecp_curve \<Rightarrow> ecp_point \<Rightarrow> ecp_point" where
  "ecp_neg C Zero = Zero"
| "ecp_neg C (Affine x y) = Affine x (if y \<noteq> 0 then gP C - y else y)"

definition ecp_mul_shortcuts :: "ecp_curve \<Rightarrow> int \<Rightarrow> ecp_point \<Rightarrow> ('g, ecp_point) eff" where
  "ecp_mul_shortcuts C m P =
     (if m = 1 then eff_ret P
      else if m = - 1 then eff_ret (ecp_neg C P)
      else ecp_mul C None m P)"

definition ecp_muladd ::
  "ecp_curve \<Rightarrow> int \<Rightarrow> ecp_point \<Rightarrow> int \<Rightarrow> ecp_point \<Rightarrow> ('g, ecp_point) eff" where
  "ecp_muladd C m P n Q =
     eff_bind (ecp_mul_shortcuts C m P) (\<lambda>mP.
     eff_bind (ecp_mul_shortcuts C n Q) (\<lambda>R.
     eff_ret (padd C mP R)))"

section \<open>Key generation and key agreement\<close>

function gen_privkey :: "ecp_curve \<Rightarrow> 'g rng \<Rightarrow> nat \<Rightarrow> ('g, int) eff" where
  "gen_privkey C f_rng count g =
     (let n_size = (nbits C + 7) div 8
      in case f_rng g n_size of
           (Inl e, g') \<Rightarrow> eff_err e g'
         | (Inr rnd, g') \<Rightarrow>
             let d = mpi_shift_r (mpi_read_binary rnd) (8 * n_size - nbits C)
             in if count + 1 > 30 then eff_err ERR_ECP_RANDOM_FAILED g'
                else if d < 1 \<or> d \<ge> gN C then gen_privkey C f_rng (count + 1) g'
                else eff_ret d g')"
  by pat_completeness auto
termination
  by (relation "measure (\<lambda>(C, f_rng, count, g). 30 - count)") auto

declare gen_privkey.simps [simp del]

definition ecp_gen_keypair :: "ecp_curve \<Rightarrow> 'g rng \<Rightarrow> ('g, int \<times> ecp_point) eff" where
  "ecp_gen_keypair C f_rng =
     eff_bind (gen_privkey C f_rng 0) (\<lambda>d.
     eff_bind (ecp_mul C (Some f_rng) d (gG C)) (\<lambda>Q.
     eff_ret (d, Q)))"

definition ecdh_gen_public :: "ecp_curve \<Rightarrow> 'g rng \<Rightarrow> ('g, int \<times> ecp_point) eff" where
  "ecdh_gen_public C f_rng = ecp_gen_keypair C f_rng"

definition ecdh_compute_shared ::
  "ecp_curve \<Rightarrow> 'g rng option \<Rightarrow> ecp_point \<Rightarrow> int \<Rightarrow> ('g, int) eff" where
  "ecdh_compute_shared C f_rng Q d =
     (if ecp_check_pubkey C Q \<noteq> 0 then eff_err (ecp_check_pubkey C Q)
      else eff_bind (ecp_mul C f_rng d Q) (\<lambda>P.
             if ecp_is_zero P then eff_err ERR_ECP_BAD_INPUT_DATA else eff_ret (ecp_X P)))"

section \<open>Import and export of points\<close>

text \<open>The format is the uncompressed one; the result holds the bytes written (\<open>*olen\<close> many).\<close>

fun ecp_point_write_binary :: "ecp_curve \<Rightarrow> ecp_point \<Rightarrow> nat \<Rightarrow> int + bytes" where
  "ecp_point_write_binary C Zero buflen =
     (if buflen < 1 then Inl ERR_ECP_BUFFER_TOO_SMALL else Inr [0x00])"
| "ecp_point_write_binary C (Affine x y) buflen =
     (let plen = mpi_size (gP C)
      in if buflen < 2 * plen + 1 then Inl ERR_ECP_BUFFER_TOO_SMALL
         else case mpi_write_binary x plen of
                Inl e \<Rightarrow> Inl e
              | Inr bx \<Rightarrow>
                  (case mpi_write_binary y plen of
                     Inl e \<Rightarrow> Inl e
                   | Inr by \<Rightarrow> Inr (0x04 # bx @ by)))"

definition ecp_point_read_binary :: "ecp_curve \<Rightarrow> bytes \<Rightarrow> int + ecp_point" where
  "ecp_point_read_binary C buf =
     (if length buf < 1 then Inl ERR_ECP_BAD_INPUT_DATA
      else if hd buf = 0x00 then
        (if length buf = 1 then Inr Zero else Inl ERR_ECP_BAD_INPUT_DATA)
      else let plen = mpi_size (gP C)
           in if hd buf \<noteq> 0x04 then Inl ERR_ECP_FEATURE_UNAVAILABLE
              else if length buf \<noteq> 2 * plen + 1 then Inl ERR_ECP_BAD_INPUT_DATA
              else Inr (Affine (mpi_read_binary (take plen (drop 1 buf)))
                               (mpi_read_binary (take plen (drop (1 + plen) buf)))))"

end
