(* ===== verification/Ecdsa.thy ===== *)
theory Ecdsa
  imports Ecp
begin

text \<open>
  ECDSA as the repository's copy of mbedtls implements it (\<open>ecdsa.c\<close>): the signing routine
  added for Ethereum, \<open>mbedtls_ecdsa_sign_with_v\<close>, with its retries and its recovery
  value, and \<open>mbedtls_ecdsa_verify\<close>.  The lemmas show the ranges of a signature, that a
  signature verifies under the public key, and that both routines always return.
\<close>

section \<open>Model\<close>

definition derive_mpi :: "ecp_curve \<Rightarrow> bytes \<Rightarrow> int" where
  "derive_mpi C buf =
     (let n_size = (nbits C + 7) div 8;
          use_size = (if length buf > n_size then n_size else length buf);
          x = mpi_read_binary (take use_size buf);
          x = (if use_size * 8 > nbits C then mpi_shift_r x (use_size * 8 - nbits C) else x)
      in if x \<ge> gN C then x - gN C else x)"

text \<open>
  The loop over ephemeral keys.  \<open>v\<close> takes the parity of \<open>R.Y mod N\<close>
  (\<open>mbedtls_mpi_mod_int\<close> by 2 reads the lowest bit) and bit 1 when \<open>R.X\<close> is not below
  the order.
\<close>

definition recovery_bits :: "ecp_curve \<Rightarrow> ecp_point \<Rightarrow> byte" where
  "recovery_bits C R =
     (let v = (if odd (ecp_Y R mod gN C) then 1 else 0)
      in if \<bar>ecp_X R\<bar> \<ge> gN C then v OR 2 else v)"

function key_loop ::
  "ecp_curve \<Rightarrow> 'g rng \<Rightarrow> nat \<Rightarrow> ('g, int \<times> int \<times> byte) eff" where
  "key_loop C f_rng key_tries g =
     (case ecp_gen_keypair C f_rng g of
        None \<Rightarrow> None
      | Some (Inl e, g') \<Rightarrow> eff_err e g'
      | Some (Inr (k, R), g') \<Rightarrow>
          let v = recovery_bits C R;
              r = ecp_X R mod gN C
          in if key_tries > 10 then eff_err ERR_ECP_RANDOM_FAILED g'
             else if r = 0 then key_loop C f_rng (key_tries + 1) g'
             else eff_ret (k, r, v) g')"
  by pat_completeness auto
termination
  by (relation "measure (\<lambda>(C, f_rng, key_tries, g). 11 - key_tries)") auto

declare key_loop.simps [simp del]

text \<open>The loop over blinding values.\<close>

function blind_loop :: "ecp_curve \<Rightarrow> 'g rng \<Rightarrow> nat \<Rightarrow> ('g, int) eff" where
  "blind_loop C f_rng blind_tries g =
     (let n_size = (nbits C + 7) div 8
      in case mpi_fill_random f_rng n_size g of
           None \<Rightarrow> None
         | Some (Inl e, g') \<Rightarrow> eff_err e g'
         | Some (Inr x, g') \<Rightarrow>
             let t = mpi_shift_r x (8 * n_size - nbits C)
             in if blind_tries + 1 > 30 then eff_err ERR_ECP_RANDOM_FAILED g'
                else if t < 1 \<or> t \<ge> gN C then blind_loop C f_rng (blind_tries + 1) g'
                else eff_ret t g')"
  by pat_completeness auto
termination
  by (relation "measure (\<lambda>(C, f_rng, blind_tries, g). 30 - blind_tries)") auto

declare blind_loop.simps [simp del]

text \<open>Step 6: \<open>s = t (e + r d) / (k t)\<close> modulo the order.\<close>

definition sign_step :: "ecp_curve \<Rightarrow> int \<Rightarrow> int \<Rightarrow> int \<Rightarrow> int \<Rightarrow> int \<Rightarrow> (int + int) option" where
  "sign_step C d e k r t =
     (let s = r * d;
          e = e + s;
          e = e * t;
          k = k * t
      in case mpi_inv_mod k (gN C) of
           None \<Rightarrow> None
         | Some (Inl err) \<Rightarrow> Some (Inl err)
         | Some (Inr s) \<Rightarrow> Some (Inr (s * e mod gN C)))"

definition sign_attempt ::
  "ecp_curve \<Rightarrow> 'g rng \<Rightarrow> int \<Rightarrow> bytes \<Rightarrow> ('g, int \<times> int \<times> byte) eff" where
  "sign_attempt C f_rng d buf =
     eff_bind (key_loop C f_rng 0) (\<lambda>(k, r, v).
     eff_bind (blind_loop C f_rng 0) (\<lambda>t.
     eff_bind (eff_lift (sign_step C d (derive_mpi C buf) k r t)) (\<lambda>s.
     eff_ret (r, s, v))))"

function sign_loop ::
  "ecp_curve \<Rightarrow> 'g rng \<Rightarrow> int \<Rightarrow> bytes \<Rightarrow> nat \<Rightarrow> ('g, int \<times> int \<times> byte) eff" where
  "sign_loop C f_rng d buf sign_tries g =
     (case sign_attempt C f_rng d buf g of
        None \<Rightarrow> None
      | Some (Inl e, g') \<Rightarrow> eff_err e g'
      | Some (Inr (r, s, v), g') \<Rightarrow>
          if sign_tries > 10 then eff_err ERR_ECP_RANDOM_FAILED g'
          else if s = 0 then sign_loop C f_rng d buf (sign_tries + 1) g'
          else eff_ret (r, s, v) g')"
  by pat_completeness auto
termination
  by (relation "measure (\<lambda>(C, f_rng, d, buf, sign_tries, g). 11 - sign_tries)") auto

declare sign_loop.simps [simp del]

definition ecdsa_sign_with_v ::
  "ecp_curve \<Rightarrow> 'g rng \<Rightarrow> int \<Rightarrow> bytes \<Rightarrow> ('g, int \<times> int \<times> byte) eff" where
  "ecdsa_sign_with_v C f_rng d buf =
     (let halfN = gN C div 2
      in eff_bind (sign_loop C f_rng d buf 0) (\<lambda>(r, s, v).
           let (s, v) = (if \<bar>s\<bar> > \<bar>halfN\<bar> then (gN C - s, v XOR 1) else (s, v))
           in eff_ret (r, s, v + 27)))"

definition ecdsa_verify ::
  "ecp_curve \<Rightarrow> bytes \<Rightarrow> ecp_point \<Rightarrow> int \<Rightarrow> int \<Rightarrow> ('g, unit) eff" where
  "ecdsa_verify C buf Q r s =
     (if r < 1 \<or> r \<ge> gN C \<or> s < 1 \<or> s \<ge> gN C then eff_err ERR_ECP_VERIFY_FAILED
      else if ecp_check_pubkey C Q \<noteq> 0 then eff_err (ecp_check_pubkey C Q)
      else let e = derive_mpi C buf
           in eff_bind (eff_lift (mpi_inv_mod s (gN C))) (\<lambda>s_inv.
              let u1 = e * s_inv mod gN C;
                  u2 = r * s_inv mod gN C
              in eff_bind (ecp_muladd C u1 (gG C) u2 Q) (\<lambda>R.
                 if ecp_is_zero R then eff_err ERR_ECP_VERIFY_FAILED
                 else if ecp_X R mod gN C \<noteq> r then eff_err ERR_ECP_VERIFY_FAILED
                 else eff_ret ())))"

section \<open>What the loops deliver\<close>

lemma gen_privkey_range:
  "gen_privkey C f_rng n g = Some (Inr d, g') \<Longrightarrow> 1 \<le> d \<and> d < gN C"
proof (induction C f_rng n g rule: gen_privkey.induct)
  case (1 C f_rng n g)
  show ?case
    using 1(2) 1(1) [OF refl] unfolding gen_privkey.simps [of C f_rng n g]
    by (auto simp: Let_def split: prod.splits sum.splits if_splits)
qed

lemma gen_privkey_returns [returns]: "eff_returns (gen_privkey C f_rng n) g"
proof (induction C f_rng n g rule: gen_privkey.induct)
  case (1 C f_rng n g)
  show ?case
    using 1 [OF refl] unfolding eff_returns_def gen_privkey.simps [of C f_rng n g]
    by (auto simp: Let_def eff_err_def eff_ret_def split: prod.splits sum.splits if_splits)
qed

lemma mpi_fill_random_returns [returns]: "eff_returns (mpi_fill_random f_rng n) g"
  by (auto simp: eff_returns_def mpi_fill_random_def eff_err_def eff_ret_def
      split: prod.splits sum.splits)

lemma ecp_randomize_jac_returns [returns]: "eff_returns (ecp_randomize_jac C f_rng l n) g"
proof (induction C f_rng l n g rule: ecp_randomize_jac.induct)
  case (1 C f_rng l n g)
  obtain r g' where m: "mpi_fill_random f_rng ((pbits C + 7) div 8) g = Some (r, g')"
    using mpi_fill_random_returns [of f_rng "(pbits C + 7) div 8" g] by (auto simp: eff_returns_def)
  show ?case
    using 1 [OF m refl refl] unfolding eff_returns_def ecp_randomize_jac.simps [of C f_rng l n g]
    by (auto simp: m Let_def eff_err_def eff_ret_def)
qed

lemma ecp_mul_returns [returns]: "eff_returns (ecp_mul C f_rng m P) g"
  unfolding ecp_mul_def by (auto intro!: returns split: option.splits)

lemma ecp_mul_result:
  "ecp_mul C f_rng m P g = Some (Inr R, g') \<Longrightarrow>
     R = comb C m P \<and> 1 \<le> m \<and> m < gN C \<and> ecp_check_pubkey C P = 0"
  by (auto simp: ecp_mul_def ecp_check_privkey_def ERR_ECP_INVALID_KEY_def eff_bind_Some_Inr
      split: if_splits option.splits)

lemma ecp_gen_keypair_returns [returns]: "eff_returns (ecp_gen_keypair C f_rng) g"
  unfolding ecp_gen_keypair_def by (auto intro!: returns)

lemma ecp_gen_keypair_result:
  assumes "ecp_gen_keypair C f_rng g = Some (Inr (k, R), g')"
  shows "1 \<le> k \<and> k < gN C \<and> R = comb C k (gG C)"
proof -
  obtain g1 where "ecp_mul C (Some f_rng) k (gG C) g1 = Some (Inr R, g')"
    using assms by (auto simp: ecp_gen_keypair_def eff_bind_Some_Inr)
  from ecp_mul_result [OF this] show ?thesis by simp
qed

lemma key_loop_returns [returns]: "eff_returns (key_loop C f_rng n) g"
proof (induction C f_rng n g rule: key_loop.induct)
  case (1 C f_rng n g)
  obtain m g' where m: "ecp_gen_keypair C f_rng g = Some (m, g')"
    using ecp_gen_keypair_returns [of C f_rng g] by (auto simp: eff_returns_def)
  show ?case
  proof (cases m)
    case (Inl e)
    then show ?thesis by (simp add: eff_returns_def key_loop.simps [of C] m eff_err_def)
  next
    case (Inr kR)
    then show ?thesis
      using 1 [of "(m, g')" m g' kR "fst kR" "snd kR"]
      unfolding eff_returns_def key_loop.simps [of C f_rng n g]
      by (cases kR) (auto simp: m Let_def eff_err_def eff_ret_def)
  qed
qed

lemma key_loop_result:
  "key_loop C f_rng n g = Some (Inr (k, r, v), g') \<Longrightarrow> 0 < gN C \<Longrightarrow>
     1 \<le> k \<and> k < gN C \<and> 1 \<le> r \<and> r < gN C \<and> r = ecp_X (comb C k (gG C)) mod gN C
     \<and> v = recovery_bits C (comb C k (gG C))"
proof (induction C f_rng n g rule: key_loop.induct)
  case (1 C f_rng n g)
  obtain k' R g1 where m: "ecp_gen_keypair C f_rng g = Some (Inr (k', R), g1)"
    using 1(2) by (auto simp: key_loop.simps [of C f_rng n g] split: option.splits sum.splits)
  note res = ecp_gen_keypair_result [OF m]
  show ?case
  proof (cases "ecp_X R mod gN C = 0")
    case True
    then have "\<not> n > 10" "key_loop C f_rng (n + 1) g1 = Some (Inr (k, r, v), g')"
      using 1(2) by (auto simp: key_loop.simps [of C f_rng n g] m split: if_splits)
    then show ?thesis using 1(1) [OF m refl refl refl refl refl _ True] 1(3) by auto
  next
    case False
    then have "k = k'" "r = ecp_X R mod gN C" "v = recovery_bits C R"
      using 1(2) by (auto simp: key_loop.simps [of C f_rng n g] m Let_def split: if_splits)
    moreover have "1 \<le> ecp_X R mod gN C"
      using False pos_mod_sign [OF 1(3), of "ecp_X R"] by linarith
    ultimately show ?thesis using res pos_mod_bound [OF 1(3)] by simp
  qed
qed

lemma blind_loop_returns [returns]: "eff_returns (blind_loop C f_rng n) g"
proof (induction C f_rng n g rule: blind_loop.induct)
  case (1 C f_rng n g)
  obtain r g' where m: "mpi_fill_random f_rng ((nbits C + 7) div 8) g = Some (r, g')"
    using mpi_fill_random_returns [of f_rng "(nbits C + 7) div 8" g] by (auto simp: eff_returns_def)
  show ?case
    using 1 [OF refl, of "(r, g')" r g'] unfolding eff_returns_def blind_loop.simps [of C f_rng n g]
    by (auto simp: m Let_def eff_err_def eff_ret_def split: sum.splits)
qed

lemma blind_loop_result: "blind_loop C f_rng n g = Some (Inr t, g') \<Longrightarrow> 1 \<le> t \<and> t < gN C"
proof (induction C f_rng n g rule: blind_loop.induct)
  case (1 C f_rng n g)
  obtain x g1 where m: "mpi_fill_random f_rng ((nbits C + 7) div 8) g = Some (Inr x, g1)"
    using 1(2) by (auto simp: blind_loop.simps [of C f_rng n g] Let_def split: option.splits sum.splits)
  show ?case
    using 1(2) 1(1) [OF refl m refl refl] unfolding blind_loop.simps [of C f_rng n g]
    by (auto simp: m Let_def split: if_splits)
qed

lemma sign_step_not_None: "1 < gN C \<Longrightarrow> sign_step C d e k r t \<noteq> None"
  using mpi_inv_mod_cases [of "gN C" "k * t"]
  by (auto simp: sign_step_def Let_def split: option.splits sum.splits)

lemma sign_step_result:
  assumes "sign_step C d e k r t = Some (Inr s)" and "1 < gN C"
  shows "0 \<le> s \<and> s < gN C \<and> (k * s) mod gN C = (e + r * d) mod gN C"
proof -
  obtain w where w: "mpi_inv_mod (k * t) (gN C) = Some (Inr w)"
      and s: "s = w * ((e + r * d) * t) mod gN C"
    using assms(1) by (auto simp: sign_step_def Let_def split: option.splits sum.splits)
  have i: "(k * t * w) mod gN C = 1"
    using mpi_inv_mod_cases [OF assms(2), of "k * t"] w by auto
  have "(k * s) mod gN C = (k * t * w * (e + r * d)) mod gN C"
    unfolding s by (simp add: mod_mult_right_eq mult.assoc mult.commute mult.left_commute)
  also have "\<dots> = (1 * (e + r * d)) mod gN C"
    using i by (metis mod_mult_left_eq)
  finally show ?thesis using s assms(2) by simp
qed

lemma sign_attempt_returns [returns]: "1 < gN C \<Longrightarrow> eff_returns (sign_attempt C f_rng d buf) g"
  unfolding sign_attempt_def
  by (auto intro!: returns sign_step_not_None split: prod.splits)

lemma sign_loop_returns [returns]: "1 < gN C \<Longrightarrow> eff_returns (sign_loop C f_rng d buf n) g"
proof (induction C f_rng d buf n g rule: sign_loop.induct)
  case (1 C f_rng d buf n g)
  obtain m g' where m: "sign_attempt C f_rng d buf g = Some (m, g')"
    using sign_attempt_returns [OF 1(2), of f_rng d buf g] by (auto simp: eff_returns_def)
  show ?case
  proof (cases m)
    case (Inl e)
    then show ?thesis by (simp add: eff_returns_def sign_loop.simps [of C] m eff_err_def)
  next
    case (Inr x)
    then obtain r s v where x: "x = (r, s, v)" by (cases x) auto
    show ?thesis
      using 1(1) [of "(m, g')" m g' x r "(s, v)" s v] 1(2) Inr x
      unfolding eff_returns_def sign_loop.simps [of C f_rng d buf n g]
      by (auto simp: m eff_err_def eff_ret_def)
  qed
qed

text \<open>What a successful signature knows of its ephemeral key \<open>k\<close>.\<close>

definition signed_with ::
  "ecp_curve \<Rightarrow> int \<Rightarrow> bytes \<Rightarrow> int \<Rightarrow> int \<Rightarrow> int \<Rightarrow> byte \<Rightarrow> bool" where
  "signed_with C d buf k r s v \<longleftrightarrow>
     1 \<le> k \<and> k < gN C \<and> 1 \<le> r \<and> r < gN C \<and> r = ecp_X (comb C k (gG C)) mod gN C
     \<and> v = recovery_bits C (comb C k (gG C))
     \<and> 1 \<le> s \<and> s < gN C \<and> (k * s) mod gN C = (derive_mpi C buf + r * d) mod gN C"

lemma sign_attempt_result:
  assumes "sign_attempt C f_rng d buf g = Some (Inr (r, s, v), g')" and "1 < gN C" and "s \<noteq> 0"
  shows "\<exists>k. signed_with C d buf k r s v"
proof -
  obtain k t g1 g2 where k: "key_loop C f_rng 0 g = Some (Inr (k, r, v), g1)"
      and s: "sign_step C d (derive_mpi C buf) k r t = Some (Inr s)"
    using assms(1) by (auto simp: sign_attempt_def eff_bind_Some_Inr)
  show ?thesis
    using key_loop_result [OF k] sign_step_result [OF s assms(2)] assms(2,3)
    by (auto simp: signed_with_def)
qed

lemma sign_loop_result:
  "sign_loop C f_rng d buf n g = Some (Inr (r, s, v), g') \<Longrightarrow> 1 < gN C \<Longrightarrow>
     \<exists>k. signed_with C d buf k r s v"
proof (induction C f_rng d buf n g rule: sign_loop.induct)
  case (1 C f_rng d buf n g)
  obtain r' s' v' g1 where m: "sign_attempt C f_rng d buf g = Some (Inr (r', s', v'), g1)"
    using 1(2) by (auto simp: sign_loop.simps [of C f_rng d buf n g] split: option.splits sum.splits)
  show ?case
  proof (cases "s' = 0")
    case True
    then have "\<not> n > 10" "sign_loop C f_rng d buf (n + 1) g1 = Some (Inr (r, s, v), g')"
      using 1(2) by (auto simp: sign_loop.simps [of C f_rng d buf n g] m split: if_splits)
    then show ?thesis using 1(1) [OF m refl refl refl refl _ True] 1(3) by auto
  next
    case False
    then have "r = r'" "s = s'" "v = v'"
      using 1(2) by (auto simp: sign_loop.simps [of C f_rng d buf n g] m split: if_splits)
    then show ?thesis using sign_attempt_result [OF m 1(3)] False by simp
  qed
qed

lemma sign_with_v_result:
  assumes "ecdsa_sign_with_v C f_rng d buf g = Some (Inr (r, s, v), g')" and "1 < gN C"
  shows "\<exists>k s0 v0. signed_with C d buf k r s0 v0
    \<and> (s, v) = (if s0 > gN C div 2 then (gN C - s0, (v0 XOR 1) + 27) else (s0, v0 + 27))"
proof -
  obtain s0 v0 where l: "sign_loop C f_rng d buf 0 g = Some (Inr (r, s0, v0), g')"
      and e: "(s, v) = (if \<bar>s0\<bar> > \<bar>gN C div 2\<bar> then (gN C - s0, (v0 XOR 1) + 27) else (s0, v0 + 27))"
    using assms(1) by (auto simp: ecdsa_sign_with_v_def Let_def eff_bind_Some_Inr split: if_splits)
  from sign_loop_result [OF l assms(2)] obtain k where k: "signed_with C d buf k r s0 v0" ..
  then have "\<bar>s0\<bar> = s0" "\<bar>gN C div 2\<bar> = gN C div 2" by (auto simp: signed_with_def)
  with k e show ?thesis by metis
qed

lemma recovery_bits_cases: "recovery_bits C R \<in> {0, 1, 2, 3}"
  by (auto simp: recovery_bits_def Let_def)

section \<open>The laws used of the two arithmetic routines\<close>

text \<open>
  \<open>mult a\<close> is the \<open>a\<close>-fold of the generator: the order is an odd prime, multiples of the
  generator other than zero are valid public keys, \<open>comb\<close> multiplies, \<open>padd\<close> adds, and
  opposite points share their first coordinate.
\<close>

definition curve_laws :: "ecp_curve \<Rightarrow> (int \<Rightarrow> ecp_point) \<Rightarrow> bool" where
  "curve_laws C mult \<longleftrightarrow>
     1 < gN C \<and> odd (gN C) \<and> mult 1 = gG C
     \<and> (\<forall>a \<in> {1..<gN C}. gcd a (gN C) = 1)
     \<and> (\<forall>a \<in> {1..<gN C}. ecp_check_pubkey C (mult a) = 0)
     \<and> (\<forall>a \<in> {1..<gN C}. \<forall>b \<in> {1..<gN C}. comb C a (mult b) = mult (a * b mod gN C))
     \<and> (\<forall>a \<in> {0..<gN C}. \<forall>b \<in> {0..<gN C}. padd C (mult a) (mult b) = mult ((a + b) mod gN C))
     \<and> (\<forall>a \<in> {1..<gN C}. ecp_X (mult (gN C - a)) = ecp_X (mult a))"

lemma check_pubkey_not_Zero: "ecp_check_pubkey C P = 0 \<Longrightarrow> P \<noteq> Zero"
  by (auto simp: ERR_ECP_INVALID_KEY_def)

lemma mul_shortcuts_mult:
  assumes laws: "curve_laws C mult" and m: "1 \<le> m" "m < gN C" and a: "1 \<le> a" "a < gN C"
  shows "ecp_mul_shortcuts C m (mult a) g = Some (Inr (mult (m * a mod gN C)), g)"
proof (cases "m = 1")
  case True
  then show ?thesis using a by (simp add: ecp_mul_shortcuts_def eff_ret_def)
next
  case False
  have v: "ecp_check_pubkey C (mult a) = 0" and c: "comb C m (mult a) = mult (m * a mod gN C)"
    and o: "odd (gN C)"
    using laws m a by (auto simp: curve_laws_def)
  show ?thesis
    using False m v c o check_pubkey_not_Zero [OF v]
    by (simp add: ecp_mul_shortcuts_def ecp_mul_def ecp_check_privkey_def eff_ret_def)
qed

lemma mod_mult_nonzero:
  fixes N :: int
  assumes "(w * s) mod N = 1" and "(a * w) mod N = 0"
  shows "a mod N = 0"
proof -
  have "a mod N = (a * ((w * s) mod N)) mod N" using assms(1) by simp
  also have "\<dots> = (((a * w) mod N) * s) mod N"
    by (simp add: mod_mult_right_eq mod_mult_left_eq mult.assoc)
  finally show ?thesis using assms(2) by simp
qed

text \<open>The combination the verifier computes is the ephemeral key or its opposite.\<close>

lemma response_mod:
  fixes N :: int
  assumes "1 < N" and "1 \<le> k" "k < N" and ws: "(w * s) mod N = 1"
    and ks: "(k * s0) mod N = (e + r * d) mod N" and s: "s = s0 \<or> s = N - s0"
  shows "(e * w mod N + (r * w mod N) * d mod N) mod N \<in> {k, N - k}"
proof -
  have "(e * w mod N + (r * w mod N) * d mod N) mod N = (w * (e + r * d)) mod N"
    by (simp add: mod_simps algebra_simps)
  also have "\<dots> = (w * (k * s0)) mod N" using ks by (metis mod_mult_right_eq)
  finally have x: "(e * w mod N + (r * w mod N) * d mod N) mod N = (w * (k * s0)) mod N" .
  have kws: "(k * (w * s)) mod N = k"
    using ws assms(1-3) mod_mult_right_eq [of k "w * s" N] by simp
  from s show ?thesis
  proof
    assume "s = s0"
    then have "w * (k * s0) = k * (w * s)" by simp
    then show ?thesis unfolding x using kws by (simp only: insert_iff simp_thms)
  next
    assume "s = N - s0"
    then have s0: "s0 = N - s" by simp
    have "w * (k * s0) = - (k * (w * s)) + N * (w * k)"
      unfolding s0 by (simp add: algebra_simps)
    then have "(w * (k * s0)) mod N = (- (k * (w * s))) mod N" by (simp only: mod_mult_self2)
    also have "\<dots> = N - k" using kws assms(2,3) by (simp add: zmod_zminus1_eq_if)
    finally show ?thesis unfolding x by (simp only: insert_iff simp_thms)
  qed
qed

section \<open>Properties\<close>

text \<open>A curve small enough to compute with: the equation of secp256k1 modulo 13, of prime order 7.\<close>

fun tiny_point :: "nat \<Rightarrow> ecp_point" where
  "tiny_point 0 = Zero"
| "tiny_point (Suc 0) = Affine 7 5"
| "tiny_point (Suc (Suc 0)) = Affine 8 5"
| "tiny_point (Suc (Suc (Suc 0))) = Affine 11 8"
| "tiny_point (Suc (Suc (Suc (Suc 0)))) = Affine 11 5"
| "tiny_point (Suc (Suc (Suc (Suc (Suc 0))))) = Affine 8 8"
| "tiny_point (Suc (Suc (Suc (Suc (Suc (Suc n)))))) = Affine 7 8"

fun tiny_log :: "ecp_point \<Rightarrow> int" where
  "tiny_log Zero = 0"
| "tiny_log (Affine x y) =
     (if x = 7 then (if y = 5 then 1 else 6)
      else if x = 8 then (if y = 5 then 2 else 5)
      else (if y = 8 then 3 else 4))"

definition tiny_mult :: "int \<Rightarrow> ecp_point" where
  "tiny_mult a = tiny_point (nat (a mod 7))"

definition tiny_comb :: "int \<Rightarrow> ecp_point \<Rightarrow> ecp_point" where
  "tiny_comb m P = tiny_mult (m * tiny_log P)"

definition tiny_add :: "ecp_point \<Rightarrow> ecp_point \<Rightarrow> ecp_point" where
  "tiny_add P Q = tiny_mult (tiny_log P + tiny_log Q)"

definition tiny_curve :: ecp_curve where
  "tiny_curve =
     \<lparr>gP = 13, gA = Some 0, gB = 7, gG = Affine 7 5, gN = 7, pbits = 4, nbits = 3,
      comb = tiny_comb, padd = tiny_add\<rparr>"

definition tiny_rng :: "nat rng" where
  "tiny_rng g n = (Inr (replicate n (word_of_nat (64 + 32 * (g mod 4)))), g + 1)"

lemma interval_7: "{1..<7 :: int} = set [1, 2, 3, 4, 5, 6]" "{0..<7 :: int} = set [0, 1, 2, 3, 4, 5, 6]"
  by (auto simp: atLeastLessThan_iff)

lemma tiny_mult_simps:
  "tiny_mult 0 = Zero" "tiny_mult 1 = Affine 7 5" "tiny_mult 2 = Affine 8 5"
  "tiny_mult 3 = Affine 11 8" "tiny_mult 4 = Affine 11 5" "tiny_mult 5 = Affine 8 8"
  "tiny_mult 6 = Affine 7 8"
  by (simp_all add: tiny_mult_def eval_nat_numeral)

lemma tiny_mult_mod: "tiny_mult (a mod 7) = tiny_mult a"
  by (simp add: tiny_mult_def)

lemma tiny_log_mult: "tiny_log (tiny_mult a) = a mod 7"
proof -
  have "a mod 7 \<in> set [0, 1, 2, 3, 4, 5, 6]"
    unfolding interval_7 [symmetric] by simp
  moreover have "\<forall>b \<in> set [0, 1, 2, 3, 4, 5, 6]. tiny_log (tiny_mult b) = b"
    by (simp add: tiny_mult_simps)
  ultimately show ?thesis using tiny_mult_mod [of a] by metis
qed

lemma tiny_laws: "curve_laws tiny_curve tiny_mult"
proof -
  have n: "gN tiny_curve = 7" "comb tiny_curve = tiny_comb" "padd tiny_curve = tiny_add"
    by (simp_all add: tiny_curve_def)
  have pub: "\<forall>a \<in> set [1, 2, 3, 4, 5, 6]. ecp_check_pubkey tiny_curve (tiny_mult a) = 0"
    by (simp add: tiny_mult_simps tiny_curve_def ecp_check_pubkey_sw_def)
  have g: "\<forall>a \<in> set [1, 2, 3, 4, 5, 6 :: int]. gcd a 7 = 1" by code_simp
  have m: "tiny_comb a (tiny_mult b) = tiny_mult (a * b mod 7)" for a b
    using tiny_mult_mod [of "a * b"] tiny_mult_mod [of "a * (b mod 7)"]
    by (simp add: tiny_comb_def tiny_log_mult mod_mult_right_eq)
  have a: "tiny_add (tiny_mult a) (tiny_mult b) = tiny_mult ((a + b) mod 7)" for a b
    using tiny_mult_mod [of "a + b"] tiny_mult_mod [of "a mod 7 + b mod 7"]
    by (simp add: tiny_add_def tiny_log_mult mod_add_eq)
  have x: "\<forall>a \<in> set [1, 2, 3, 4, 5, 6 :: int]. ecp_X (tiny_mult (7 - a)) = ecp_X (tiny_mult a)"
    by (simp add: tiny_mult_simps)
  have o: "tiny_mult 1 = gG tiny_curve" by (simp add: tiny_mult_simps tiny_curve_def)
  show ?thesis
    unfolding curve_laws_def n interval_7
    by (intro conjI ballI o m a) (use g pub x in \<open>(blast | simp)+\<close>)
qed

lemma sign_with_v_bounds:
  assumes "ecdsa_sign_with_v C f_rng d buf g = Some (Inr (r, s, v), g')" and "1 < gN C"
  shows "1 \<le> r \<and> r < gN C \<and> 1 \<le> s \<and> s \<le> gN C div 2 \<and> v \<in> {27, 28, 29, 30}"
proof -
  from sign_with_v_result [OF assms] obtain k s0 v0
    where k: "signed_with C d buf k r s0 v0"
      and e: "(s, v) = (if s0 > gN C div 2 then (gN C - s0, (v0 XOR 1) + 27) else (s0, v0 + 27))"
    by blast
  have "v0 \<in> {0, 1, 2, 3}" using k recovery_bits_cases by (auto simp: signed_with_def)
  then have "v \<in> {27, 28, 29, 30}" using e by (auto split: if_splits)
  moreover have "1 \<le> r" "r < gN C" using k by (auto simp: signed_with_def)
  moreover have "1 \<le> s" "s \<le> gN C div 2" using k e by (auto simp: signed_with_def split: if_splits)
  ultimately show ?thesis by simp
qed

lemma sign_with_v_returns [returns]: "1 < gN C \<Longrightarrow> eff_returns (ecdsa_sign_with_v C f_rng d buf) g"
  unfolding ecdsa_sign_with_v_def Let_def
  by (auto intro!: returns split: prod.splits)

text \<open>C19: A signature that \<open>mbedtls_ecdsa_sign_with_v\<close> returns is canonical for Ethereum: \<open>r\<close> lies
  between 1 and the order, \<open>s\<close> between 1 and half the order, and \<open>v\<close> is one of 27 to 30; and
  whatever the random generator does, the routine returns after finitely many tries.\<close>

theorem sign_with_v_ranges:
  assumes "1 < gN C"
  shows "eff_returns (ecdsa_sign_with_v C f_rng d buf) g
    \<and> (\<forall>r s v g'. ecdsa_sign_with_v C f_rng d buf g = Some (Inr (r, s, v), g') \<longrightarrow>
         1 \<le> r \<and> r < gN C \<and> 1 \<le> s \<and> s \<le> gN C div 2 \<and> v \<in> {27, 28, 29, 30})"
proof (intro conjI allI impI)
  show "eff_returns (ecdsa_sign_with_v C f_rng d buf) g"
    by (rule sign_with_v_returns [OF assms])
qed (auto dest: sign_with_v_bounds [OF _ assms])

theorem sign_with_v_ranges_witness:
  "1 < gN tiny_curve
   \<and> ecdsa_sign_with_v tiny_curve tiny_rng 3 [0xA0] 0 = Some (Inr (1, 3, 29), 3)
   \<and> (3 :: int) \<le> gN tiny_curve div 2"
proof -
  have n: "1 < gN tiny_curve" by (simp add: tiny_curve_def)
  have e: "ecdsa_sign_with_v tiny_curve tiny_rng 3 [0xA0] 0 = Some (Inr (1, 3, 29), 3)"
    by code_simp
  show ?thesis
    using sign_with_v_ranges [OF n, where f_rng = tiny_rng and d = 3 and buf = "[0xA0]" and g = 0] e n
    by blast
qed

lemma sign_then_verify:
  assumes laws: "curve_laws C mult" and d: "1 \<le> d" "d < gN C"
    and hash: "derive_mpi C buf mod gN C \<noteq> 0"
    and sign: "ecdsa_sign_with_v C f_rng d buf g = Some (Inr (r, s, v), g')"
  shows "ecdsa_verify C buf (mult d) r s h = Some (Inr (), h)"
proof -
  let ?N = "gN C" and ?e = "derive_mpi C buf"
  have N: "1 < ?N" and inv: "\<And>a. 1 \<le> a \<Longrightarrow> a < ?N \<Longrightarrow> gcd a ?N = 1"
    and pub: "\<And>a. 1 \<le> a \<Longrightarrow> a < ?N \<Longrightarrow> ecp_check_pubkey C (mult a) = 0"
    and cm: "\<And>a b. 1 \<le> a \<Longrightarrow> a < ?N \<Longrightarrow> 1 \<le> b \<Longrightarrow> b < ?N \<Longrightarrow>
        comb C a (mult b) = mult (a * b mod ?N)"
    and ad: "\<And>a b. 0 \<le> a \<Longrightarrow> a < ?N \<Longrightarrow> 0 \<le> b \<Longrightarrow> b < ?N \<Longrightarrow>
        padd C (mult a) (mult b) = mult ((a + b) mod ?N)"
    and op: "\<And>a. 1 \<le> a \<Longrightarrow> a < ?N \<Longrightarrow> ecp_X (mult (?N - a)) = ecp_X (mult a)"
    and gen: "mult 1 = gG C"
    using laws by (auto simp: curve_laws_def)
  obtain k s0 v0 where k: "signed_with C d buf k r s0 v0"
      and sv: "(s, v) = (if s0 > ?N div 2 then (?N - s0, (v0 XOR 1) + 27) else (s0, v0 + 27))"
    using sign_with_v_result [OF sign N] by blast
  have kr: "1 \<le> k" "k < ?N" "1 \<le> r" "r < ?N" "1 \<le> s0" "s0 < ?N"
    and rk: "r = ecp_X (mult k) mod ?N" and ks: "(k * s0) mod ?N = (?e + r * d) mod ?N"
    using k cm [of k 1] gen N by (auto simp: signed_with_def)
  have s: "1 \<le> s" "s < ?N" using kr sv by (auto split: if_splits)
  obtain w where w: "mpi_inv_mod s ?N = Some (Inr w)" "(s * w) mod ?N = 1"
    using mpi_inv_mod_cases [OF N, of s] inv [OF s] by auto
  have N0: "0 < ?N" using N by simp
  have ws: "(w * s) mod ?N = 1" using w(2) by (simp add: mult.commute)
  define u1 where "u1 = ?e * w mod ?N"
  define u2 where "u2 = r * w mod ?N"
  have "u1 \<noteq> 0" using mod_mult_nonzero [OF ws] hash by (auto simp: u1_def)
  moreover have "u2 \<noteq> 0" using mod_mult_nonzero [OF ws, of r] kr(3,4) by (auto simp: u2_def)
  ultimately have u: "1 \<le> u1" "u1 < ?N" "1 \<le> u2" "u2 < ?N"
    using pos_mod_sign [OF N0, of "?e * w"] pos_mod_sign [OF N0, of "r * w"]
      pos_mod_bound [OF N0, of "?e * w"] pos_mod_bound [OF N0, of "r * w"]
    unfolding u1_def u2_def by linarith+
  define x where "x = (u1 + u2 * d mod ?N) mod ?N"
  have "ecp_muladd C u1 (gG C) u2 (mult d) h = Some (Inr (mult x), h)"
    using mul_shortcuts_mult [OF laws u(1,2), of 1 h] mul_shortcuts_mult [OF laws u(3,4) d, of h]
      ad [of u1 "u2 * d mod ?N"] u N gen
    by (simp add: ecp_muladd_def eff_bind_def eff_ret_def x_def)
  moreover have xk: "x = k \<or> x = ?N - k"
  proof -
    have "s = s0 \<or> s = ?N - s0" using sv by (auto split: if_splits)
    from response_mod [OF N kr(1,2) ws ks this] show ?thesis by (simp add: x_def u1_def u2_def)
  qed
  moreover have "ecp_X (mult x) mod ?N = r" using xk op [of k] rk kr(1,2) by auto
  moreover have "\<not> ecp_is_zero (mult x)"
    using check_pubkey_not_Zero [OF pub [of x]] xk kr(1,2) by (auto simp: ecp_is_zero_def)
  ultimately show ?thesis
    using kr s w(1) pub [OF d]
    by (simp add: ecdsa_verify_def eff_bind_def eff_lift_def eff_ret_def Let_def u1_def u2_def)
qed

text \<open>C18: On a curve whose arithmetic obeys the group laws, a signature made with the private key \<open>d\<close>
  passes \<open>mbedtls_ecdsa_verify\<close> under the public key of \<open>d\<close>, also when \<open>s\<close> was replaced by its
  opposite, provided the hash is not a multiple of the order (for which the library
  refuses to multiply by zero).\<close>

theorem signature_verifies:
  assumes laws: "curve_laws C mult" and d: "1 \<le> d" "d < gN C"
    and hash: "derive_mpi C buf mod gN C \<noteq> 0"
    and sign: "ecdsa_sign_with_v C f_rng d buf g = Some (Inr (r, s, v), g')"
  shows "ecdsa_verify C buf (mult d) r s h = Some (Inr (), h)"
  using assms by (rule sign_then_verify)

theorem signature_verifies_witness:
  "curve_laws tiny_curve tiny_mult \<and> (1 :: int) \<le> 3 \<and> 3 < gN tiny_curve
   \<and> derive_mpi tiny_curve [0xA0] mod gN tiny_curve \<noteq> 0
   \<and> ecdsa_verify tiny_curve [0xA0] (tiny_mult 3) 1 3 (0 :: nat) = Some (Inr (), 0)"
proof -
  have n: "3 < gN tiny_curve" by (simp add: tiny_curve_def)
  have h: "derive_mpi tiny_curve [0xA0] mod gN tiny_curve \<noteq> 0" by code_simp
  have e: "ecdsa_sign_with_v tiny_curve tiny_rng 3 [0xA0] 0 = Some (Inr (1, 3, 29), 3)"
    by code_simp
  show ?thesis
    using signature_verifies [OF tiny_laws _ n h e] tiny_laws n h by simp
qed

text \<open>The constants of secp256k1 that the enclave loads are consistent: the generator satisfies the
  curve equation, the sizes in bits are those of the prime and the order, both odd, and a
  point is exchanged as 65 bytes.\<close>

theorem secp256k1_constants:
  "ecp_check_pubkey (secp256k1 mul add) (gG (secp256k1 mul add)) = 0
   \<and> 2 ^ (nbits (secp256k1 mul add) - 1) \<le> gN (secp256k1 mul add)
   \<and> gN (secp256k1 mul add) < 2 ^ nbits (secp256k1 mul add)
   \<and> 2 ^ (pbits (secp256k1 mul add) - 1) \<le> gP (secp256k1 mul add)
   \<and> gP (secp256k1 mul add) < 2 ^ pbits (secp256k1 mul add)
   \<and> odd (gN (secp256k1 mul add)) \<and> odd (gP (secp256k1 mul add))
   \<and> 2 * mpi_size (gP (secp256k1 mul add)) + 1 = 65"
proof -
  have "mpi_size (gP (secp256k1 mul add)) \<le> 32" "\<not> mpi_size (gP (secp256k1 mul add)) \<le> 31"
    unfolding mpi_size_le_iff by (simp_all add: secp256k1_def)
  then show ?thesis
    by (simp add: secp256k1_def ecp_check_pubkey_sw_def)
qed

end
