(* ===== verification/Keccak.thy ===== *)
theory Keccak
  imports Encoding
begin

text \<open>
  The Keccak hash of \<open>src/Enclave/external/keccak.c\<close>: the permutation \<open>keccakf\<close> as the
  in-place loops of the code, and the absorbing loop with its padding.  The permutation is
  proved equal to the round function of the Keccak specification on coordinates, and the
  hash to the sponge over the padded blocks.
\<close>

section \<open>Model\<close>

type_synonym kstate = "u64 list"

definition keccakf_rndc :: "u64 list" where
  "keccakf_rndc =
    [0x0000000000000001, 0x0000000000008082, 0x800000000000808a,
     0x8000000080008000, 0x000000000000808b, 0x0000000080000001,
     0x8000000080008081, 0x8000000000008009, 0x000000000000008a,
     0x0000000000000088, 0x0000000080008009, 0x000000008000000a,
     0x000000008000808b, 0x800000000000008b, 0x8000000000008089,
     0x8000000000008003, 0x8000000000008002, 0x8000000000000080,
     0x000000000000800a, 0x800000008000000a, 0x8000000080008081,
     0x8000000000008080, 0x0000000080000001, 0x8000000080008008]"

definition keccakf_rotc :: "nat list" where
  "keccakf_rotc =
    [1,  3,  6,  10, 15, 21, 28, 36, 45, 55, 2,  14,
     27, 41, 56, 8,  25, 43, 62, 18, 39, 61, 20, 44]"

definition keccakf_piln :: "nat list" where
  "keccakf_piln =
    [10, 7,  11, 17, 18, 3, 5,  16, 8,  21, 24, 4,
     15, 23, 19, 13, 12, 2, 20, 14, 22, 9,  6,  1]"

definition ROTL64 :: "u64 \<Rightarrow> nat \<Rightarrow> u64" where
  "ROTL64 x y = (push_bit y x) OR (drop_bit (64 - y) x)"

text \<open>Theta: the column parities, then every lane of column \<open>i\<close>.\<close>

definition theta_bc :: "kstate \<Rightarrow> u64 list" where
  "theta_bc st = map (\<lambda>i. st ! i XOR st ! (i + 5) XOR st ! (i + 10) XOR st ! (i + 15) XOR st ! (i + 20)) [0..<5]"

definition theta_column :: "u64 list \<Rightarrow> kstate \<Rightarrow> nat \<Rightarrow> kstate" where
  "theta_column bc st i =
     (let t = bc ! ((i + 4) mod 5) XOR ROTL64 (bc ! ((i + 1) mod 5)) 1
      in foldl (\<lambda>st j. st[j + i := st ! (j + i) XOR t]) st [0, 5, 10, 15, 20])"

definition theta :: "kstate \<Rightarrow> kstate" where
  "theta st = foldl (theta_column (theta_bc st)) st [0..<5]"

text \<open>Rho and Pi together: one lane is carried in \<open>t\<close> along the cycle \<open>keccakf_piln\<close>.\<close>

definition rho_pi_step :: "kstate \<times> u64 \<Rightarrow> nat \<Rightarrow> kstate \<times> u64" where
  "rho_pi_step s i =
     (case s of (st, t) \<Rightarrow>
        let j = keccakf_piln ! i; bc0 = st ! j
        in (st[j := ROTL64 t (keccakf_rotc ! i)], bc0))"

definition rho_pi :: "kstate \<Rightarrow> kstate" where
  "rho_pi st = fst (foldl rho_pi_step (st, st ! 1) [0..<24])"

text \<open>Chi: row by row, from a copy of the row.\<close>

definition chi_row :: "kstate \<Rightarrow> nat \<Rightarrow> kstate" where
  "chi_row st j =
     (let bc = map (\<lambda>i. st ! (j + i)) [0..<5]
      in foldl (\<lambda>st i. st[j + i := st ! (j + i) XOR ((NOT (bc ! ((i + 1) mod 5))) AND bc ! ((i + 2) mod 5))])
           st [0..<5])"

definition chi :: "kstate \<Rightarrow> kstate" where
  "chi st = foldl chi_row st [0, 5, 10, 15, 20]"

definition iota :: "nat \<Rightarrow> kstate \<Rightarrow> kstate" where
  "iota r st = st[0 := st ! 0 XOR keccakf_rndc ! r]"

definition keccakf :: "kstate \<Rightarrow> nat \<Rightarrow> kstate" where
  "keccakf st rounds = foldl (\<lambda>st r. iota r (chi (rho_pi (theta st)))) st [0..<rounds]"

definition KECCAK_ROUNDS :: nat where
  "KECCAK_ROUNDS = 24"

text \<open>\<open>st[i] ^= ((uint64_t *) in)[i]\<close> for \<open>i < rsizw\<close>, on a little-endian machine.\<close>

definition xor_block :: "nat \<Rightarrow> bytes \<Rightarrow> kstate \<Rightarrow> kstate" where
  "xor_block rsizw inp st =
     foldl (\<lambda>st i. st[i := st ! i XOR le_word (take 8 (drop (8 * i) inp))]) st [0..<rsizw]"

text \<open>
  The absorbing loop, the last block, and the copy of the digest.  \<open>rsiz = 200 - 2 * mdlen\<close>
  must be positive and fit the 144-byte buffer \<open>temp\<close>; otherwise the code divides the
  input by a non-positive rate or writes past \<open>temp\<close>.
\<close>

function absorb :: "nat \<Rightarrow> bytes \<Rightarrow> kstate \<Rightarrow> kstate \<times> bytes" where
  "absorb rsiz inp st =
     (if 0 < rsiz \<and> length inp \<ge> rsiz
      then absorb rsiz (drop rsiz inp) (keccakf (xor_block (rsiz div 8) inp st) KECCAK_ROUNDS)
      else (st, inp))"
  by pat_completeness auto
termination
  by (relation "measure (\<lambda>(rsiz, inp, st). length inp)") auto

declare absorb.simps [simp del]

definition last_block :: "nat \<Rightarrow> bytes \<Rightarrow> bytes" where
  "last_block rsiz inp =
     (let temp = inp @ [1] @ replicate (rsiz - (length inp + 1)) 0
      in temp[rsiz - 1 := temp ! (rsiz - 1) OR 0x80])"

definition keccak :: "bytes \<Rightarrow> nat \<Rightarrow> (int \<times> bytes) res" where
  "keccak inp mdlen =
     (if 200 \<le> 2 * mdlen \<or> 144 < 200 - 2 * mdlen then Inl UB
      else
        let rsiz = 200 - 2 * mdlen;
            (st, rest) = absorb rsiz inp (replicate 25 0);
            st' = keccakf (xor_block (rsiz div 8) (last_block rsiz rest) st) KECCAK_ROUNDS
        in Inr (0, take mdlen (concat (map le_bytes st'))))"

section \<open>The specification on coordinates\<close>

text \<open>
  The step mappings of the Keccak specification: lane \<open>A[x, y]\<close> is \<open>A ! (x + 5 * y)\<close>.
  The rotation offsets are computed by the walk \<open>(x, y) := (y, 2x + 3y)\<close> from \<open>(1, 0)\<close>,
  the \<open>t\<close>-th lane visited having offset \<open>(t + 1)(t + 2) / 2\<close>.
\<close>

definition lane :: "kstate \<Rightarrow> nat \<Rightarrow> nat \<Rightarrow> u64" where
  "lane A x y = A ! (x mod 5 + 5 * (y mod 5))"

definition by_coords :: "(nat \<Rightarrow> nat \<Rightarrow> u64) \<Rightarrow> kstate" where
  "by_coords f = map (\<lambda>i. f (i mod 5) (i div 5)) [0..<25]"

definition spec_parity :: "kstate \<Rightarrow> nat \<Rightarrow> u64" where
  "spec_parity A x = lane A x 0 XOR lane A x 1 XOR lane A x 2 XOR lane A x 3 XOR lane A x 4"

definition spec_theta :: "kstate \<Rightarrow> kstate" where
  "spec_theta A = by_coords (\<lambda>x y. lane A x y
     XOR (spec_parity A (x + 4) XOR word_rotl 1 (spec_parity A (x + 1))))"

fun rho_walk :: "nat \<Rightarrow> nat \<Rightarrow> nat \<Rightarrow> nat \<Rightarrow> ((nat \<times> nat) \<times> nat) list" where
  "rho_walk 0 t x y = []"
| "rho_walk (Suc n) t x y =
     ((x, y), (t + 1) * (t + 2) div 2 mod 64) # rho_walk n (t + 1) y ((2 * x + 3 * y) mod 5)"

definition rho_offset :: "nat \<Rightarrow> nat \<Rightarrow> nat" where
  "rho_offset x y = (case map_of (rho_walk 24 0 1 0) (x, y) of None \<Rightarrow> 0 | Some r \<Rightarrow> r)"

definition spec_rho :: "kstate \<Rightarrow> kstate" where
  "spec_rho A = by_coords (\<lambda>x y. word_rotl (rho_offset x y) (lane A x y))"

definition spec_pi :: "kstate \<Rightarrow> kstate" where
  "spec_pi A = by_coords (\<lambda>x y. lane A (x + 3 * y) x)"

definition spec_chi :: "kstate \<Rightarrow> kstate" where
  "spec_chi A = by_coords (\<lambda>x y. lane A x y XOR ((NOT (lane A (x + 1) y)) AND lane A (x + 2) y))"

definition spec_iota :: "nat \<Rightarrow> kstate \<Rightarrow> kstate" where
  "spec_iota r A = by_coords (\<lambda>x y. if x = 0 \<and> y = 0 then lane A x y XOR keccakf_rndc ! r else lane A x y)"

definition spec_round :: "nat \<Rightarrow> kstate \<Rightarrow> kstate" where
  "spec_round r A = spec_iota r (spec_chi (spec_pi (spec_rho (spec_theta A))))"

section \<open>The permutation meets the specification\<close>

lemma ROTL64_word_rotl:
  assumes "0 < n" and "n < 64"
  shows "ROTL64 x n = word_rotl n x"
proof (rule bit_word_eqI)
  fix i assume "i < LENGTH(64)"
  then have i: "i < 64" by simp
  show "bit (ROTL64 x n) i \<longleftrightarrow> bit (word_rotl n x) i"
  proof (cases "n \<le> i")
    case True
    then have "(i + (64 - n)) mod 64 = i - n"
      using assms i by (simp add: mod_if)
    moreover have "\<not> bit x (64 - n + i)"
      using True bit_imp_le_length [of x "64 - n + i"] by auto
    ultimately show ?thesis
      using True assms i by (auto simp: ROTL64_def bit_simps bit_word_rotl_iff)
  next
    case False
    then have "i + (64 - n) < 64" and "i + (64 - n) = 64 - n + i" using assms by arith+
    then have "(i + (64 - n)) mod 64 = 64 - n + i"
      by (simp only: mod_less)
    then show ?thesis
      using False assms i by (auto simp: ROTL64_def bit_simps bit_word_rotl_iff dest: bit_imp_le_length)
  qed
qed

lemma length_by_coords [simp]: "length (by_coords f) = 25"
  by (simp add: by_coords_def)

lemma length_theta_column [simp]: "length (theta_column bc st i) = length st"
  by (simp add: theta_column_def Let_def)

lemma length_theta [simp]: "length (theta st) = length st"
  by (simp add: theta_def upt_rec)

lemma length_chi_row [simp]: "length (chi_row st j) = length st"
  by (simp add: chi_row_def upt_rec)

lemma length_chi [simp]: "length (chi st) = length st"
  by (simp add: chi_def)

lemma length_iota [simp]: "length (iota r st) = length st"
  by (simp add: iota_def)

lemma list_25:
  assumes "length st = 25"
  obtains a0 a1 a2 a3 a4 a5 a6 a7 a8 a9 a10 a11 a12 a13 a14 a15 a16 a17 a18 a19 a20 a21 a22 a23 a24
  where "st = [a0, a1, a2, a3, a4, a5, a6, a7, a8, a9, a10, a11, a12, a13, a14, a15, a16, a17,
               a18, a19, a20, a21, a22, a23, a24]"
  using assms by (auto simp: numeral_eq_Suc length_Suc_conv)

lemma theta_spec: "length st = 25 \<Longrightarrow> theta st = spec_theta st"
  by (erule list_25)
     (simp add: theta_def theta_column_def theta_bc_def Let_def upt_rec ROTL64_word_rotl
        spec_theta_def by_coords_def lane_def spec_parity_def)

lemma upt_24: "[0..<24] = [0, 1, 2, 3, 4, 5, 6, 7, 8, 9, 10, 11, 12, 13, 14, 15, 16, 17, 18, 19, 20, 21, 22, 23]"
  by (simp add: upt_rec)

lemma upt_25: "[0..<25] = [0, 1, 2, 3, 4, 5, 6, 7, 8, 9, 10, 11, 12, 13, 14, 15, 16, 17, 18, 19, 20, 21, 22, 23, 24]"
  by (simp add: upt_rec)

lemma rho_offsets:
  "map (\<lambda>i. rho_offset (i mod 5) (i div 5)) [0..<25]
     = [0, 1, 62, 28, 27, 36, 44, 6, 55, 20, 3, 10, 43, 25, 39, 41, 45, 15, 21, 8, 18, 2, 61, 56, 14]"
  by code_simp

lemma rho_pi_lanes:
  "rho_pi [a0, a1, a2, a3, a4, a5, a6, a7, a8, a9, a10, a11, a12, a13, a14, a15, a16, a17, a18, a19, a20, a21, a22, a23, a24]
   = [a0, word_rotl 44 a6, word_rotl 43 a12, word_rotl 21 a18, word_rotl 14 a24, word_rotl 28 a3, word_rotl 20 a9, word_rotl 3 a10, word_rotl 45 a16, word_rotl 61 a22, word_rotl 1 a1, word_rotl 6 a7, word_rotl 25 a13, word_rotl 8 a19, word_rotl 18 a20, word_rotl 27 a4, word_rotl 36 a5, word_rotl 10 a11, word_rotl 15 a17, word_rotl 56 a23, word_rotl 62 a2, word_rotl 55 a8, word_rotl 39 a14, word_rotl 41 a15, word_rotl 2 a21]"
  by (simp add: rho_pi_def rho_pi_step_def upt_24 keccakf_piln_def keccakf_rotc_def ROTL64_word_rotl)

lemma spec_rho_offsets:
  "length A = 25 \<Longrightarrow> spec_rho A = map2 word_rotl [0, 1, 62, 28, 27, 36, 44, 6, 55, 20, 3, 10, 43, 25, 39, 41, 45, 15, 21, 8, 18, 2, 61, 56, 14] A"
  unfolding rho_offsets [symmetric] spec_rho_def by_coords_def
  by (rule nth_equalityI) (simp_all add: lane_def)

lemma word_rotl_zero: "word_rotl 0 x = (x :: u64)"
  by (rule bit_word_eqI) (simp add: bit_word_rotl_iff)

lemma spec_rho_pi_lanes:
  "spec_pi (spec_rho [a0, a1, a2, a3, a4, a5, a6, a7, a8, a9, a10, a11, a12, a13, a14, a15, a16, a17, a18, a19, a20, a21, a22, a23, a24])
   = [a0, word_rotl 44 a6, word_rotl 43 a12, word_rotl 21 a18, word_rotl 14 a24, word_rotl 28 a3, word_rotl 20 a9, word_rotl 3 a10, word_rotl 45 a16, word_rotl 61 a22, word_rotl 1 a1, word_rotl 6 a7, word_rotl 25 a13, word_rotl 8 a19, word_rotl 18 a20, word_rotl 27 a4, word_rotl 36 a5, word_rotl 10 a11, word_rotl 15 a17, word_rotl 56 a23, word_rotl 62 a2, word_rotl 55 a8, word_rotl 39 a14, word_rotl 41 a15, word_rotl 2 a21]"
  by (simp add: spec_rho_offsets spec_pi_def by_coords_def lane_def upt_25 word_rotl_zero)

lemma rho_pi_spec: "length st = 25 \<Longrightarrow> rho_pi st = spec_pi (spec_rho st)"
  by (erule list_25) (simp only: rho_pi_lanes spec_rho_pi_lanes)

lemma chi_spec: "length st = 25 \<Longrightarrow> chi st = spec_chi st"
  by (erule list_25)
     (simp add: chi_def chi_row_def Let_def upt_rec spec_chi_def by_coords_def lane_def)

lemma iota_spec: "length st = 25 \<Longrightarrow> iota r st = spec_iota r st"
  by (erule list_25) (simp add: iota_def upt_rec spec_iota_def by_coords_def lane_def)

lemma round_spec: "length st = 25 \<Longrightarrow> iota r (chi (rho_pi (theta st))) = spec_round r st"
  by (simp add: spec_round_def theta_spec rho_pi_spec chi_spec iota_spec spec_theta_def spec_pi_def
        spec_chi_def)

lemma length_spec_round [simp]: "length (spec_round r st) = 25"
  by (simp add: spec_round_def spec_iota_def)

lemma keccakf_rounds:
  "length st = 25 \<Longrightarrow>
     foldl (\<lambda>st r. iota r (chi (rho_pi (theta st)))) st rs = foldl (\<lambda>st r. spec_round r st) st rs
     \<and> length (foldl (\<lambda>st r. spec_round r st) st rs) = 25"
  by (induction rs arbitrary: st) (simp_all add: round_spec)

lemma keccakf_spec: "length st = 25 \<Longrightarrow> keccakf st n = foldl (\<lambda>st r. spec_round r st) st [0..<n]"
  and length_keccakf: "length st = 25 \<Longrightarrow> length (keccakf st n) = 25"
  using keccakf_rounds [of st "[0..<n]"] by (simp_all add: keccakf_def)

section \<open>The sponge\<close>

text \<open>
  Padding \<open>1 0* 1\<close> on bytes with the first domain bit of the original Keccak, blocks of
  \<open>rate\<close> bytes, each xored into the state and permuted.
\<close>

definition spec_pad :: "nat \<Rightarrow> bytes \<Rightarrow> bytes" where
  "spec_pad rate m =
     (let z = rate - 1 - length m mod rate
      in if z = 0 then m @ [0x81] else m @ [1] @ replicate (z - 1) 0 @ [0x80])"

function chunks :: "nat \<Rightarrow> 'a list \<Rightarrow> 'a list list" where
  "chunks n xs = (if n = 0 \<or> xs = [] then [] else take n xs # chunks n (drop n xs))"
  by pat_completeness auto
termination
  by (relation "measure (\<lambda>(n, xs). length xs)") auto

declare chunks.simps [simp del]

definition spec_xor :: "kstate \<Rightarrow> bytes \<Rightarrow> kstate" where
  "spec_xor st blk =
     map (\<lambda>i. if 8 * i < length blk then st ! i XOR le_word (take 8 (drop (8 * i) blk)) else st ! i) [0..<25]"

definition spec_absorb :: "nat \<Rightarrow> bytes list \<Rightarrow> kstate \<Rightarrow> kstate" where
  "spec_absorb rounds blocks st =
     foldl (\<lambda>st blk. foldl (\<lambda>st r. spec_round r st) (spec_xor st blk) [0..<rounds]) st blocks"

definition spec_keccak :: "bytes \<Rightarrow> nat \<Rightarrow> bytes" where
  "spec_keccak m mdlen =
     (let rate = 200 - 2 * mdlen
      in take mdlen (concat (map le_bytes
           (spec_absorb 24 (chunks rate (spec_pad rate m)) (replicate 25 0)))))"

lemma xor_block_nth:
  "length (xor_block n inp st) = length st \<and>
   (\<forall>i < length st. xor_block n inp st ! i =
      (if i < n then st ! i XOR le_word (take 8 (drop (8 * i) inp)) else st ! i))"
proof (induction n)
  case 0
  then show ?case by (simp add: xor_block_def)
next
  case (Suc n)
  have "xor_block (Suc n) inp st
      = (xor_block n inp st)[n := xor_block n inp st ! n XOR le_word (take 8 (drop (8 * n) inp))]"
    by (simp add: xor_block_def)
  moreover have "xor_block n inp st ! n = st ! n" if "n < length st"
    using Suc that by simp
  ultimately show ?case using Suc by (auto simp: nth_list_update less_Suc_eq)
qed

lemma xor_block_spec:
  assumes "length st = 25" and "rate = 8 * k" and "k \<le> 25" and "rate \<le> length inp"
  shows "xor_block (rate div 8) inp st = spec_xor st (take rate inp)"
proof (rule nth_equalityI)
  show "length (xor_block (rate div 8) inp st) = length (spec_xor st (take rate inp))"
    using xor_block_nth [of "rate div 8" inp st] assms(1) by (simp add: spec_xor_def)
  fix i assume "i < length (xor_block (rate div 8) inp st)"
  then have i: "i < 25" using xor_block_nth [of "rate div 8" inp st] assms(1) by simp
  have "take 8 (drop (8 * i) (take rate inp)) = take 8 (drop (8 * i) inp)" if "i < k"
    using that assms(2) by (simp add: drop_take min_def)
  then show "xor_block (rate div 8) inp st ! i = spec_xor st (take rate inp) ! i"
    using i xor_block_nth [of "rate div 8" inp st] assms by (auto simp: spec_xor_def)
qed

lemma length_spec_xor [simp]: "length (spec_xor st blk) = 25"
  by (simp add: spec_xor_def)

lemma chunks_step: "0 < n \<Longrightarrow> length xs = n \<Longrightarrow> chunks n (xs @ ys) = xs # chunks n ys"
  by (auto simp: chunks.simps [of n "xs @ ys"])

lemma chunks_one: "0 < n \<Longrightarrow> length xs = n \<Longrightarrow> chunks n xs = [xs]"
  using chunks_step [of n xs "[]"] by (simp add: chunks.simps [of n "[]"])

lemma spec_pad_step: "rate \<le> length m \<Longrightarrow> spec_pad rate m = take rate m @ spec_pad rate (drop rate m)"
proof -
  assume a: "rate \<le> length m"
  have "length (drop rate m) mod rate = length m mod rate"
    using a by (simp add: le_mod_geq)
  then show ?thesis by (simp add: spec_pad_def Let_def flip: append_assoc)
qed

lemma spec_pad_last:
  assumes "length m < rate"
  shows "spec_pad rate m = last_block rate m \<and> length (last_block rate m) = rate"
proof (cases "rate - 1 - length m = 0")
  case True
  then have r: "rate - 1 = length m" "rate - (length m + 1) = 0" using assms by arith+
  then have "last_block rate m = m @ [0x81]"
    unfolding last_block_def Let_def r by (simp add: nth_append)
  then show ?thesis using True assms by (simp add: spec_pad_def Let_def)
next
  case False
  define z where "z = rate - 1 - length m - 1"
  have z: "rate - (length m + 1) = Suc z" "rate - 1 = length m + 1 + z" "rate = length m + 2 + z"
    using assms False by (simp_all add: z_def)
  have rep: "replicate (Suc z) 0 = replicate z 0 @ [0 :: byte]"
    by (simp add: replicate_append_same)
  have "last_block rate m = m @ [1] @ replicate z 0 @ [0x80]"
    unfolding last_block_def Let_def z(1,2) rep
    by (simp add: nth_append list_update_append)
  then show ?thesis using z assms by (simp add: spec_pad_def Let_def)
qed

lemma absorb_spec:
  assumes k: "0 < k" "k \<le> 25"
  shows "rate = 8 * k \<Longrightarrow> length st = 25 \<Longrightarrow>
    (case absorb rate inp st of (st', rest) \<Rightarrow>
       keccakf (xor_block (rate div 8) (last_block rate rest) st') KECCAK_ROUNDS)
    = spec_absorb 24 (chunks rate (spec_pad rate inp)) st"
proof (induction rate inp st rule: absorb.induct)
  case (1 rate inp st)
  have r: "0 < rate" using "1.prems"(1) k by simp
  show ?case
  proof (cases "rate \<le> length inp")
    case True
    let ?st = "keccakf (xor_block (rate div 8) inp st) KECCAK_ROUNDS"
    have x: "xor_block (rate div 8) inp st = spec_xor st (take rate inp)"
      by (rule xor_block_spec [OF "1.prems"(2,1) k(2) True])
    have len: "length ?st = 25" unfolding x by (rule length_keccakf) simp
    have "absorb rate inp st = absorb rate (drop rate inp) ?st"
      using True r by (simp add: absorb.simps [of rate inp st])
    moreover have "chunks rate (spec_pad rate inp) = take rate inp # chunks rate (spec_pad rate (drop rate inp))"
      unfolding spec_pad_step [OF True] using r True by (intro chunks_step) simp_all
    moreover have "?st = foldl (\<lambda>st r. spec_round r st) (spec_xor st (take rate inp)) [0..<24]"
      unfolding x by (simp add: keccakf_spec KECCAK_ROUNDS_def)
    ultimately show ?thesis
      using "1.IH" [OF _ "1.prems"(1) len] r True by (simp add: spec_absorb_def)
  next
    case False
    then have a: "absorb rate inp st = (st, inp)" by (simp add: absorb.simps [of rate inp st])
    have p: "spec_pad rate inp = last_block rate inp" "length (last_block rate inp) = rate"
      using spec_pad_last [of inp rate] False by simp_all
    have "xor_block (rate div 8) (last_block rate inp) st = spec_xor st (take rate (last_block rate inp))"
      by (rule xor_block_spec [OF "1.prems"(2,1) k(2)]) (simp add: p)
    then show ?thesis
      using r by (simp add: a p chunks_one spec_absorb_def keccakf_spec KECCAK_ROUNDS_def)
  qed
qed

lemma length_absorb: "length st = 25 \<Longrightarrow> length (fst (absorb rate inp st)) = 25"
proof (induction rate inp st rule: absorb.induct)
  case (1 rate inp st)
  show ?case
  proof (cases "0 < rate \<and> rate \<le> length inp")
    case True
    have "length (keccakf (xor_block (rate div 8) inp st) KECCAK_ROUNDS) = 25"
      using xor_block_nth [of "rate div 8" inp st] "1.prems" by (intro length_keccakf) simp
    then show ?thesis using "1.IH" True by (simp add: absorb.simps [of rate inp st])
  next
    case False
    then show ?thesis using "1.prems" by (auto simp: absorb.simps [of rate inp st])
  qed
qed

lemma length_spec_absorb: "length st = 25 \<Longrightarrow> length (spec_absorb n blks st) = 25"
proof (induction blks arbitrary: st)
  case Nil
  then show ?case by (simp add: spec_absorb_def)
next
  case (Cons b blks)
  have "length (foldl (\<lambda>st r. spec_round r st) (spec_xor st b) [0..<n]) = 25"
    using keccakf_rounds [of "spec_xor st b" "[0..<n]"] by simp
  then show ?case using Cons.IH by (simp add: spec_absorb_def)
qed

lemma length_concat_le_bytes: "length (concat (map le_bytes st)) = 8 * length st"
  by (induction st) simp_all

section \<open>Properties\<close>



lemma keccak_sponge:
  assumes "28 \<le> mdlen" and "mdlen \<le> 96" and "mdlen mod 4 = 0"
  shows "keccak m mdlen = Inr (0, spec_keccak m mdlen) \<and> length (spec_keccak m mdlen) = mdlen"
proof -
  let ?rate = "200 - 2 * mdlen"
  define k where "k = 25 - mdlen div 4"
  have rate: "?rate = 8 * k" "0 < k" "k \<le> 25" "\<not> 144 < ?rate" "\<not> 200 \<le> 2 * mdlen"
    using assms unfolding k_def by presburger+
  obtain st rest where a: "absorb ?rate m (replicate 25 0) = (st, rest)" by fastforce
  have "keccak m mdlen = Inr (0, spec_keccak m mdlen)"
    using absorb_spec [OF rate(2,3,1), of "replicate 25 0" m] rate(4,5)
    by (simp add: keccak_def spec_keccak_def Let_def a)
  moreover have "length (spec_keccak m mdlen) = mdlen"
    using assms by (simp add: spec_keccak_def Let_def length_concat_le_bytes length_spec_absorb)
  ultimately show ?thesis ..
qed

lemma keccak_32: "keccak m 32 = Inr (0, spec_keccak m 32)" "length (spec_keccak m 32) = 32"
  using keccak_sponge [of 32 m] by simp_all

text \<open>C13: For every digest length the code supports (28 to 96 bytes in steps of four), the hash of any
  message is the Keccak sponge over its padded blocks, truncated to that length; the
  message tail always fits the 144-byte buffer and the result has the requested length.\<close>

theorem keccak_is_sponge:
  assumes "28 \<le> mdlen" and "mdlen \<le> 96" and "mdlen mod 4 = 0"
  shows "keccak m mdlen = Inr (0, spec_keccak m mdlen) \<and> length (spec_keccak m mdlen) = mdlen"
  using assms by (rule keccak_sponge)

theorem keccak_is_sponge_witness:
  "(28::nat) \<le> 32 \<and> (32::nat) \<le> 96 \<and> (32::nat) mod 4 = 0
   \<and> keccak [1, 2, 3] 32 = Inr (0, spec_keccak [1, 2, 3] 32) \<and> length (spec_keccak [1, 2, 3] 32) = 32"
  using keccak_is_sponge [of 32 "[1, 2, 3]"] by simp

end
