(* ===== verification/Eth_Ecdsa.thy ===== *)
theory Eth_Ecdsa
  imports Ecdsa Keccak
begin

text \<open>
  The wallet key of the enclave (\<open>eth_ecdsa.cpp\<close>): generation and sealing, provisioning,
  the address of a key, and signing; and the two ecalls of \<open>ecall_attestation.cpp\<close> that
  produce data for the outside.  The global \<open>g_secret_key\<close> is \<open>None\<close> until it is
  provisioned (its limb pointer is null).  The sealing primitives of the SGX SDK are
  parameters: \<open>seal\<close> and \<open>unseal\<close> return a non-zero status or the data.
\<close>

section \<open>Model\<close>

definition TC_KEY_NOT_PROVISIONED :: int where
  "TC_KEY_NOT_PROVISIONED = 0x9001"

type_synonym g_key = "int option"

text \<open>
  \<open>__ecdsa_seckey_to_pubkey\<close>: the public key without its format byte and the low 20 bytes
  of its hash.  A serialisation that is not 65 bytes long is only logged: the code goes on
  with uninitialised bytes of its buffer.  \<open>ecp_mul\<close> without a generator always returns.
\<close>

definition seckey_to_pubkey :: "ecp_curve \<Rightarrow> int \<Rightarrow> (int + bytes \<times> bytes) res" where
  "seckey_to_pubkey C seckey =
     (case ecp_mul C None seckey (gG C) () of
        Some (Inr Q, _) \<Rightarrow>
          (case ecp_point_write_binary C Q 65 of
             Inl e \<Rightarrow>
               if e = ERR_ECP_BUFFER_TOO_SMALL \<or> e = ERR_ECP_BAD_INPUT_DATA then Inr (Inl (- 1))
               else Inl UB
           | Inr pk \<Rightarrow>
               if length pk \<noteq> 65 then Inl UB
               else bind_res (keccak (drop 1 pk) 32) (\<lambda>(ret, h).
                      if ret \<noteq> 0 then Inr (Inl (- 1))
                      else Inr (Inr (drop 1 pk, take 20 (drop 12 h)))))
      | _ \<Rightarrow> Inr (Inl (- 1)))"

definition ecdsa_keygen_unseal ::
  "ecp_curve \<Rightarrow> (bytes \<Rightarrow> int + bytes) \<Rightarrow> bytes \<Rightarrow> (int + bytes \<times> bytes) res" where
  "ecdsa_keygen_unseal C unseal secret =
     (case unseal secret of
        Inl st \<Rightarrow> Inr (Inl (- 1))
      | Inr y \<Rightarrow> seckey_to_pubkey C (mpi_read_binary y))"

definition tc_provision_ecdsa_key ::
  "(bytes \<Rightarrow> int + bytes) \<Rightarrow> bytes \<Rightarrow> g_key \<Rightarrow> int \<times> g_key" where
  "tc_provision_ecdsa_key unseal secret g =
     (case unseal secret of
        Inl st \<Rightarrow> (- 1, g)
      | Inr y \<Rightarrow> (0, Some (mpi_read_binary y)))"

definition tc_get_address :: "ecp_curve \<Rightarrow> g_key \<Rightarrow> (int + bytes \<times> bytes) res" where
  "tc_get_address C g =
     (case g of
        None \<Rightarrow> Inr (Inl TC_KEY_NOT_PROVISIONED)
      | Some seckey \<Rightarrow> seckey_to_pubkey C seckey)"

text \<open>
  \<open>ecdsa_keygen_seal\<close>: the result of the random fill is not looked at, a failing generator
  leaves the key 0.  The sealed key is written before the public key is computed.
\<close>

definition draw_secret :: "ecp_curve \<Rightarrow> 'g rng \<Rightarrow> 'g \<Rightarrow> int \<times> 'g" where
  "draw_secret C f_rng g =
     (case mpi_fill_random f_rng (nbits C div 8) g of
        Some (Inr x, g') \<Rightarrow> (x, g')
      | Some (Inl _, g') \<Rightarrow> (0, g')
      | None \<Rightarrow> (0, g))"

definition ecdsa_keygen_seal ::
  "ecp_curve \<Rightarrow> 'g rng \<Rightarrow> (bytes \<Rightarrow> int + bytes) \<Rightarrow> 'g \<Rightarrow>
     (int \<times> bytes option \<times> (bytes \<times> bytes) option) res \<times> 'g" where
  "ecdsa_keygen_seal C f_rng seal g =
     (let (secret, g') = draw_secret C f_rng g
      in (case mpi_write_binary secret 32 of
            Inl _ \<Rightarrow> Inr (- 1, None, None)
          | Inr secret_buffer \<Rightarrow>
              (case seal secret_buffer of
                 Inl st \<Rightarrow> Inr (- 1, None, None)
               | Inr sealed \<Rightarrow>
                   bind_res (seckey_to_pubkey C secret) (\<lambda>r.
                     (case r of
                        Inl _ \<Rightarrow> Inr (- 1, Some sealed, None)
                      | Inr pa \<Rightarrow> Inr (0, Some sealed, Some pa)))), g'))"

text \<open>
  The buffers \<open>ecdsa_sign\<close> writes: \<open>rr\<close> and \<open>ss\<close> of 32 bytes, and the byte \<open>vv\<close>, \<open>None\<close>
  when signing failed.  \<open>room\<close> is the number of bytes the caller owns at \<open>vv\<close>:
  \<open>mbedtls_ecdsa_sign_with_v\<close> writes the parity through a pointer to a 64-bit integer as soon
  as it has an ephemeral key.
\<close>

record sig_buffers =
  sig_rr :: bytes
  sig_ss :: bytes
  sig_vv :: "byte option"

definition overwritten :: "bytes \<Rightarrow> int + bytes \<Rightarrow> bytes" where
  "overwritten old new = (case new of Inl _ \<Rightarrow> old | Inr bs \<Rightarrow> bs)"

definition sign_overflows :: "ecp_curve \<Rightarrow> 'g rng \<Rightarrow> nat \<Rightarrow> 'g \<Rightarrow> bool" where
  "sign_overflows C f_rng room g \<longleftrightarrow>
     room < 8 \<and> (case ecp_gen_keypair C f_rng g of Some (Inr _, _) \<Rightarrow> True | _ \<Rightarrow> False)"

definition ecdsa_sign ::
  "ecp_curve \<Rightarrow> 'g rng \<Rightarrow> g_key \<Rightarrow> bytes \<Rightarrow> sig_buffers \<Rightarrow> nat \<Rightarrow> 'g \<Rightarrow>
     ((int \<times> sig_buffers) res \<times> 'g) option" where
  "ecdsa_sign C f_rng key data out room g =
     (case key of
        None \<Rightarrow> Some (Inr (- 1, out), g)
      | Some d \<Rightarrow>
          (case ecp_mul C None d (gG C) () of
             Some (Inr Q, _) \<Rightarrow>
               if sign_overflows C f_rng room g then Some (Inl UB, g)
               else (case ecdsa_sign_with_v C f_rng d data g of
                       None \<Rightarrow> None
                     | Some (Inl ret, g') \<Rightarrow> Some (Inr (ret, out), g')
                     | Some (Inr (r, s, v), g') \<Rightarrow>
                         let out' = \<lparr>sig_rr = overwritten (sig_rr out) (mpi_write_binary r 32),
                                     sig_ss = overwritten (sig_ss out) (mpi_write_binary s 32),
                                     sig_vv = Some v\<rparr>
                         in (case ecdsa_verify C data Q r s () of
                               None \<Rightarrow> None
                             | Some (Inl ret, _) \<Rightarrow> Some (Inr (ret, out'), g')
                             | Some (Inr _, _) \<Rightarrow> Some (Inr (0, out'), g')))
           | _ \<Rightarrow> Some (Inr (- 1, out), g)))"

section \<open>Attestation ecalls\<close>

definition ecall_get_mr_enclave :: "int + bytes \<Rightarrow> int \<times> bytes option" where
  "ecall_get_mr_enclave report =
     (case report of Inl st \<Rightarrow> (- 1, None) | Inr mr \<Rightarrow> (0, Some mr))"

text \<open>
  The report carries 64 bytes \<open>0x90\<close> of user data; the status of \<open>sgx_create_report\<close>
  (a parameter) is returned as it is.
\<close>

definition ecall_create_report :: "(bytes \<Rightarrow> int \<times> 'r) \<Rightarrow> int \<times> 'r" where
  "ecall_create_report sgx_create_report = sgx_create_report (replicate 64 0x90)"

text \<open>
  \<open>ecall_time_calibrate\<close> signs the hash of the eight bytes of the clock into the 65 bytes of
  \<open>wtc_rsv\<close>: the recovery value goes to the last one.
\<close>

definition ecall_time_calibrate ::
  "ecp_curve \<Rightarrow> 'g rng \<Rightarrow> g_key \<Rightarrow> u64 \<Rightarrow> 'g \<Rightarrow> ((int \<times> sig_buffers) res \<times> 'g) option" where
  "ecall_time_calibrate C f_rng key wall_clock g =
     (let out = \<lparr>sig_rr = replicate 32 0, sig_ss = replicate 32 0, sig_vv = None\<rparr>
      in case keccak (le_bytes wall_clock) 32 of
           Inl e \<Rightarrow> Some (Inl e, g)
         | Inr (ret, wtc_hash) \<Rightarrow>
             if ret \<noteq> 0 then Some (Inr (ret, out), g)
             else ecdsa_sign C f_rng key wtc_hash out 1 g)"

section \<open>Error codes are not zero\<close>

named_theorems nonzero \<open>failing library calls return a non-zero code\<close>

lemma eff_bind_Inl:
  "eff_bind m f g = Some (Inl e, g'') \<longleftrightarrow>
     m g = Some (Inl e, g'') \<or> (\<exists>x g'. m g = Some (Inr x, g') \<and> f x g' = Some (Inl e, g''))"
  by (auto simp: eff_bind_def split: option.splits sum.splits)

lemma ecp_mul_nonzero [nonzero]: "ecp_mul C None m P g = Some (Inl e, g') \<Longrightarrow> e \<noteq> 0"
  by (auto simp: ecp_mul_def eff_err_def eff_ret_def ERR_ECP_BAD_INPUT_DATA_def split: if_splits)

lemma ecp_muladd_nonzero [nonzero]: "ecp_muladd C m P n Q g = Some (Inl e, g') \<Longrightarrow> e \<noteq> 0"
  by (auto simp: ecp_muladd_def ecp_mul_shortcuts_def eff_bind_Inl eff_ret_def
      dest!: nonzero split: if_splits)

lemma mpi_inv_mod_nonzero [nonzero]: "mpi_inv_mod a n = Some (Inl e) \<Longrightarrow> e \<noteq> 0"
  by (auto simp: mpi_inv_mod_def Let_def ERR_MPI_BAD_INPUT_DATA_def ERR_MPI_NOT_ACCEPTABLE_def
      split: if_splits)

lemma ecdsa_verify_nonzero [nonzero]:
  "ecdsa_verify C buf Q r s g = Some (Inl e, g') \<Longrightarrow> e \<noteq> 0"
  by (auto simp: ecdsa_verify_def eff_bind_Inl eff_err_def eff_ret_def eff_lift_def Let_def
      ERR_ECP_VERIFY_FAILED_def dest!: nonzero split: if_splits option.splits)

section \<open>Properties\<close>

text \<open>C17: \<open>ecdsa_sign\<close> hands out no signature that does not verify: before a key is provisioned it
  returns -1 and writes nothing; and when it returns 0 with a signature, the 32-byte buffers
  hold the big-endian \<open>r\<close> and \<open>s\<close> in the canonical ranges, \<open>v\<close> is one of 27 to 30, and
  \<open>mbedtls_ecdsa_verify\<close> accepts them under the public key of the provisioned key.\<close>

theorem ecdsa_sign_checked:
  assumes N: "1 < gN C" "gN C \<le> 256 ^ 32" and fresh: "sig_vv out = None"
    and run: "ecdsa_sign C f_rng key data out room g = Some (Inr (ret, out'), g')"
  shows "(key = None \<and> ret = - 1 \<and> out' = out)
    \<or> (\<exists>d. key = Some d \<and>
        (sig_vv out' = None \<or> ret \<noteq> 0
         \<or> (\<exists>r s v. r = int (be_val (sig_rr out')) \<and> s = int (be_val (sig_ss out')) \<and> sig_vv out' = Some v
             \<and> length (sig_rr out') = 32 \<and> length (sig_ss out') = 32
             \<and> 1 \<le> r \<and> r < gN C \<and> 1 \<le> s \<and> s \<le> gN C div 2 \<and> v \<in> {27, 28, 29, 30}
             \<and> ecdsa_verify C data (comb C d (gG C)) r s () = Some (Inr (), ()))))"
proof (cases key)
  case None
  then show ?thesis using run by (simp add: ecdsa_sign_def)
next
  case (Some d)
  show ?thesis
  proof (cases "sig_vv out' = None \<or> ret \<noteq> 0")
    case True
    then show ?thesis using Some by blast
  next
    case False
    obtain Q u where Q: "ecp_mul C None d (gG C) () = Some (Inr Q, u)"
      using run False Some fresh
      by (auto simp: ecdsa_sign_def split: option.splits sum.splits prod.splits)
    have Qc: "Q = comb C d (gG C)" using ecp_mul_result [OF Q] by simp
    obtain r s v g1 where sg: "ecdsa_sign_with_v C f_rng d data g = Some (Inr (r, s, v), g1)"
      using run False Some fresh Q
      by (auto simp: ecdsa_sign_def split: option.splits sum.splits if_splits)
    define o' where "o' = \<lparr>sig_rr = overwritten (sig_rr out) (mpi_write_binary r 32),
        sig_ss = overwritten (sig_ss out) (mpi_write_binary s 32), sig_vv = Some v\<rparr>"
    have ver: "ecdsa_verify C data Q r s () = Some (Inr (), ()) \<and> out' = o'"
      using run False Some Q sg
      by (auto simp: ecdsa_sign_def o'_def Let_def dest: ecdsa_verify_nonzero
          split: option.splits sum.splits if_splits)
    have rg: "1 \<le> r" "r < gN C" "1 \<le> s" "s \<le> gN C div 2" "v \<in> {27, 28, 29, 30}"
      using sign_with_v_bounds [OF sg N(1)] by auto
    have fit: "r < 256 ^ 32" "s < 256 ^ 32" using rg N by linarith+
    obtain rb where rb: "mpi_write_binary r 32 = Inr rb" using mpi_write_binary_ok [of r 32] rg(1) fit(1) by auto
    obtain sb where sb: "mpi_write_binary s 32 = Inr sb" using mpi_write_binary_ok [of s 32] rg(3) fit(2) by auto
    have "int (be_val rb) = r" "length rb = 32" "int (be_val sb) = s" "length sb = 32"
      using mpi_write_binary_val [OF rb] mpi_write_binary_val [OF sb] rg
      by (simp_all add: mpi_read_binary_def)
    then show ?thesis
      using Some ver rg Qc rb sb by (auto simp: o'_def overwritten_def)
  qed
qed

text \<open>A witness key on the small curve, and sealing primitives that invert each other.\<close>

definition flip_seal :: "bytes \<Rightarrow> int + bytes" where
  "flip_seal bs = Inr (map not bs)"

lemma flip_unseal: "\<forall>x sealed. flip_seal x = Inr sealed \<longrightarrow> flip_seal sealed = Inr x"
  by (auto simp: flip_seal_def comp_def)

definition empty_sig :: sig_buffers where
  "empty_sig = \<lparr>sig_rr = replicate 32 0, sig_ss = replicate 32 0, sig_vv = None\<rparr>"

theorem ecdsa_sign_checked_witness:
  "1 < gN tiny_curve \<and> gN tiny_curve \<le> 256 ^ 32
   \<and> (\<exists>r s v out' g'. ecdsa_sign tiny_curve tiny_rng (Some 3) [0xA0] empty_sig 8 0 = Some (Inr (0, out'), g')
        \<and> r = int (be_val (sig_rr out')) \<and> s = int (be_val (sig_ss out')) \<and> sig_vv out' = Some v
        \<and> ecdsa_verify tiny_curve [0xA0] (tiny_mult 3) r s () = Some (Inr (), ()))"
proof -
  have n: "1 < gN tiny_curve" "gN tiny_curve \<le> 256 ^ 32" by (simp_all add: tiny_curve_def)
  have run: "ecdsa_sign tiny_curve tiny_rng (Some 3) [0xA0] empty_sig 8 0
      = Some (Inr (0, \<lparr>sig_rr = replicate 31 0 @ [1], sig_ss = replicate 31 0 @ [3], sig_vv = Some 29\<rparr>), 3)"
    by code_simp
  have c: "comb tiny_curve 3 (gG tiny_curve) = tiny_mult 3"
    by (simp add: tiny_curve_def tiny_comb_def)
  show ?thesis
    using ecdsa_sign_checked [OF n _ run] n run c by (auto simp: empty_sig_def)
qed

lemma draw_secret_nonneg: "draw_secret C f_rng g = (x, g') \<Longrightarrow> 0 \<le> x"
  using mpi_read_binary_bounds
  by (auto simp: draw_secret_def mpi_fill_random_def eff_err_def eff_ret_def
      split: prod.splits sum.splits if_splits)

lemma ecdsa_keygen_seal_success:
  assumes "ecdsa_keygen_seal C f_rng seal g = (Inr (0, Some sealed, Some pa), g')"
  shows "\<exists>secret buf. 0 \<le> secret \<and> mpi_write_binary secret 32 = Inr buf \<and> seal buf = Inr sealed
    \<and> seckey_to_pubkey C secret = Inr (Inr pa)"
proof -
  obtain secret h where d: "draw_secret C f_rng g = (secret, h)" by fastforce
  obtain buf where b: "mpi_write_binary secret 32 = Inr buf"
    using assms by (auto simp: ecdsa_keygen_seal_def d split: sum.splits)
  obtain sl where sl: "seal buf = Inr sl"
    using assms by (auto simp: ecdsa_keygen_seal_def d b split: sum.splits)
  obtain r where r: "seckey_to_pubkey C secret = Inr r"
    using assms by (cases "seckey_to_pubkey C secret") (auto simp: ecdsa_keygen_seal_def d b sl)
  obtain x where "r = Inr x" "x = pa" "sl = sealed"
    using assms by (cases r) (auto simp: ecdsa_keygen_seal_def d b sl r)
  then show ?thesis using draw_secret_nonneg [OF d] b sl r by blast
qed

text \<open>A wallet key survives sealing: when \<open>ecdsa_keygen_seal\<close> succeeds, unsealing the blob it produced
  gives back the same public key and address, and so does \<open>tc_get_address\<close> after the blob
  is provisioned; the address is the last 20 bytes of the hash of the 64-byte public key.\<close>

theorem keygen_seal_unseal:
  assumes inverse: "\<forall>x sealed. seal x = Inr sealed \<longrightarrow> unseal sealed = Inr x"
    and gen: "ecdsa_keygen_seal C f_rng seal g = (Inr (0, Some sealed, Some (pubkey, address)), g')"
  shows "ecdsa_keygen_unseal C unseal sealed = Inr (Inr (pubkey, address))
    \<and> tc_get_address C (snd (tc_provision_ecdsa_key unseal sealed key)) = Inr (Inr (pubkey, address))
    \<and> length pubkey = 64 \<and> address = drop 12 (spec_keccak pubkey 32)"
proof -
  obtain secret buf where b: "mpi_write_binary secret 32 = Inr buf" "seal buf = Inr sealed"
      "seckey_to_pubkey C secret = Inr (Inr (pubkey, address))" "0 \<le> secret"
    using ecdsa_keygen_seal_success [OF gen] by blast
  have u: "unseal sealed = Inr buf" using inverse b(2) by blast
  have r: "mpi_read_binary buf = secret" using mpi_write_binary_val [OF b(1,4)] by simp
  have "length pubkey = 64 \<and> address = take 20 (drop 12 (spec_keccak pubkey 32))"
    using b(3) by (auto simp: seckey_to_pubkey_def keccak_32 split: option.splits sum.splits if_splits)
  then show ?thesis
    using u r b(3) keccak_32(2) [of pubkey]
    by (simp add: ecdsa_keygen_unseal_def tc_provision_ecdsa_key_def tc_get_address_def)
qed

text \<open>Data with the sizes of secp256k1 whose scalar multiplication is the identity.\<close>

definition id_curve :: ecp_curve where
  "id_curve = secp256k1 (\<lambda>m P. P) (\<lambda>P Q. Q)"

definition id_point :: bytes where
  "id_point = (case ecp_point_write_binary id_curve (gG id_curve) 65 of Inl e \<Rightarrow> [] | Inr b \<Rightarrow> b)"

lemma id_point_bytes: "ecp_point_write_binary id_curve (gG id_curve) 65 = Inr id_point"
  "length id_point = 65"
  by code_simp+

lemma id_seckey_to_pubkey:
  assumes "1 \<le> d" and "d < gN id_curve"
  shows "seckey_to_pubkey id_curve d
    = Inr (Inr (drop 1 id_point, drop 12 (spec_keccak (drop 1 id_point) 32)))"
proof -
  have p: "ecp_check_pubkey id_curve (gG id_curve) = 0" "odd (gN id_curve)"
    by (simp_all add: id_curve_def secp256k1_def ecp_check_pubkey_sw_def)
  have "ecp_mul id_curve None d (gG id_curve) () = Some (Inr (gG id_curve), ())"
    using assms p check_pubkey_not_Zero [OF p(1)]
    by (simp add: ecp_mul_def ecp_check_privkey_def eff_ret_def) (simp add: id_curve_def secp256k1_def)
  moreover have "take 20 (drop 12 (spec_keccak (drop 1 id_point) 32)) = drop 12 (spec_keccak (drop 1 id_point) 32)"
    by (rule take_all) (simp only: length_drop keccak_32)
  ultimately show ?thesis
    by (simp only: seckey_to_pubkey_def option.case prod.case sum.case id_point_bytes keccak_32
        bind_res_simps simp_thms if_False if_True)
qed

lemma replicate_eqs:
  "replicate 32 x = replicate 16 x @ replicate 16 x"
  "replicate 16 x = [x, x, x, x, x, x, x, x, x, x, x, x, x, x, x, x]"
  by (simp_all add: eval_nat_numeral)

theorem keygen_seal_unseal_witness:
  "(\<exists>g'. ecdsa_keygen_seal id_curve tiny_rng flip_seal 0
      = (Inr (0, Some (replicate 32 191),
           Some (drop 1 id_point, drop 12 (spec_keccak (drop 1 id_point) 32))), g'))
   \<and> ecdsa_keygen_unseal id_curve flip_seal (replicate 32 191)
     = Inr (Inr (drop 1 id_point, drop 12 (spec_keccak (drop 1 id_point) 32)))"
proof -
  define d where "d = mpi_read_binary (replicate 32 64)"
  have v: "d = 0x4040404040404040404040404040404040404040404040404040404040404040"
    by (simp add: d_def mpi_read_binary_def be_val_def replicate_eqs)
  have dr: "draw_secret id_curve tiny_rng 0 = (d, 1)"
    unfolding d_def
    by (simp add: draw_secret_def mpi_fill_random_def tiny_rng_def eff_ret_def id_curve_def
        secp256k1_def MPI_MAX_SIZE_def)
  have w: "mpi_write_binary d 32 = Inr (replicate 32 64)"
    unfolding d_def by (rule mpi_write_read) simp
  have f: "flip_seal (replicate 32 64) = Inr (replicate 32 191)" by code_simp
  have pk: "seckey_to_pubkey id_curve d
      = Inr (Inr (drop 1 id_point, drop 12 (spec_keccak (drop 1 id_point) 32)))"
    by (rule id_seckey_to_pubkey) (simp_all add: v id_curve_def secp256k1_def)
  have gen: "ecdsa_keygen_seal id_curve tiny_rng flip_seal 0
      = (Inr (0, Some (replicate 32 191),
           Some (drop 1 id_point, drop 12 (spec_keccak (drop 1 id_point) 32))), 1)"
    by (simp only: ecdsa_keygen_seal_def dr w f pk Let_def split prod.case sum.case bind_res_simps)
  show ?thesis
    using keygen_seal_unseal [OF flip_unseal gen] gen by blast
qed

text \<open>C20: \<open>ecall_time_calibrate\<close> writes past its 65-byte result buffer: with any usable key, as soon as
  the generator delivers an ephemeral key, the recovery value is stored as a 64-bit integer
  at the last byte of the buffer.  Without a key it fails with -1.\<close>

theorem time_calibrate_overflow:
  assumes key: "1 \<le> d" "d < gN C" and curve: "odd (gN C)" "ecp_check_pubkey C (gG C) = 0"
    and rng: "ecp_gen_keypair C f_rng g = Some (Inr kR, g')"
  shows "ecall_time_calibrate C f_rng (Some d) t g = Some (Inl UB, g)
    \<and> (\<exists>out. ecall_time_calibrate C f_rng None t g = Some (Inr (- 1, out), g))"
proof -
  have "ecp_mul C None d (gG C) () = Some (Inr (comb C d (gG C)), ())"
    using key curve check_pubkey_not_Zero [OF curve(2)]
    by (simp add: ecp_mul_def ecp_check_privkey_def eff_ret_def)
  then show ?thesis
    using rng by (simp add: ecall_time_calibrate_def keccak_32 ecdsa_sign_def sign_overflows_def Let_def)
qed

theorem time_calibrate_overflow_witness:
  "(1 :: int) \<le> 3 \<and> 3 < gN tiny_curve \<and> odd (gN tiny_curve) \<and> ecp_check_pubkey tiny_curve (gG tiny_curve) = 0
   \<and> ecall_time_calibrate tiny_curve tiny_rng (Some 3) 0 0 = Some (Inl UB, 0)"
proof -
  have n: "3 < gN tiny_curve" "odd (gN tiny_curve)" by (simp_all add: tiny_curve_def)
  have p: "ecp_check_pubkey tiny_curve (gG tiny_curve) = 0" by code_simp
  have g: "ecp_gen_keypair tiny_curve tiny_rng 0 = Some (Inr (2, Affine 8 5), 2)" by code_simp
  show ?thesis
    using time_calibrate_overflow [OF _ n p g, of 0] n p by simp
qed

end
