(* ===== verification/Eth_Transaction.thy ===== *)
theory Eth_Transaction
  imports Eth_Abi Env Eth_Ecdsa
begin

text \<open>
  The transaction that delivers an answer to the Town Crier contract
  (\<open>eth_transaction.cpp\<close>): the RLP encoding of a transaction and \<open>form_transaction\<close>, which
  hashes the request, encodes the call \<open>deliver(id, hash, error, data)\<close>, signs and
  serialises.  A reference decoder of RLP lists states what the bytes mean.
\<close>

section \<open>Constants (Constants.h)\<close>

definition TX_BUF_SIZE :: nat where "TX_BUF_SIZE = 2048"
definition GASPRICE :: u64 where "GASPRICE = 0x0BA43B7400"
definition GASLIMIT :: u64 where "GASLIMIT = 0x2DC6C0"
definition TC_SUCCESS :: int where "TC_SUCCESS = 0"
definition TC_INPUT_ERROR :: int where "TC_INPUT_ERROR = 1"
definition TC_INTERNAL_ERROR :: int where "TC_INTERNAL_ERROR = 3"
definition DELIVER_CALL_SIGNATURE :: string where
  "DELIVER_CALL_SIGNATURE = ''deliver(uint64,bytes32,uint64,bytes32)''"

section \<open>Transactions\<close>

text \<open>\<open>rlp_item\<close>, the older encoder for a buffer of \<open>len\<close> bytes (\<open>None\<close>: a null pointer).\<close>

definition rlp_item :: "bytes option \<Rightarrow> bytes \<Rightarrow> bytes res" where
  "rlp_item inp out =
     (case inp of
        None \<Rightarrow> Inl (Throw (Invalid_argument ''NULL input''))
      | Some buf \<Rightarrow>
          let len = length buf in
          if len = 1 \<and> hd buf < 0x80 then Inr (out @ [hd buf])
          else if len < 56 then Inr (out @ [0x80 + word_of_nat len] @ buf)
          else let len_len = bytesRequired (word_of_nat len)
               in if len_len > 8 then Inl (Throw (Invalid_argument ''Error: len_len > 8''))
                  else Inr (out @ [0xb7 + len_len]
                              @ be_bytes (unat len_len) (word_of_nat len :: u64) @ buf))"

datatype tx_type = NullTransaction | ContractCreation | MessageCall

record transaction =
  m_type :: tx_type
  m_nonce :: bytes
  m_gasPrice :: bytes
  m_gas :: bytes
  m_to :: bytes
  m_value :: bytes
  m_data :: bytes
  tx_r :: bytes
  tx_s :: bytes
  tx_v :: byte

text \<open>The constructor; \<open>v\<close> is not initialised by it and is written before it is read.\<close>

definition new_transaction ::
  "tx_type \<Rightarrow> u64 \<Rightarrow> u64 \<Rightarrow> u64 \<Rightarrow> string \<Rightarrow> u64 \<Rightarrow> bytes \<Rightarrow> transaction res" where
  "new_transaction p nonce gasprice gaslimit to value data =
     bind_res (bytes20_of_hex (c_str to)) (\<lambda>addr.
       Inr \<lparr>m_type = p,
            m_nonce = parseUInt64 bytes32_zero nonce,
            m_gasPrice = parseUInt64 bytes32_zero gasprice,
            m_gas = parseUInt64 bytes32_zero gaslimit,
            m_to = addr,
            m_value = parseUInt64 bytes32_zero value,
            m_data = data,
            tx_r = bytes32_zero, tx_s = bytes32_zero, tx_v = 0\<rparr>)"

text \<open>The list header put in front of the encoded fields; nothing is put for a list above 4 GB.\<close>

definition rlp_list_header :: "bytes \<Rightarrow> bytes" where
  "rlp_list_header out =
     (let len = length out in
      if len < 56 then (0xc0 + word_of_nat len) # out
      else let len_len = bytesRequired (word_of_nat len)
           in if len_len > 4 then out
              else (0xf7 + len_len) # be_bytes (unat len_len) (word_of_nat len :: u64) @ out)"

definition rlpEncode :: "transaction \<Rightarrow> bytes \<Rightarrow> bool \<Rightarrow> bytes res" where
  "rlpEncode tx out withSig =
     bind_res (bytes_to_rlp (m_nonce tx) out) (\<lambda>out.
     bind_res (bytes_to_rlp (m_gasPrice tx) out) (\<lambda>out.
     bind_res (bytes_to_rlp (m_gas tx) out) (\<lambda>out.
     bind_res (if m_type tx = MessageCall then rlp_string (m_to tx) out else Inr out) (\<lambda>out.
     bind_res (bytes_to_rlp (m_value tx) out) (\<lambda>out.
     bind_res (bytes_to_rlp (m_data tx) out) (\<lambda>out.
     bind_res (if withSig then
                 bind_res (rlp_item (Some [tx_v tx]) out) (\<lambda>out.
                 bind_res (bytes_to_rlp (tx_r tx) out) (\<lambda>out.
                 bytes_to_rlp (tx_s tx) out))
               else Inr out) (\<lambda>out.
     Inr (rlp_list_header out))))))))"

section \<open>Delivering an answer\<close>

text \<open>The hash of the request: the type byte followed by the request data.\<close>

definition param_hash :: "byte \<Rightarrow> bytes \<Rightarrow> bytes res" where
  "param_hash request_type request_data =
     bind_res (keccak (request_type # request_data) 32) (\<lambda>(ret, h). bytes32_of_buffer h 32)"

text \<open>
  The response word: zero after an error, else the first 32 bytes of the response.  The
  copy reads 32 bytes whatever the length of the response is.
\<close>

definition response_word :: "u64 \<Rightarrow> bytes \<Rightarrow> bytes res" where
  "response_word resp_error resp_data =
     (let resp_b32 = bytes32_of_uint64 0 in
      if resp_error \<noteq> 0 then Inr (bytes32_reset resp_b32)
      else if length resp_data < 32 then Inl UB
      else Inr (take 32 resp_data))"

text \<open>The call data; the first component is the return code of the encoder.\<close>

definition delivery_call :: "u64 \<Rightarrow> bytes \<Rightarrow> u64 \<Rightarrow> bytes \<Rightarrow> (int \<times> bytes) res" where
  "delivery_call request_id hash resp_error resp =
     bind_res (encode (ABI_Generic_Array
                 [ABI_UInt64 request_id, ABI_Bytes32 hash, ABI_UInt64 resp_error, ABI_Bytes32 resp]) [])
       (\<lambda>(ret, call).
         if ret \<noteq> 0 then Inr (ret, call)
         else bind_res (keccak (bytes_of DELIVER_CALL_SIGNATURE) 32) (\<lambda>(ret, func_selector).
                if ret \<noteq> 0 then Inr (ret, call)
                else Inr (0, take 4 func_selector @ call)))"

text \<open>
  Signing and serialising.  The signature goes to the zeroed \<open>r\<close> and \<open>s\<close> of the
  transaction; \<open>v\<close> is its last member, followed by seven bytes of padding, so there is
  room for the eight bytes the library writes.
\<close>

definition sign_transaction ::
  "ecp_curve \<Rightarrow> 'g rng \<Rightarrow> g_key \<Rightarrow> bool \<Rightarrow> transaction \<Rightarrow> bytes \<Rightarrow> 'g \<Rightarrow>
     ((int \<times> transaction) res \<times> 'g) option" where
  "sign_transaction C f_rng key with_sig tx tx_hash g =
     (let tx = tx\<lparr>tx_r := bytes32_zero, tx_s := bytes32_zero\<rparr> in
      if with_sig then
        (case ecdsa_sign C f_rng key tx_hash \<lparr>sig_rr = tx_r tx, sig_ss = tx_s tx, sig_vv = None\<rparr> 8 g of
           None \<Rightarrow> None
         | Some (Inl e, g') \<Rightarrow> Some (Inl e, g')
         | Some (Inr (ret, sig), g') \<Rightarrow>
             Some (Inr (ret, tx\<lparr>tx_r := sig_rr sig, tx_s := sig_ss sig,
                               tx_v := (case sig_vv sig of None \<Rightarrow> tx_v tx | Some v \<Rightarrow> v)\<rparr>), g'))
      else Some (Inr (0, tx\<lparr>tx_r := replicate 32 0, tx_s := replicate 32 0, tx_v := 27\<rparr>), g))"

text \<open>
  The transaction before signing.  The constructor runs outside the \<open>try\<close> block, the
  encoding of the unsigned transaction inside it: an exception there gives
  \<open>TC_INTERNAL_ERROR\<close> (\<open>Inr (Inl _)\<close>).
\<close>

definition unsigned_transaction ::
  "g_env \<Rightarrow> i32 \<Rightarrow> u64 \<Rightarrow> byte \<Rightarrow> bytes \<Rightarrow> u64 \<Rightarrow> bytes \<Rightarrow> (int + transaction \<times> bytes) res" where
  "unsigned_transaction env nonce request_id request_type request_data resp_error resp_data =
     bind_res (param_hash request_type request_data) (\<lambda>hash.
     bind_res (response_word resp_error resp_data) (\<lambda>resp.
     bind_res (delivery_call request_id hash resp_error resp) (\<lambda>(ret, call).
       if ret \<noteq> 0 then Inr (Inl TC_INTERNAL_ERROR)
       else bind_res (getContractAddress env) (\<lambda>addr.
            bind_res (new_transaction MessageCall (scast nonce) GASPRICE GASLIMIT addr 0 call) (\<lambda>tx.
            let tx = tx\<lparr>m_data := call\<rparr> in
            catch_exn (bind_res (rlpEncode tx [] False) (\<lambda>out. Inr (Inr (tx, out))))
              (\<lambda>e. Inr (Inl TC_INTERNAL_ERROR)))))))"

text \<open>
  \<open>form_transaction\<close>: \<open>None\<close> is a run that does not return; the result is the code and the
  bytes written to the caller's buffer (whose length goes to \<open>*o_len\<close>).  \<open>bufs\<close> tells that
  neither output pointer is null.
\<close>

definition form_transaction ::
  "ecp_curve \<Rightarrow> 'g rng \<Rightarrow> g_key \<Rightarrow> g_env \<Rightarrow> i32 \<Rightarrow> u64 \<Rightarrow> byte \<Rightarrow> bytes \<Rightarrow> u64 \<Rightarrow> bytes \<Rightarrow>
     bool \<Rightarrow> bool \<Rightarrow> 'g \<Rightarrow> ((int \<times> bytes option) res \<times> 'g) option" where
  "form_transaction C f_rng key env nonce request_id request_type request_data resp_error resp_data
     bufs with_sig g =
     (if \<not> bufs then Some (Inr (TC_INTERNAL_ERROR, None), g)
      else case unsigned_transaction env nonce request_id request_type request_data resp_error resp_data of
        Inl e \<Rightarrow> Some (Inl e, g)
      | Inr (Inl ret) \<Rightarrow> Some (Inr (ret, None), g)
      | Inr (Inr (tx, out)) \<Rightarrow>
          (case keccak out 32 of
             Inl e \<Rightarrow> Some (Inl e, g)
           | Inr (ret, tx_hash) \<Rightarrow>
               if ret \<noteq> 0 then Some (Inr (TC_INTERNAL_ERROR, None), g)
               else (case sign_transaction C f_rng key with_sig tx tx_hash g of
                       None \<Rightarrow> None
                     | Some (Inl e, g') \<Rightarrow> Some (Inl e, g')
                     | Some (Inr (ret, tx), g') \<Rightarrow>
                         if ret \<noteq> 0 then Some (Inr (TC_INTERNAL_ERROR, None), g')
                         else (case rlpEncode tx [] True of
                                 Inl e \<Rightarrow> Some (Inl e, g')
                               | Inr out \<Rightarrow>
                                   if length out > TX_BUF_SIZE then Some (Inr (TC_INTERNAL_ERROR, None), g')
                                   else Some (Inr (TC_SUCCESS, Some out), g')))))"

section \<open>What the bytes mean\<close>

text \<open>The payload of an RLP list, read off the front of the input in its canonical form.\<close>

definition rlp_decode_list :: "bytes \<Rightarrow> (bytes \<times> bytes) option" where
  "rlp_decode_list inp =
     (case inp of
        [] \<Rightarrow> None
      | b # rest \<Rightarrow>
          (let t = unat b in
           if t < 192 then None
           else if t < 248 then
             (let n = t - 192 in if length rest < n then None else Some (take n rest, drop n rest))
           else
             (let k = t - 247; n = be_val (take k rest); body = drop k rest in
              if length rest < k \<or> hd rest = 0 \<or> n < 56 \<or> length body < n then None
              else Some (take n body, drop n body))))"

text \<open>A signed or unsigned transaction from its bytes: the strings of the one list they hold.\<close>

definition tx_decode :: "bytes \<Rightarrow> bytes list option" where
  "tx_decode inp =
     (case rlp_decode_list inp of
        Some (payload, []) \<Rightarrow> decode_all rlp_decode_string payload
      | _ \<Rightarrow> None)"

definition tx_fields :: "transaction \<Rightarrow> bool \<Rightarrow> bytes list" where
  "tx_fields tx withSig =
     [m_nonce tx, m_gasPrice tx, m_gas tx] @ (if m_type tx = MessageCall then [m_to tx] else [])
     @ [m_value tx, m_data tx] @ (if withSig then [[tx_v tx], tx_r tx, tx_s tx] else [])"

lemma itob_be_bytes: "w \<noteq> 0 \<Longrightarrow> itob w 0 = be_bytes (unat (byte_length w)) w"
  by (simp add: itob_eq)

lemma rlp_item_eq: "length buf < 2 ^ 64 \<Longrightarrow> rlp_item (Some buf) out = rlp_string buf out"
proof -
  assume l: "length buf < 2 ^ 64"
  have "word_of_nat (length buf) \<noteq> (0 :: u64)" if "56 \<le> length buf"
  proof
    assume "word_of_nat (length buf) = (0 :: u64)"
    then have "unat (word_of_nat (length buf) :: u64) = 0" by simp
    then show False using l that by (simp add: unat_of_nat)
  qed
  then show ?thesis
    by (simp add: rlp_item_def rlp_string_def Let_def bytesRequired_def byte_length_not_gt_8 itob_be_bytes)
qed

lemma length_rlp_enc: "length s \<le> length (rlp_enc s) \<and> length (rlp_enc s) \<le> length s + 9"
proof -
  consider (single) "length s = 1" "hd s < 0x80"
    | (short) "length s < 56" "\<not> (length s = 1 \<and> hd s < 0x80)"
    | (long) "56 \<le> length s" by linarith
  then show ?thesis
  proof cases
    case long
    then show ?thesis
      using byte_length_le_8 [of "word_of_nat (length s)"] by (simp add: rlp_enc_long length_itob)
  qed (simp_all add: rlp_enc_single rlp_enc_short)
qed

lemma length_concat_rlp: "s \<in> set ss \<Longrightarrow> length s \<le> length (concat (map rlp_enc ss))"
  using length_rlp_enc by (induction ss) (auto intro: trans_le_add1 trans_le_add2 order_trans)

lemma length_concat_rlp_le:
  "length (concat (map rlp_enc ss)) \<le> sum_list (map length ss) + 9 * length ss"
proof (induction ss)
  case (Cons s ss)
  then show ?case using length_rlp_enc [of s] by simp
qed simp

lemma rlpEncode_eq:
  "rlpEncode tx [] withSig = Inr (rlp_list_header (concat (map rlp_enc (tx_fields tx withSig))))"
  by (simp add: rlpEncode_def bytes_to_rlp_def rlp_item_eq rlp_string_eq tx_fields_def)

lemma rlp_decode_list_header:
  assumes "length p < 2 ^ 32"
  shows "rlp_decode_list (rlp_list_header p @ r) = Some (p, r)"
proof (cases "length p < 56")
  case True
  have "unat (0xc0 + word_of_nat (length p) :: byte) = 192 + length p"
    using True by (simp add: unat_word_ariths unat_of_nat)
  then show ?thesis using True by (simp add: rlp_list_header_def rlp_decode_list_def Let_def)
next
  case False
  let ?w = "word_of_nat (length p) :: u64"
  let ?k = "unat (byte_length ?w)"
  have uw: "unat ?w = length p" using assms by (simp add: unat_of_nat)
  then have nz: "?w \<noteq> 0" using False by auto
  have lo: "256 ^ (?k - 1) \<le> length p" using byte_length_lower [OF nz] uw by simp
  have k4: "?k \<le> 4"
  proof (rule ccontr)
    assume "\<not> ?k \<le> 4"
    then have "(256 :: nat) ^ 4 \<le> 256 ^ (?k - 1)" by (intro power_increasing) simp_all
    with lo assms show False by simp
  qed
  then have n4: "\<not> byte_length ?w > 4" by (simp add: word_less_nat_alt)
  have k: "0 < ?k" using byte_length_pos [OF nz] by simp
  have t: "unat (0xf7 + byte_length ?w) = 247 + ?k" using k4 by (simp add: unat_word_ariths)
  have h: "be_bytes ?k ?w = itob ?w 0" using itob_be_bytes [OF nz] by simp
  have lk: "length (itob ?w 0) = ?k" by (simp add: length_itob)
  have v: "be_val (itob ?w 0) = length p" by (simp add: be_val_itob uw)
  have hd0: "itob ?w 0 \<noteq> []" "hd (itob ?w 0) \<noteq> 0" using itob_canonical [OF nz] by auto
  show ?thesis
    using False n4 k hd0
    by (simp add: rlp_list_header_def rlp_decode_list_def Let_def bytesRequired_def h t lk v)
qed

lemma tx_decode_rlpEncode:
  assumes "length (concat (map rlp_enc (tx_fields tx withSig))) < 2 ^ 32"
    and "rlpEncode tx [] withSig = Inr out"
  shows "tx_decode out = Some (tx_fields tx withSig)"
proof -
  let ?p = "concat (map rlp_enc (tx_fields tx withSig))"
  have ok: "list_all rlp_ok (tx_fields tx withSig)"
    using length_concat_rlp [of _ "tx_fields tx withSig"] assms(1)
    by (fastforce simp: list_all_iff rlp_ok_def)
  have "out = rlp_list_header ?p" using assms(2) by (simp add: rlpEncode_eq)
  then show ?thesis
    using rlp_decode_list_header [OF assms(1), of "[]"] rlp.decode_all_concat [OF ok]
    by (simp add: tx_decode_def)
qed

section \<open>The outcome of \<open>form_transaction\<close>\<close>

text \<open>The call data, written down directly.\<close>

definition deliver_selector :: bytes where
  "deliver_selector = take 4 (spec_keccak (bytes_of DELIVER_CALL_SIGNATURE) 32)"

definition deliver_call_data :: "u64 \<Rightarrow> byte \<Rightarrow> bytes \<Rightarrow> u64 \<Rightarrow> bytes \<Rightarrow> bytes" where
  "deliver_call_data request_id request_type request_data resp_error resp =
     deliver_selector @ abi_uint request_id @ spec_keccak (request_type # request_data) 32
     @ abi_uint resp_error @ (if resp_error \<noteq> 0 then replicate 32 0 else take 32 resp)"

definition delivery_tx :: "i32 \<Rightarrow> bytes \<Rightarrow> bytes \<Rightarrow> transaction" where
  "delivery_tx nonce addr call =
     \<lparr>m_type = MessageCall, m_nonce = itob (scast nonce) 0, m_gasPrice = itob GASPRICE 0,
      m_gas = itob GASLIMIT 0, m_to = addr, m_value = [], m_data = call,
      tx_r = bytes32_zero, tx_s = bytes32_zero, tx_v = 0\<rparr>"

lemma param_hash_eq: "param_hash t d = Inr (spec_keccak (t # d) 32)"
  by (simp add: param_hash_def keccak_32 bytes32_of_buffer_def)

lemma delivery_call_eq:
  assumes "length hash = 32" and "length resp = 32"
  shows "delivery_call i hash err resp
    = Inr (0, deliver_selector @ abi_uint i @ hash @ abi_uint err @ resp)"
proof -
  have "encode (ABI_Generic_Array [ABI_UInt64 i, ABI_Bytes32 hash, ABI_UInt64 err, ABI_Bytes32 resp]) []
      = Inr (0, abi_uint i @ hash @ abi_uint err @ resp)"
    using encode_static_array [of "[ABI_UInt64 i, ABI_Bytes32 hash, ABI_UInt64 err, ABI_Bytes32 resp]" "[]"]
      assms by simp
  then show ?thesis by (simp add: delivery_call_def keccak_32 deliver_selector_def)
qed

lemma zero_word: "bytes32_reset (bytes32_of_uint64 0) = replicate 32 0"
  by (simp add: bytes32_reset_def bytes32_of_uint64_def itob_eq)

lemma itob_0: "itob 0 0 = []"
  by (simp add: itob_def)

definition response_ok :: "u64 \<Rightarrow> bytes \<Rightarrow> bool" where
  "response_ok resp_error resp_data \<longleftrightarrow> resp_error \<noteq> 0 \<or> 32 \<le> length resp_data"

lemma response_word_eq:
  "response_word e d =
     (if response_ok e d then Inr (if e \<noteq> 0 then replicate 32 0 else take 32 d) else Inl UB)"
  by (auto simp: response_word_def response_ok_def zero_word)

lemma unsigned_transaction_eq:
  "unsigned_transaction env nonce i t d e resp =
     (if \<not> response_ok e resp then Inl UB
      else bind_res (getContractAddress env) (\<lambda>a.
           bind_res (bytes20_of_hex (c_str a)) (\<lambda>addr.
             let tx = delivery_tx nonce addr (deliver_call_data i t d e resp)
             in Inr (Inr (tx, rlp_list_header (concat (map rlp_enc (tx_fields tx False))))))))"
proof (cases "response_ok e resp")
  case False
  then show ?thesis by (simp add: unsigned_transaction_def param_hash_eq response_word_eq)
next
  case True
  let ?w = "if e \<noteq> 0 then replicate 32 0 else take 32 resp"
  have l: "length ?w = 32" using True by (auto simp: response_ok_def)
  have c: "delivery_call i (spec_keccak (t # d) 32) e ?w = Inr (0, deliver_call_data i t d e resp)"
    using delivery_call_eq [OF keccak_32(2) l, of i "t # d" e] by (simp add: deliver_call_data_def)
  show ?thesis
    using True c
    by (auto simp: unsigned_transaction_def param_hash_eq response_word_eq new_transaction_def
        parseUInt64_def itob_0 delivery_tx_def rlpEncode_eq Let_def bind_res_def split: sum.splits)
qed

lemma length_deliver_call_data:
  "response_ok e resp \<Longrightarrow> length (deliver_call_data i t d e resp) = 132"
  by (auto simp: deliver_call_data_def deliver_selector_def keccak_32 response_ok_def)

lemma bytes20_of_hex_length: "bytes20_of_hex h = Inr a \<Longrightarrow> length a = 20"
  by (auto simp: bytes20_of_hex_def bind_res_Inr_iff split: if_splits)

lemma length_itob_0: "length (itob w 0) \<le> 8"
  using byte_length_le_8 [of w] by (simp add: length_itob)

lemma length_delivery_fields:
  assumes "length addr = 20" and "length call = 132" and "length r = 32" and "length s = 32"
  shows "length (concat (map rlp_enc
      (tx_fields ((delivery_tx nonce addr call)\<lparr>tx_r := r, tx_s := s, tx_v := v\<rparr>) True))) \<le> 322"
  using length_concat_rlp_le [of "tx_fields ((delivery_tx nonce addr call)\<lparr>tx_r := r, tx_s := s, tx_v := v\<rparr>) True"]
    length_itob_0 [of "scast nonce"] length_itob_0 [of GASPRICE] length_itob_0 [of GASLIMIT] assms
  by (simp add: tx_fields_def delivery_tx_def)

lemma length_rlp_list_header: "length (rlp_list_header p) \<le> length p + 5"
  by (auto simp: rlp_list_header_def Let_def word_less_nat_alt)

text \<open>The bytes that are signed, and the transaction with its signature.\<close>

definition signing_hash :: "i32 \<Rightarrow> bytes \<Rightarrow> bytes \<Rightarrow> bytes" where
  "signing_hash nonce addr call =
     spec_keccak (rlp_list_header (concat (map rlp_enc (tx_fields (delivery_tx nonce addr call) False)))) 32"

definition signed_bytes :: "i32 \<Rightarrow> bytes \<Rightarrow> bytes \<Rightarrow> bytes \<Rightarrow> bytes \<Rightarrow> byte \<Rightarrow> bytes" where
  "signed_bytes nonce addr call r s v =
     rlp_list_header (concat (map rlp_enc
       (tx_fields ((delivery_tx nonce addr call)\<lparr>tx_r := r, tx_s := s, tx_v := v\<rparr>) True)))"

definition zero_sig :: sig_buffers where
  "zero_sig = \<lparr>sig_rr = bytes32_zero, sig_ss = bytes32_zero, sig_vv = None\<rparr>"

lemma ecdsa_sign_lengths:
  assumes "ecdsa_sign C f_rng key data out room g = Some (Inr (ret, out'), g')"
    and "length (sig_rr out) = 32" and "length (sig_ss out) = 32"
  shows "length (sig_rr out') = 32 \<and> length (sig_ss out') = 32"
proof -
  have o: "length (overwritten old (mpi_write_binary x 32)) = 32" if "length old = 32" for old x
    using that by (auto simp: overwritten_def mpi_write_binary_def)
  show ?thesis
    using assms by (auto simp: ecdsa_sign_def Let_def o split: option.splits sum.splits if_splits prod.splits)
qed

lemma signed_bytes_short:
  assumes "length addr = 20" and "length call = 132" and "length r = 32" and "length s = 32"
  shows "length (signed_bytes nonce addr call r s v) \<le> 327"
  unfolding signed_bytes_def
  using length_delivery_fields [OF assms, where nonce = nonce and v = v]
    length_rlp_list_header [of "concat (map rlp_enc
      (tx_fields ((delivery_tx nonce addr call)\<lparr>tx_r := r, tx_s := s, tx_v := v\<rparr>) True))"]
  by linarith

text \<open>With a signature, the outcome is decided by the signing routine.\<close>

lemma form_transaction_signed:
  assumes resp: "response_ok e resp" and addr: "getContractAddress env = Inr a" "bytes20_of_hex (c_str a) = Inr addr"
    and call_def: "call = deliver_call_data i t d e resp"
  shows "form_transaction C f_rng key env nonce i t d e resp True True g =
    (case ecdsa_sign C f_rng key (signing_hash nonce addr call) zero_sig 8 g of
       None \<Rightarrow> None
     | Some (Inl f, g') \<Rightarrow> Some (Inl f, g')
     | Some (Inr (ret, sig), g') \<Rightarrow>
         if ret \<noteq> 0 then Some (Inr (TC_INTERNAL_ERROR, None), g')
         else Some (Inr (TC_SUCCESS, Some (signed_bytes nonce addr call (sig_rr sig) (sig_ss sig)
                (case sig_vv sig of None \<Rightarrow> 0 | Some v \<Rightarrow> v))), g'))"
proof -
  have z: "\<lparr>sig_rr = bytes32_zero, sig_ss = bytes32_zero, sig_vv = None\<rparr> = zero_sig"
    by (simp add: zero_sig_def)
  have short: "\<not> length (signed_bytes nonce addr call (sig_rr sig) (sig_ss sig) v) > TX_BUF_SIZE"
    if "ecdsa_sign C f_rng key (signing_hash nonce addr call) zero_sig 8 g = Some (Inr (ret, sig), g')"
    for ret sig g' v
    using signed_bytes_short [OF bytes20_of_hex_length [OF addr(2)], of call "sig_rr sig" "sig_ss sig", where nonce = nonce and v = v]
      length_deliver_call_data [OF resp] ecdsa_sign_lengths [OF that]
    by (simp add: zero_sig_def bytes32_zero_def call_def TX_BUF_SIZE_def)
  have u: "unsigned_transaction env nonce i t d e resp
      = Inr (Inr (delivery_tx nonce addr call,
          rlp_list_header (concat (map rlp_enc (tx_fields (delivery_tx nonce addr call) False)))))"
    using resp addr by (simp add: unsigned_transaction_eq call_def Let_def)
  have f: "tx_r (delivery_tx nonce addr call) = bytes32_zero" "tx_s (delivery_tx nonce addr call) = bytes32_zero"
      "tx_v (delivery_tx nonce addr call) = 0"
      "(delivery_tx nonce addr call)\<lparr>tx_r := bytes32_zero, tx_s := bytes32_zero\<rparr> = delivery_tx nonce addr call"
    by (simp_all add: delivery_tx_def)
  show ?thesis
    using short
    by (auto simp: form_transaction_def u keccak_32 sign_transaction_def f z Let_def rlpEncode_eq
        signing_hash_def [symmetric] signed_bytes_def [symmetric]
        split: option.splits sum.splits prod.splits)
qed

lemma form_transaction_unsigned:
  assumes resp: "response_ok e resp" and addr: "getContractAddress env = Inr a" "bytes20_of_hex (c_str a) = Inr addr"
  shows "form_transaction C f_rng key env nonce i t d e resp True False g =
    Some (Inr (TC_SUCCESS, Some (signed_bytes nonce addr (deliver_call_data i t d e resp)
      (replicate 32 0) (replicate 32 0) 27)), g)"
proof -
  let ?call = "deliver_call_data i t d e resp"
  have u: "unsigned_transaction env nonce i t d e resp
      = Inr (Inr (delivery_tx nonce addr ?call,
          rlp_list_header (concat (map rlp_enc (tx_fields (delivery_tx nonce addr ?call) False)))))"
    using resp addr by (simp add: unsigned_transaction_eq Let_def)
  have "\<not> length (signed_bytes nonce addr ?call (replicate 32 0) (replicate 32 0) 27) > TX_BUF_SIZE"
    using signed_bytes_short [OF bytes20_of_hex_length [OF addr(2)] length_deliver_call_data [OF resp],
        of "replicate 32 0" "replicate 32 0", where nonce = nonce and v = 27 and i1 = i and t1 = t and d1 = d]
    by (simp add: TX_BUF_SIZE_def)
  then show ?thesis
    by (simp add: form_transaction_def u keccak_32 sign_transaction_def Let_def rlpEncode_eq
        signed_bytes_def delivery_tx_def)
qed

lemma form_transaction_refused:
  "form_transaction C f_rng key env nonce i t d e resp bufs with_sig g =
     (if \<not> bufs then Some (Inr (TC_INTERNAL_ERROR, None), g)
      else if \<not> response_ok e resp then Some (Inl UB, g)
      else case getContractAddress env of
             Inl f \<Rightarrow> Some (Inl f, g)
           | Inr a \<Rightarrow>
               (case bytes20_of_hex (c_str a) of
                  Inl f \<Rightarrow> Some (Inl f, g)
                | Inr addr \<Rightarrow> form_transaction C f_rng key env nonce i t d e resp True with_sig g))"
  by (auto simp: form_transaction_def unsigned_transaction_eq bind_res_def Let_def split: sum.splits)

lemma form_transaction_meaning:
  assumes run: "form_transaction C f_rng key env nonce i t d e resp bufs with_sig g = Some (Inr (ret, Some out), g')"
  shows "ret = TC_SUCCESS \<and> length out \<le> TX_BUF_SIZE
    \<and> (\<exists>a addr r s v. getContractAddress env = Inr a \<and> bytes20_of_hex (c_str a) = Inr addr
        \<and> tx_decode out = Some [itob (scast nonce) 0, itob GASPRICE 0, itob GASLIMIT 0, addr, [],
             deliver_call_data i t d e resp, [v], r, s]
        \<and> length r = 32 \<and> length s = 32
        \<and> (if with_sig then
             (\<exists>sig. ecdsa_sign C f_rng key (signing_hash nonce addr (deliver_call_data i t d e resp)) zero_sig 8 g
                = Some (Inr (0, sig), g') \<and> r = sig_rr sig \<and> s = sig_ss sig
                \<and> v = (case sig_vv sig of None \<Rightarrow> 0 | Some v \<Rightarrow> v))
           else r = replicate 32 0 \<and> s = replicate 32 0 \<and> v = 27 \<and> g' = g))"
proof -
  let ?call = "deliver_call_data i t d e resp"
  have b: "bufs" and ok: "response_ok e resp"
    using run form_transaction_refused [of C f_rng key env nonce i t d e resp bufs with_sig g]
    by (auto split: if_splits)
  obtain a where a: "getContractAddress env = Inr a"
    using run form_transaction_refused [of C f_rng key env nonce i t d e resp bufs with_sig g] b ok
    by (auto split: sum.splits)
  obtain addr where addr: "bytes20_of_hex (c_str a) = Inr addr"
    using run form_transaction_refused [of C f_rng key env nonce i t d e resp bufs with_sig g] b ok a
    by (auto split: sum.splits)
  obtain r s v where out: "ret = TC_SUCCESS" "out = signed_bytes nonce addr ?call r s v"
      "length r = 32" "length s = 32"
    and sig: "if with_sig then
             (\<exists>sig. ecdsa_sign C f_rng key (signing_hash nonce addr ?call) zero_sig 8 g
                = Some (Inr (0, sig), g') \<and> r = sig_rr sig \<and> s = sig_ss sig
                \<and> v = (case sig_vv sig of None \<Rightarrow> 0 | Some v \<Rightarrow> v))
           else r = replicate 32 0 \<and> s = replicate 32 0 \<and> v = 27 \<and> g' = g"
  proof (cases with_sig)
    case True
    then obtain sg where sg: "ecdsa_sign C f_rng key (signing_hash nonce addr ?call) zero_sig 8 g
          = Some (Inr (0, sg), g')" "ret = TC_SUCCESS"
        "out = signed_bytes nonce addr ?call (sig_rr sg) (sig_ss sg)
          (case sig_vv sg of None \<Rightarrow> 0 | Some v \<Rightarrow> v)"
      using run b form_transaction_signed [OF ok a addr refl, of C f_rng key nonce i t d g]
      by (auto split: option.splits sum.splits if_splits)
    moreover have "length (sig_rr sg) = 32" "length (sig_ss sg) = 32"
      using ecdsa_sign_lengths [OF sg(1)] by (simp_all add: zero_sig_def bytes32_zero_def)
    ultimately show thesis using True that by auto
  next
    case False
    then show thesis
      using run b form_transaction_unsigned [OF ok a addr, of C f_rng key nonce i t d g] that by auto
  qed
  let ?tx = "(delivery_tx nonce addr ?call)\<lparr>tx_r := r, tx_s := s, tx_v := v\<rparr>"
  have la: "length addr = 20" by (rule bytes20_of_hex_length [OF addr])
  have lc: "length ?call = 132" by (rule length_deliver_call_data [OF ok])
  have "length (concat (map rlp_enc (tx_fields ?tx True))) < 2 ^ 32"
    using length_delivery_fields [OF la lc out(3,4), where nonce = nonce and v = v] by simp
  then have "tx_decode out = Some (tx_fields ?tx True)"
    by (rule tx_decode_rlpEncode) (simp add: rlpEncode_eq out(2) signed_bytes_def)
  moreover have "tx_fields ?tx True = [itob (scast nonce) 0, itob GASPRICE 0, itob GASLIMIT 0, addr, [],
             ?call, [v], r, s]"
    by (simp add: tx_fields_def delivery_tx_def)
  moreover have "length out \<le> TX_BUF_SIZE"
    using signed_bytes_short [OF la lc out(3,4), where nonce = nonce and v = v] by (simp add: out(2) TX_BUF_SIZE_def)
  ultimately show ?thesis using out sig a addr by auto
qed

section \<open>Properties\<close>

text \<open>C3: A delivery transaction means what it should: whenever \<open>form_transaction\<close> hands out bytes, it
  returns \<open>TC_SUCCESS\<close>, the bytes fit the 2048-byte buffer and decode as one RLP list whose
  strings are the nonce, the gas price and limit, the contract address, no value, the call
  \<open>deliver(id, hash of type and request, error, response word)\<close> and a signature; the
  signature is the one \<open>ecdsa_sign\<close> makes of the hash of the first six, or the dummy one.\<close>

theorem form_transaction_delivers:
  assumes run: "form_transaction C f_rng key env nonce i t d e resp bufs with_sig g = Some (Inr (ret, Some out), g')"
  shows "ret = TC_SUCCESS \<and> length out \<le> TX_BUF_SIZE
    \<and> (\<exists>a addr r s v. getContractAddress env = Inr a \<and> bytes20_of_hex (c_str a) = Inr addr
        \<and> tx_decode out = Some [itob (scast nonce) 0, itob GASPRICE 0, itob GASLIMIT 0, addr, [],
             deliver_call_data i t d e resp, [v], r, s]
        \<and> length r = 32 \<and> length s = 32
        \<and> (if with_sig then
             (\<exists>sig. ecdsa_sign C f_rng key (signing_hash nonce addr (deliver_call_data i t d e resp)) zero_sig 8 g
                = Some (Inr (0, sig), g') \<and> r = sig_rr sig \<and> s = sig_ss sig
                \<and> v = (case sig_vv sig of None \<Rightarrow> 0 | Some v \<Rightarrow> v))
           else r = replicate 32 0 \<and> s = replicate 32 0 \<and> v = 27 \<and> g' = g))"
  by (rule form_transaction_meaning [OF run])

definition sample_env :: g_env where
  "sample_env = init_enclave_kv_store ''0x89b44e4d3c81ede05d0f5de8d1a68f754d73d997'' None"

definition sample_addr :: bytes where
  "sample_addr = [0x89, 0xb4, 0x4e, 0x4d, 0x3c, 0x81, 0xed, 0xe0, 0x5d, 0x0f, 0x5d, 0xe8, 0xd1, 0xa6,
     0x8f, 0x75, 0x4d, 0x73, 0xd9, 0x97]"

lemma sample_address:
  "getContractAddress sample_env = Inr ''0x89b44e4d3c81ede05d0f5de8d1a68f754d73d997''"
  "bytes20_of_hex (c_str ''0x89b44e4d3c81ede05d0f5de8d1a68f754d73d997'') = Inr sample_addr"
  by code_simp+

theorem form_transaction_delivers_witness:
  "\<exists>out. form_transaction tiny_curve tiny_rng None sample_env 7 1 2 [3, 4] 3 [] True False 0
       = Some (Inr (TC_SUCCESS, Some out), 0)
     \<and> tx_decode out = Some [itob (scast (7 :: i32)) 0, itob GASPRICE 0, itob GASLIMIT 0, sample_addr, [],
          deliver_call_data 1 2 [3, 4] 3 [], [27], replicate 32 0, replicate 32 0]"
proof -
  have ok: "response_ok 3 []" by (simp add: response_ok_def)
  note run = form_transaction_unsigned [OF ok sample_address, of tiny_curve tiny_rng None 7 1 2 "[3, 4]" 0]
  show ?thesis
    using form_transaction_delivers [OF run] run sample_address by auto
qed

text \<open>C4: What stops \<open>form_transaction\<close> before signing: null output buffers give
  \<open>TC_INTERNAL_ERROR\<close>; a response without error that is shorter than 32 bytes is read past
  its end; a missing environment is a null dereference; a contract address that is not 20
  bytes of hexadecimal throws \<open>invalid_argument\<close> out of the function, past its handlers.
  Otherwise the unsigned variant always succeeds.\<close>

theorem form_transaction_guards:
  "let run = form_transaction C f_rng key env nonce i t d e resp bufs False g in
   if \<not> bufs then run = Some (Inr (TC_INTERNAL_ERROR, None), g)
   else if e = 0 \<and> length resp < 32 then run = Some (Inl UB, g)
   else case env of
          None \<Rightarrow> run = Some (Inl UB, g)
        | Some m \<Rightarrow>
            (case bytes20_of_hex (c_str (env_get TC_ADDR_MAP_KEY m)) of
               Inl f \<Rightarrow> run = Some (Inl f, g) \<and> (\<exists>msg. f = Throw (Invalid_argument msg))
             | Inr addr \<Rightarrow> \<exists>out. run = Some (Inr (TC_SUCCESS, Some out), g))"
proof -
  have inv: "\<exists>msg. f = Throw (Invalid_argument msg)" if "bytes20_of_hex (c_str h) = Inl f" for h f
    using that from_hex_Inl [of "c_str h"]
    by (auto simp: bytes20_of_hex_def bind_res_def split: sum.splits if_splits)
  show ?thesis
  proof (cases "bufs \<and> response_ok e resp")
    case False
    then show ?thesis
      using form_transaction_refused [of C f_rng key env nonce i t d e resp bufs False g]
      by (auto simp: Let_def response_ok_def)
  next
    case True
    then have b: "bufs" and ok: "response_ok e resp" and ne: "\<not> (e = 0 \<and> length resp < 32)"
      by (auto simp: response_ok_def)
    note step = form_transaction_refused [of C f_rng key env nonce i t d e resp True False g, simplified]
    show ?thesis
    proof (cases env)
      case None
      then show ?thesis using step b ok ne by (simp add: getContractAddress_def get_env_def)
    next
      case (Some m)
      then have a: "getContractAddress env = Inr (env_get TC_ADDR_MAP_KEY m)"
        by (simp add: getContractAddress_def get_env_def)
      show ?thesis
      proof (cases "bytes20_of_hex (c_str (env_get TC_ADDR_MAP_KEY m))")
        case (Inl f)
        then show ?thesis using step b ok ne a Some inv [OF Inl] by (auto simp: Let_def)
      next
        case (Inr addr)
        then show ?thesis
          using form_transaction_unsigned [OF ok a Inr, of C f_rng key nonce i t d g] b ne Some
          by (simp add: Let_def)
      qed
    qed
  qed
qed

text \<open>The serialisation of any transaction below 4 GB decodes to its fields, in order, and the
  deprecated \<open>rlp_item\<close> writes the same bytes as \<open>rlp_string\<close> for every buffer but a null one.\<close>

theorem rlpEncode_roundtrip:
  assumes "length (concat (map rlp_enc (tx_fields tx withSig))) < 2 ^ 32" and "length buf < 2 ^ 64"
  shows "(\<exists>out. rlpEncode tx [] withSig = Inr out \<and> tx_decode out = Some (tx_fields tx withSig))
    \<and> rlp_item (Some buf) acc = rlp_string buf acc
    \<and> rlp_item None acc = Inl (Throw (Invalid_argument ''NULL input''))"
  using tx_decode_rlpEncode [OF assms(1) rlpEncode_eq] rlp_item_eq [OF assms(2)]
  by (simp add: rlpEncode_eq rlp_item_def)

theorem rlpEncode_roundtrip_witness:
  "\<exists>out. rlpEncode (delivery_tx 7 [1, 2] [3]) [] True = Inr out
     \<and> tx_decode out = Some (tx_fields (delivery_tx 7 [1, 2] [3]) True)"
proof -
  have l: "length (concat (map rlp_enc (tx_fields (delivery_tx 7 [1, 2] [3]) True))) < 2 ^ 32"
    using length_concat_rlp_le [of "tx_fields (delivery_tx 7 [1, 2] [3]) True"]
      length_itob_0 [of "scast (7 :: i32)"] length_itob_0 [of GASPRICE] length_itob_0 [of GASLIMIT]
    by (simp add: tx_fields_def delivery_tx_def bytes32_zero_def)
  show ?thesis using rlpEncode_roundtrip [OF l, of "[]" "[]"] by simp
qed

end
