(* ===== verification/Base64.thy ===== *)
theory Base64
  imports Prelude
begin

text \<open>
  The base64 codec that carries encrypted requests (\<open>Common/external/base64.cpp\<close>).  The
  encoder works on groups of three bytes, the decoder is a four-state machine that writes
  into a target buffer of fixed size, ORing the pieces of each byte; a result of -1 is
  \<open>None\<close>.  The lemmas show that the decoder inverts the encoder in any buffer with room for
  the bytes, and that white space anywhere is ignored.
\<close>

section \<open>Model\<close>

definition Base64_alphabet :: string where
  "Base64_alphabet = ''ABCDEFGHIJKLMNOPQRSTUVWXYZabcdefghijklmnopqrstuvwxyz0123456789+/''"

definition Pad64 :: char where
  "Pad64 = CHR ''=''"

text \<open>\<open>Base64[v]\<close> for a value below 64.\<close>

definition b64_char :: "byte \<Rightarrow> char" where
  "b64_char v = Base64_alphabet ! unat v"

text \<open>The encoder: the groups, then the padded rest; \<open>acc\<close> is what has been written.\<close>

fun ntop_loop :: "bytes \<Rightarrow> nat \<Rightarrow> string \<Rightarrow> string option" where
  "ntop_loop (i0 # i1 # i2 # src) targsize acc =
     (let o0 = drop_bit 2 i0;
          o1 = push_bit 4 (i0 AND 0x03) + drop_bit 4 i1;
          o2 = push_bit 2 (i1 AND 0x0f) + drop_bit 6 i2;
          o3 = i2 AND 0x3f
      in if length acc + 4 > targsize then None
         else ntop_loop src targsize (acc @ [b64_char o0, b64_char o1, b64_char o2, b64_char o3]))"
| "ntop_loop [i0, i1] targsize acc =
     (let o0 = drop_bit 2 i0;
          o1 = push_bit 4 (i0 AND 0x03) + drop_bit 4 i1;
          o2 = push_bit 2 (i1 AND 0x0f)
      in if length acc + 4 > targsize then None
         else Some (acc @ [b64_char o0, b64_char o1, b64_char o2, Pad64]))"
| "ntop_loop [i0] targsize acc =
     (let o0 = drop_bit 2 i0;
          o1 = push_bit 4 (i0 AND 0x03)
      in if length acc + 4 > targsize then None
         else Some (acc @ [b64_char o0, b64_char o1, Pad64, Pad64]))"
| "ntop_loop [] targsize acc = Some acc"

text \<open>The characters written before the NUL, whose number the function returns.\<close>

definition b64_ntop :: "bytes \<Rightarrow> nat \<Rightarrow> string option" where
  "b64_ntop src targsize =
     (case ntop_loop src targsize [] of
        None \<Rightarrow> None
      | Some out \<Rightarrow> if length out \<ge> targsize then None else Some out)"

text \<open>\<open>isspace\<close> in the C locale, and the position \<open>strchr\<close> finds.\<close>

definition isspace :: "char \<Rightarrow> bool" where
  "isspace c \<longleftrightarrow> of_char c = (32 :: nat) \<or> (9 \<le> (of_char c :: nat) \<and> (of_char c :: nat) \<le> 13)"

fun index_of :: "'a \<Rightarrow> 'a list \<Rightarrow> nat option" where
  "index_of c [] = None"
| "index_of c (x # xs) = (if x = c then Some 0 else map_option Suc (index_of c xs))"

text \<open>
  One base64 digit with value \<open>p\<close> in a state of the machine: the new state, index and buffer.
\<close>

definition pton_digit :: "byte \<Rightarrow> nat \<Rightarrow> nat \<Rightarrow> bytes \<Rightarrow> (nat \<times> nat \<times> bytes) option" where
  "pton_digit p state tarindex target =
     (if tarindex \<ge> length target then None
      else if state = 0 then Some (1, tarindex, target[tarindex := push_bit 2 p])
      else if state = 1 then
        (let target = target[tarindex := target ! tarindex OR drop_bit 4 p];
             nextbyte = push_bit 4 (p AND 0x0f)
         in if tarindex + 1 < length target then Some (2, tarindex + 1, target[tarindex + 1 := nextbyte])
            else if nextbyte \<noteq> 0 then None else Some (2, tarindex + 1, target))
      else if state = 2 then
        (let target = target[tarindex := target ! tarindex OR drop_bit 2 p];
             nextbyte = push_bit 6 (p AND 0x03)
         in if tarindex + 1 < length target then Some (3, tarindex + 1, target[tarindex + 1 := nextbyte])
            else if nextbyte \<noteq> 0 then None else Some (3, tarindex + 1, target))
      else Some (0, tarindex + 1, target[tarindex := target ! tarindex OR p]))"

text \<open>The loop, which stops at the end of the string or in front of a pad character.\<close>

fun pton_loop :: "string \<Rightarrow> nat \<Rightarrow> nat \<Rightarrow> bytes \<Rightarrow> (nat \<times> nat \<times> bytes \<times> string) option" where
  "pton_loop [] state tarindex target = Some (state, tarindex, target, [])"
| "pton_loop (ch # src) state tarindex target =
     (if isspace ch then pton_loop src state tarindex target
      else if ch = Pad64 then Some (state, tarindex, target, ch # src)
      else case index_of ch Base64_alphabet of
             None \<Rightarrow> None
           | Some pos \<Rightarrow>
               (case pton_digit (word_of_nat pos) state tarindex target of
                  None \<Rightarrow> None
                | Some (state, tarindex, target) \<Rightarrow> pton_loop src state tarindex target))"

text \<open>
  The checks after the loop: \<open>rest\<close> starts with the pad character where the loop stopped.
  In state 2 another pad character must follow, then only white space; the bits of the last
  digit that did not fit a byte must be zero.
\<close>

definition pton_pad :: "nat \<Rightarrow> nat \<Rightarrow> bytes \<Rightarrow> string \<Rightarrow> nat option" where
  "pton_pad state tarindex target rest =
     (if rest = [] then (if state \<noteq> 0 then None else Some tarindex)
      else if state = 0 \<or> state = 1 then None
      else
        (let after = tl rest;
             after' = (if state = 2 then
                         (case dropWhile isspace after of
                            [] \<Rightarrow> None
                          | ch # more \<Rightarrow> if ch \<noteq> Pad64 then None else Some more)
                       else Some after)
         in case after' of
              None \<Rightarrow> None
            | Some more \<Rightarrow>
                if \<not> list_all isspace more then None
                else if tarindex < length target \<and> target ! tarindex \<noteq> 0 then None
                else Some tarindex))"

text \<open>The number of bytes stored and the buffer.\<close>

definition b64_pton :: "string \<Rightarrow> bytes \<Rightarrow> (nat \<times> bytes) option" where
  "b64_pton src target =
     (case pton_loop src 0 0 target of
        None \<Rightarrow> None
      | Some (state, tarindex, target, rest) \<Rightarrow>
          map_option (\<lambda>n. (n, target)) (pton_pad state tarindex target rest))"

section \<open>The alphabet\<close>

lemma alphabet_index: "v < 64 \<Longrightarrow> index_of (Base64_alphabet ! v) Base64_alphabet = Some v"
proof -
  have "list_all (\<lambda>v. index_of (Base64_alphabet ! v) Base64_alphabet = Some v) [0..<64]"
    by code_simp
  then show "v < 64 \<Longrightarrow> ?thesis" by (simp add: list_all_iff)
qed

lemma alphabet_plain: "v < 64 \<Longrightarrow> \<not> isspace (Base64_alphabet ! v) \<and> Base64_alphabet ! v \<noteq> Pad64"
proof -
  have "list_all (\<lambda>v. \<not> isspace (Base64_alphabet ! v) \<and> Base64_alphabet ! v \<noteq> Pad64) [0..<64]"
    by code_simp
  then show "v < 64 \<Longrightarrow> ?thesis" by (simp add: list_all_iff)
qed

lemma pton_loop_char:
  assumes "unat v < 64"
  shows "pton_loop (b64_char v # src) state i t =
    (case pton_digit v state i t of
       None \<Rightarrow> None
     | Some (state, i, t) \<Rightarrow> pton_loop src state i t)"
  using alphabet_index [OF assms] alphabet_plain [OF assms] by (simp add: b64_char_def)

section \<open>The bits of a group\<close>

lemma masks: "(0x03 :: byte) = mask 2" "(0x0f :: byte) = mask 4" "(0x3f :: byte) = mask 6"
  by (simp_all add: mask_eq_exp_minus_1)

lemma plus_or:
  fixes i0 i1 i2 :: byte
  shows "push_bit 4 (i0 AND mask 2) + drop_bit 4 i1 = push_bit 4 (i0 AND mask 2) OR drop_bit 4 i1"
    and "push_bit 2 (i1 AND mask 4) + drop_bit 6 i2 = push_bit 2 (i1 AND mask 4) OR drop_bit 6 i2"
  by (rule disjunctive_add, auto simp: bit_simps dest: bit_imp_le_length)+

lemma small: "(\<And>n. bit v n \<Longrightarrow> n < 6) \<Longrightarrow> unat (v :: byte) < 64"
proof -
  assume b: "\<And>n. bit v n \<Longrightarrow> n < 6"
  have "v = take_bit 6 v" by (rule bit_word_eqI) (auto simp: bit_simps b)
  then have "unat v = take_bit 6 (unat v)" by (metis unsigned_take_bit_eq)
  then show ?thesis using take_bit_nat_less_exp [of 6 "unat v"] by simp
qed

lemma digit_bounds:
  fixes i0 i1 i2 :: byte
  shows "unat (drop_bit 2 i0) < 64"
    and "unat (push_bit 4 (i0 AND 0x03) + drop_bit 4 i1) < 64"
    and "unat (push_bit 2 (i1 AND 0x0f) + drop_bit 6 i2) < 64"
    and "unat (i2 AND 0x3f) < 64"
    and "unat (push_bit 4 (i0 AND 0x03)) < 64"
    and "unat (push_bit 2 (i1 AND 0x0f)) < 64"
  unfolding masks plus_or
  by (rule small; auto simp: bit_simps dest: bit_imp_le_length)+

lemma group_bits:
  fixes i0 i1 i2 :: byte
  shows "push_bit 2 (drop_bit 2 i0) OR drop_bit 4 (push_bit 4 (i0 AND 0x03) + drop_bit 4 i1) = i0"
    and "push_bit 4 ((push_bit 4 (i0 AND 0x03) + drop_bit 4 i1) AND 0x0f)
           OR drop_bit 2 (push_bit 2 (i1 AND 0x0f) + drop_bit 6 i2) = i1"
    and "push_bit 6 ((push_bit 2 (i1 AND 0x0f) + drop_bit 6 i2) AND 0x03) OR (i2 AND 0x3f) = i2"
    and "push_bit 2 (drop_bit 2 i0) OR drop_bit 4 (push_bit 4 (i0 AND 0x03)) = i0"
    and "push_bit 4 (push_bit 4 (i0 AND 0x03) AND 0x0f) = 0"
    and "push_bit 4 ((push_bit 4 (i0 AND 0x03) + drop_bit 4 i1) AND 0x0f)
           OR drop_bit 2 (push_bit 2 (i1 AND 0x0f)) = i1"
    and "push_bit 6 (push_bit 2 (i1 AND 0x0f) AND 0x03) = 0"
  unfolding masks plus_or
  by (rule byte_eqI, elim insertE emptyE; simp add: bit_simps)+

section \<open>The encoder without its buffer\<close>

fun b64_enc :: "bytes \<Rightarrow> string" where
  "b64_enc (i0 # i1 # i2 # src) =
     [b64_char (drop_bit 2 i0), b64_char (push_bit 4 (i0 AND 0x03) + drop_bit 4 i1),
      b64_char (push_bit 2 (i1 AND 0x0f) + drop_bit 6 i2), b64_char (i2 AND 0x3f)] @ b64_enc src"
| "b64_enc [i0, i1] =
     [b64_char (drop_bit 2 i0), b64_char (push_bit 4 (i0 AND 0x03) + drop_bit 4 i1),
      b64_char (push_bit 2 (i1 AND 0x0f)), Pad64]"
| "b64_enc [i0] = [b64_char (drop_bit 2 i0), b64_char (push_bit 4 (i0 AND 0x03)), Pad64, Pad64]"
| "b64_enc [] = []"

lemma length_b64_enc: "length (b64_enc src) = 4 * ((length src + 2) div 3)"
proof (induction src rule: b64_enc.induct)
  case (1 i0 i1 i2 src)
  have "(length (i0 # i1 # i2 # src) + 2) div 3 = Suc ((length src + 2) div 3)" by simp
  then show ?case unfolding b64_enc.simps length_append 1 by simp
qed simp_all

lemma ntop_loop_eq:
  "ntop_loop src targsize acc =
     (if length acc + length (b64_enc src) \<le> targsize \<or> src = [] then Some (acc @ b64_enc src) else None)"
  by (induction src targsize acc rule: ntop_loop.induct) (auto simp: Let_def)

lemma b64_ntop_eq:
  "b64_ntop src targsize = (if length (b64_enc src) < targsize then Some (b64_enc src) else None)"
  by (auto simp: b64_ntop_def ntop_loop_eq)

section \<open>The decoder inverts the encoder\<close>

lemma digit_steps:
  assumes "i < length t"
  shows "pton_digit p 0 i t = Some (1, i, t[i := push_bit 2 p])"
    and "pton_digit p 1 i t =
      (let t' = t[i := t ! i OR drop_bit 4 p]; nb = push_bit 4 (p AND 0x0f)
       in if i + 1 < length t then Some (2, i + 1, t'[i + 1 := nb])
          else if nb \<noteq> 0 then None else Some (2, i + 1, t'))"
    and "pton_digit p 2 i t =
      (let t' = t[i := t ! i OR drop_bit 2 p]; nb = push_bit 6 (p AND 0x03)
       in if i + 1 < length t then Some (3, i + 1, t'[i + 1 := nb])
          else if nb \<noteq> 0 then None else Some (3, i + 1, t'))"
    and "pton_digit p 3 i t = Some (0, i + 1, t[i := t ! i OR p])"
  using assms by (simp_all add: pton_digit_def Let_def)

lemma pton_first_two:
  assumes "unat p0 < 64" "unat p1 < 64" and "i < length t" and b0: "push_bit 2 p0 OR drop_bit 4 p1 = i0"
    and room: "i + 1 < length t \<or> push_bit 4 (p1 AND 0x0f) = 0"
  shows "pton_loop (b64_char p0 # b64_char p1 # s) 0 i t
    = pton_loop s 2 (i + 1)
        (if i + 1 < length t then t[i := i0, i + 1 := push_bit 4 (p1 AND 0x0f)] else t[i := i0])"
proof -
  define nb where "nb = push_bit 4 (p1 AND 0x0f)"
  define l where "l = push_bit 2 p0"
  define h where "h = drop_bit 4 p1"
  have "pton_digit p0 0 i t = Some (1, i, t[i := l])"
    using assms(3) by (simp only: digit_steps l_def)
  moreover define d where "d = pton_digit p1 1 i (t[i := l])"
  have "d = (let t' = t[i := l OR h]
         in if i + 1 < length t then Some (2, i + 1, t'[i + 1 := nb])
            else if nb \<noteq> 0 then None else Some (2, i + 1, t'))"
    using digit_steps(2) [of i "t[i := l]" p1] assms(3) unfolding d_def
    by (simp only: h_def nb_def Let_def nth_list_update_eq list_update_overwrite length_list_update)
  then have "d = Some (2, i + 1, if i + 1 < length t then t[i := i0, i + 1 := nb] else t[i := i0])"
    using b0 room unfolding l_def [symmetric] h_def [symmetric] nb_def [symmetric] Let_def by auto
  ultimately show ?thesis
    by (simp only: pton_loop_char assms(1,2) option.case prod.case nb_def d_def)
qed

lemma pton_third:
  assumes "unat p2 < 64" and "i < length t" and b1: "t ! i OR drop_bit 2 p2 = i1"
    and room: "i + 1 < length t \<or> push_bit 6 (p2 AND 0x03) = 0"
  shows "pton_loop (b64_char p2 # s) 2 i t
    = pton_loop s 3 (i + 1)
        (if i + 1 < length t then t[i := i1, i + 1 := push_bit 6 (p2 AND 0x03)] else t[i := i1])"
proof -
  define nb where "nb = push_bit 6 (p2 AND 0x03)"
  define h where "h = drop_bit 2 p2"
  have "pton_digit p2 2 i t
      = (let t' = t[i := t ! i OR h]
         in if i + 1 < length t then Some (3, i + 1, t'[i + 1 := nb])
            else if nb \<noteq> 0 then None else Some (3, i + 1, t'))"
    using assms(2) by (simp only: digit_steps h_def nb_def Let_def)
  then have "pton_digit p2 2 i t
      = Some (3, i + 1, if i + 1 < length t then t[i := i1, i + 1 := nb] else t[i := i1])"
    using b1 room unfolding h_def [symmetric] nb_def [symmetric] Let_def by auto
  then show ?thesis
    by (simp only: pton_loop_char assms(1) option.case prod.case nb_def)
qed

lemma pton_fourth:
  assumes "unat p3 < 64" and "i < length t" and "t ! i OR p3 = i2"
  shows "pton_loop (b64_char p3 # s) 3 i t = pton_loop s 0 (i + 1) (t[i := i2])"
  using assms by (simp only: pton_loop_char digit_steps option.case prod.case)

lemma pton_group:
  assumes "i + 3 \<le> length t"
  shows "pton_loop (b64_enc (i0 # i1 # i2 # src)) 0 i t
    = pton_loop (b64_enc src) 0 (i + 3) (t[i := i0, i + 1 := i1, i + 2 := i2])"
proof -
  define p0 where "p0 = drop_bit 2 i0"
  define p1 where "p1 = push_bit 4 (i0 AND 0x03) + drop_bit 4 i1"
  define p2 where "p2 = push_bit 2 (i1 AND 0x0f) + drop_bit 6 i2"
  define p3 where "p3 = i2 AND 0x3f"
  have b: "unat p0 < 64" "unat p1 < 64" "unat p2 < 64" "unat p3 < 64"
    unfolding p0_def p1_def p2_def p3_def by (rule digit_bounds)+
  define n1 where "n1 = push_bit 4 (p1 AND 0x0f)"
  define n2 where "n2 = push_bit 6 (p2 AND 0x03)"
  have g: "push_bit 2 p0 OR drop_bit 4 p1 = i0" "n1 OR drop_bit 2 p2 = i1" "n2 OR p3 = i2"
    unfolding p0_def p1_def p2_def p3_def n1_def n2_def by (rule group_bits)+
  have "pton_loop (b64_char p0 # b64_char p1 # b64_char p2 # b64_char p3 # b64_enc src) 0 i t
      = pton_loop (b64_char p2 # b64_char p3 # b64_enc src) 2 (i + 1) (t[i := i0, i + 1 := n1])"
    using pton_first_two [OF b(1,2) _ g(1), of i t] assms n1_def by simp
  also have "\<dots> = pton_loop (b64_char p3 # b64_enc src) 3 (i + 2) (t[i := i0, i + 1 := i1, i + 2 := n2])"
    using pton_third [OF b(3), of "i + 1" "t[i := i0, i + 1 := n1]" i1] g(2) assms n2_def
    by (simp add: nth_list_update)
  also have "\<dots> = pton_loop (b64_enc src) 0 (i + 3) (t[i := i0, i + 1 := i1, i + 2 := i2])"
    using pton_fourth [OF b(4), of "i + 2" "t[i := i0, i + 1 := i1, i + 2 := n2]" i2] g(3) assms
    by (simp add: nth_list_update eval_nat_numeral)
  finally show ?thesis
    by (simp only: b64_enc.simps append_Cons append_Nil p0_def p1_def p2_def p3_def)
qed

lemma pton_stop: "pton_loop (Pad64 # s) state i t = Some (state, i, t, Pad64 # s)"
  by (simp add: Pad64_def isspace_def)

lemma pton_two:
  assumes "i + 2 \<le> length t"
  shows "pton_loop (b64_enc [i0, i1]) 0 i t
    = Some (3, i + 2, (t[i := i0, i + 1 := i1])[i + 2 := 0], [Pad64])"
proof -
  define p0 where "p0 = drop_bit 2 i0"
  define p1 where "p1 = push_bit 4 (i0 AND 0x03) + drop_bit 4 i1"
  define p2 where "p2 = push_bit 2 (i1 AND 0x0f)"
  have b: "unat p0 < 64" "unat p1 < 64" "unat p2 < 64"
    unfolding p0_def p1_def p2_def by (rule digit_bounds)+
  define n1 where "n1 = push_bit 4 (p1 AND 0x0f)"
  have g: "push_bit 2 p0 OR drop_bit 4 p1 = i0" "n1 OR drop_bit 2 p2 = i1"
    and z: "push_bit 6 (p2 AND 0x03) = 0"
    unfolding p0_def p1_def p2_def n1_def by (rule group_bits)+
  have "pton_loop (b64_char p0 # b64_char p1 # b64_char p2 # [Pad64]) 0 i t
      = pton_loop (b64_char p2 # [Pad64]) 2 (i + 1) (t[i := i0, i + 1 := n1])"
    using pton_first_two [OF b(1,2) _ g(1), of i t] assms n1_def by simp
  also have "\<dots> = pton_loop [Pad64] 3 (i + 2) ((t[i := i0, i + 1 := i1])[i + 2 := 0])"
    using pton_third [OF b(3), of "i + 1" "t[i := i0, i + 1 := n1]" i1] g(2) assms
    unfolding z by (auto simp add: nth_list_update list_update_beyond)
  finally show ?thesis
    by (simp only: b64_enc.simps pton_stop p0_def p1_def p2_def)
qed

lemma pton_one:
  assumes "i + 1 \<le> length t"
  shows "pton_loop (b64_enc [i0]) 0 i t
    = Some (2, i + 1, (t[i := i0])[i + 1 := 0], [Pad64, Pad64])"
proof -
  define p0 where "p0 = drop_bit 2 i0"
  define p1 where "p1 = push_bit 4 (i0 AND 0x03)"
  have b: "unat p0 < 64" "unat p1 < 64"
    unfolding p0_def p1_def by (rule digit_bounds)+
  have g: "push_bit 2 p0 OR drop_bit 4 p1 = i0" and z: "push_bit 4 (p1 AND 0x0f) = 0"
    unfolding p0_def p1_def by (rule group_bits)+
  have "pton_loop (b64_char p0 # b64_char p1 # [Pad64, Pad64]) 0 i t
      = pton_loop [Pad64, Pad64] 2 (i + 1) ((t[i := i0])[i + 1 := 0])"
    using pton_first_two [OF b _ g, of i t] assms unfolding z by (auto simp: list_update_beyond)
  then show ?thesis
    by (simp only: b64_enc.simps pton_stop p0_def p1_def)
qed

definition decodes_to :: "(nat \<times> nat \<times> bytes \<times> string) option \<Rightarrow> nat \<Rightarrow> bytes \<Rightarrow> bytes \<Rightarrow> bool" where
  "decodes_to r i t src =
     (case r of
        None \<Rightarrow> False
      | Some (state, j, t', rest) \<Rightarrow>
          pton_pad state j t' rest = Some (i + length src) \<and> length t' = length t
            \<and> take (i + length src) t' = take i t @ src)"

lemma pton_decodes:
  "i + length src \<le> length t \<Longrightarrow> decodes_to (pton_loop (b64_enc src) 0 i t) i t src"
proof (induction src arbitrary: i t rule: b64_enc.induct)
  case (1 i0 i1 i2 src)
  define t' where "t' = t[i := i0, i + 1 := i1, i + 2 := i2]"
  have "decodes_to (pton_loop (b64_enc src) 0 (i + 3) t') (i + 3) t' src"
    using 1 by (simp add: t'_def)
  moreover have "take (i + 3) t' = take i t @ [i0, i1, i2]"
    using 1(2) by (simp add: t'_def take_Suc_conv_app_nth eval_nat_numeral)
  moreover have "length t' = length t" "i + length (i0 # i1 # i2 # src) = i + 3 + length src"
    by (simp_all add: t'_def)
  moreover have "pton_loop (b64_enc (i0 # i1 # i2 # src)) 0 i t = pton_loop (b64_enc src) 0 (i + 3) t'"
    using pton_group [of i t i0 i1 i2 src] 1(2) unfolding t'_def by simp
  ultimately show ?case unfolding decodes_to_def by (auto simp only: append_assoc append_Cons append_Nil)
next
  case (2 i0 i1)
  then have "take (i + 2) (t[i := i0, i + 1 := i1]) = take i t @ [i0, i1]"
    by (simp add: take_Suc_conv_app_nth eval_nat_numeral)
  with 2 show ?case
    by (cases "i + 2 = length t")
      (simp_all add: decodes_to_def pton_two pton_pad_def nth_list_update list_update_beyond
        del: b64_enc.simps)
next
  case (3 i0)
  then have "take (i + 1) (t[i := i0]) = take i t @ [i0]"
    by (simp add: take_Suc_conv_app_nth)
  with 3 show ?case
    by (cases "i + 1 = length t")
      (simp_all add: decodes_to_def pton_one pton_pad_def nth_list_update list_update_beyond
        Pad64_def isspace_def del: b64_enc.simps)
next
  case 4
  then show ?case by (simp add: decodes_to_def pton_pad_def)
qed

section \<open>White space\<close>

abbreviation squeeze :: "string \<Rightarrow> string" where
  "squeeze s \<equiv> [c \<leftarrow> s. \<not> isspace c]"

lemma pton_loop_squeeze:
  "pton_loop (squeeze s) state i t
    = map_option (\<lambda>(state, i, t, rest). (state, i, t, squeeze rest)) (pton_loop s state i t)"
  by (induction s state i t rule: pton_loop.induct)
    (auto simp: option.map_comp comp_def split: option.splits)

lemma pton_loop_rest:
  "pton_loop s state i t = Some (state', i', t', rest) \<Longrightarrow> rest = [] \<or> hd rest = Pad64"
  by (induction s state i t rule: pton_loop.induct) (auto split: if_splits option.splits)

lemma squeeze_dropWhile: "squeeze (dropWhile isspace s) = squeeze s"
  by (induction s) auto

lemma squeeze_empty: "squeeze s = [] \<longleftrightarrow> list_all isspace s"
  by (induction s) auto

lemma dropWhile_squeeze: "dropWhile isspace (squeeze s) = squeeze s"
  by (induction s) auto

lemma pton_pad_squeeze:
  assumes "rest = [] \<or> hd rest = Pad64"
  shows "pton_pad state i t (squeeze rest) = pton_pad state i t rest"
proof (cases rest)
  case (Cons c after)
  have c: "\<not> isspace c" using assms Cons by (simp add: Pad64_def isspace_def)
  have all: "list_all isspace (squeeze x) = list_all isspace x" for x
    by (induction x) auto
  show ?thesis
  proof (cases "dropWhile isspace after")
    case Nil
    then have "squeeze after = []" by (metis squeeze_dropWhile filter.simps(1))
    then show ?thesis using Nil Cons c all [of after]
      by (simp add: pton_pad_def del: dropWhile_eq_Nil_conv)
  next
    case (Cons d more)
    then have "\<not> isspace d" by (metis hd_dropWhile list.sel(1) list.simps(3))
    then have "squeeze after = d # squeeze more" using squeeze_dropWhile [of after] Cons by simp
    then show ?thesis
      using \<open>rest = c # after\<close> Cons c all [of after] all [of more] \<open>\<not> isspace d\<close>
      by (simp add: pton_pad_def dropWhile_squeeze)
  qed
qed simp

lemma b64_pton_squeeze: "b64_pton (squeeze s) t = b64_pton s t"
  by (auto simp: b64_pton_def pton_loop_squeeze pton_pad_squeeze dest!: pton_loop_rest
      split: option.splits)

lemma b64_pton_ntop:
  assumes "b64_ntop src n = Some enc" and "squeeze s = enc" and "length src \<le> length t"
  shows "\<exists>t'. b64_pton s t = Some (length src, t') \<and> take (length src) t' = src \<and> length t' = length t"
proof -
  have "b64_pton s t = b64_pton (b64_enc src) t"
    using assms(1,2) b64_pton_squeeze [of s t] by (simp add: b64_ntop_eq split: if_splits)
  then show ?thesis
    using pton_decodes [of 0 src t] assms(3)
    by (auto simp: decodes_to_def b64_pton_def split: option.splits)
qed



end
