(* ===== verification/Tinyhttp.thy ===== *)
theory Tinyhttp
  imports Base64
begin

text \<open>
  The streaming HTTP response parser (\<open>external/tinyhttp\<close>: \<open>header.c\<close>, \<open>chunk.c\<close>, \<open>http.c\<close>) with the
  callbacks of \<open>tls_client_tiny.cpp\<close>, which collect the body and the status code.  An \<open>int\<close> is a
  32-bit integer whose overflow is undefined; a \<open>char\<close> is signed.  \<open>realloc\<close> does not fail.
\<close>

section \<open>C integers and characters\<close>

definition in_int :: "int \<Rightarrow> bool" where
  "in_int n \<longleftrightarrow> - (2 ^ 31) \<le> n \<and> n < 2 ^ 31"

definition sc :: "char \<Rightarrow> int" where
  "sc c = (let n = int (of_char c) in if n \<ge> 128 then n - 256 else n)"

text \<open>\<open>n * base + c - z\<close>, evaluated from the left.\<close>

definition accumulate :: "int \<Rightarrow> int \<Rightarrow> int \<Rightarrow> int \<Rightarrow> int res" where
  "accumulate base n c z =
     (if in_int (n * base) \<and> in_int (n * base + c) \<and> in_int (n * base + c - z)
      then Inr (n * base + c - z) else Inl UB)"

definition char_tolower :: "char \<Rightarrow> char" where
  "char_tolower c = (if 65 \<le> (of_char c :: nat) \<and> (of_char c :: nat) \<le> 90 then char_of ((of_char c :: nat) + 32) else c)"

section \<open>Header characters\<close>

datatype http_header_status =
    Status_done | Status_continue | Status_version_character | Status_code_character
  | Status_status_character | Status_key_character | Status_value_character | Status_store_keyvalue

definition http_header_state :: "nat list" where
  "http_header_state =
    [0x80,    1, 0xC1, 0xC1,    1, 0x80, 0x80, 0xC1,
     0x81,    2, 0xC1, 0xC1,    2,    1,    1, 0xC1,
     0x82, 0x82,    4,    3, 0x82, 0x82, 0x82, 0xC1,
     0xC1, 0xC1,    4, 0xC1, 0xC1, 0xC1, 0xC1, 0xC1,
     0x84, 0xC1, 0xC0,    5, 0xC1, 0xC1,    6, 0xC1,
     0xC1, 0xC1, 0xC0, 0xC1, 0xC1, 0xC1, 0xC1, 0xC1,
     0x87,    6, 0xC1, 0x87,    6, 0x87, 0x87, 0xC1,
     0x87, 0x87, 0xC4,   10, 0x87, 0x88, 0x87, 0xC1,
     0x87, 0x88,    6,    9, 0x88, 0x88, 0x87, 0xC1,
     0xC1, 0xC1,    6, 0xC1, 0xC1, 0xC1, 0xC1, 0xC1,
     0xC1, 0xC1, 0xC4, 0xC1, 0xC1, 0xC1, 0xC1, 0xC1]"

definition header_code :: "char \<Rightarrow> nat" where
  "header_code ch =
     (if ch = CHR 0x09 then 1 else if ch = CHR 0x0A then 2 else if ch = CHR 0x0D then 3
      else if ch = CHR '' '' then 4 else if ch = CHR '','' then 5 else if ch = CHR '':'' then 6 else 0)"

definition http_parse_header_char :: "nat \<Rightarrow> char \<Rightarrow> nat \<times> http_header_status" where
  "http_parse_header_char state ch =
     (let newstate = http_header_state ! (state * 8 + header_code ch)
      in (newstate mod 16,
          if newstate = 0xC0 \<or> newstate = 0xC1 then Status_done
          else if newstate = 0xC4 then Status_store_keyvalue
          else if newstate = 0x80 then Status_version_character
          else if newstate = 0x81 then Status_code_character
          else if newstate = 0x82 then Status_status_character
          else if newstate = 0x84 then Status_key_character
          else if newstate = 0x87 \<or> newstate = 0x88 then Status_value_character
          else Status_continue))"

section \<open>Chunk headers\<close>

definition http_chunk_state :: "nat list" where
  "http_chunk_state =
    [0xC1, 0xC1, 0xC1,    1,
     0xC1, 0xC1,    2, 0x81,
     0xC1, 0x83, 0xC1, 0xC1,
     0xC1, 0xC1,    4, 0xC1,
     0xC1, 0xC0, 0xC1, 0xC1]"

definition is_hex_char :: "char \<Rightarrow> bool" where
  "is_hex_char ch \<longleftrightarrow> ch \<in> set ''0123456789abcdefABCDEF''"

definition chunk_code :: "char \<Rightarrow> nat" where
  "chunk_code ch = (if ch = CHR 0x0A then 1 else if ch = CHR 0x0D then 2 else if is_hex_char ch then 3 else 0)"

definition hex_step :: "int \<Rightarrow> char \<Rightarrow> int res" where
  "hex_step sz ch =
     (if sc ch \<ge> sc (CHR ''a'') then accumulate 16 sz (sc ch - sc (CHR ''a'') + 10) 0
      else if sc ch \<ge> sc (CHR ''A'') then accumulate 16 sz (sc ch - sc (CHR ''A'') + 10) 0
      else accumulate 16 sz (sc ch - sc (CHR ''0'')) 0)"

text \<open>The returned flag, the new state and the new size.\<close>

definition http_parse_chunked :: "nat \<Rightarrow> int \<Rightarrow> char \<Rightarrow> (bool \<times> nat \<times> int) res" where
  "http_parse_chunked state sz ch =
     (let newstate = http_chunk_state ! (state * 4 + chunk_code ch); state = newstate mod 16
      in if newstate = 0xC0 then Inr (sz \<noteq> 0, state, sz)
         else if newstate = 0xC1 then Inr (False, state, - 1)
         else if newstate = 0x01 then bind_res (hex_step 0 ch) (\<lambda>sz. Inr (True, state, sz))
         else if newstate = 0x81 then bind_res (hex_step sz ch) (\<lambda>sz. Inr (True, state, sz))
         else if newstate = 0x83 then Inr (sz = 0, state, sz)
         else Inr (True, state, sz))"

section \<open>The round tripper\<close>

datatype http_roundtripper_state =
    Rt_header | Rt_chunk_header | Rt_chunk_data | Rt_raw_data | Rt_unknown_data | Rt_close | Rt_error

text \<open>\<open>nscratch\<close> is the length of \<open>scratch\<close>.\<close>

record http_roundtripper =
  scratch :: string
  rt_code :: int
  parsestate :: nat
  contentlength :: int
  rt_state :: http_roundtripper_state
  nkey :: nat
  nvalue :: nat
  chunked :: bool

record HttpResponseTiny =
  rsp_body :: string
  rsp_code :: int

definition response_body :: "HttpResponseTiny \<Rightarrow> string \<Rightarrow> HttpResponseTiny" where
  "response_body response d = response\<lparr>rsp_body := rsp_body response @ d\<rparr>"

definition response_code :: "HttpResponseTiny \<Rightarrow> int \<Rightarrow> HttpResponseTiny" where
  "response_code response c = response\<lparr>rsp_code := c\<rparr>"

text \<open>New bytes of the scratch buffer are uninitialised; none of them is read.\<close>

definition grow_scratch :: "http_roundtripper \<Rightarrow> nat \<Rightarrow> http_roundtripper" where
  "grow_scratch rt sz =
     (if length (scratch rt) \<ge> sz then rt
      else (let sz = (if sz < 64 then 64 else sz);
                nsize = length (scratch rt) * 3 div 2;
                nsize = (if nsize < sz then sz else nsize)
            in rt\<lparr>scratch := scratch rt @ replicate (nsize - length (scratch rt)) NUL\<rparr>))"

definition http_init :: http_roundtripper where
  "http_init = \<lparr>scratch = [], rt_code = 0, parsestate = 0, contentlength = - 1, rt_state = Rt_header,
     nkey = 0, nvalue = 0, chunked = False\<rparr>"

definition http_free :: "http_roundtripper \<Rightarrow> http_roundtripper" where
  "http_free rt = rt\<lparr>scratch := []\<rparr>"

text \<open>The end of the header.\<close>

definition header_done :: "http_roundtripper \<Rightarrow> http_roundtripper" where
  "header_done rt =
     (if parsestate rt \<noteq> 0 then rt\<lparr>rt_state := Rt_error\<rparr>
      else if chunked rt then rt\<lparr>contentlength := 0, rt_state := Rt_chunk_header\<rparr>
      else if contentlength rt = 0 then rt\<lparr>rt_state := Rt_close\<rparr>
      else if contentlength rt > 0 then rt\<lparr>rt_state := Rt_raw_data\<rparr>
      else if contentlength rt = - 1 then rt\<lparr>rt_state := Rt_unknown_data\<rparr>
      else rt\<lparr>rt_state := Rt_error\<rparr>)"

fun length_loop :: "string \<Rightarrow> int \<Rightarrow> int res" where
  "length_loop [] n = Inr n"
| "length_loop (c # cs) n = bind_res (accumulate 10 n (sc c) (sc (CHR ''0''))) (length_loop cs)"

text \<open>A complete header: its effect on the framing of the body.\<close>

definition store_keyvalue :: "http_roundtripper \<Rightarrow> http_roundtripper res" where
  "store_keyvalue rt =
     (let key = take (nkey rt) (scratch rt); val = take (nvalue rt) (drop (nkey rt) (scratch rt))
      in bind_res
           (if nkey rt = 17 \<and> key = ''transfer-encoding''
            then Inr (rt\<lparr>chunked := nvalue rt = 7 \<and> val = ''chunked''\<rparr>)
            else if nkey rt = 14 \<and> key = ''content-length''
            then bind_res (length_loop val 0) (\<lambda>n. Inr (rt\<lparr>contentlength := n\<rparr>))
            else Inr rt)
           (\<lambda>rt. Inr (rt\<lparr>nkey := 0, nvalue := 0\<rparr>)))"

definition header_char ::
  "http_roundtripper \<Rightarrow> HttpResponseTiny \<Rightarrow> char \<Rightarrow> (http_roundtripper \<times> HttpResponseTiny) res" where
  "header_char rt response ch =
     (case http_parse_header_char (parsestate rt) ch of (st, status) \<Rightarrow>
       (let rt = rt\<lparr>parsestate := st\<rparr>
        in case status of
             Status_done \<Rightarrow> Inr (header_done rt, response_code response (rt_code rt))
           | Status_code_character \<Rightarrow>
               bind_res (accumulate 10 (rt_code rt) (sc ch) (sc (CHR ''0''))) (\<lambda>c. Inr (rt\<lparr>rt_code := c\<rparr>, response))
           | Status_key_character \<Rightarrow>
               (let rt = grow_scratch rt (nkey rt + 1)
                in Inr (rt\<lparr>scratch := (scratch rt)[nkey rt := char_tolower ch], nkey := nkey rt + 1\<rparr>, response))
           | Status_value_character \<Rightarrow>
               (let rt = grow_scratch rt (nkey rt + nvalue rt + 1)
                in Inr (rt\<lparr>scratch := (scratch rt)[nkey rt + nvalue rt := ch], nvalue := nvalue rt + 1\<rparr>, response))
           | Status_store_keyvalue \<Rightarrow> bind_res (store_keyvalue rt) (\<lambda>rt. Inr (rt, response))
           | _ \<Rightarrow> Inr (rt, response)))"

definition chunk_header_char :: "http_roundtripper \<Rightarrow> char \<Rightarrow> http_roundtripper res" where
  "chunk_header_char rt ch =
     bind_res (http_parse_chunked (parsestate rt) (contentlength rt) ch) (\<lambda>(more, st, sz).
       (let rt = rt\<lparr>parsestate := st, contentlength := sz\<rparr>
        in Inr (if more then rt
                else if sz = - 1 then rt\<lparr>rt_state := Rt_error\<rparr>
                else if sz = 0 then rt\<lparr>rt_state := Rt_close\<rparr>
                else rt\<lparr>rt_state := Rt_chunk_data\<rparr>)))"

text \<open>
  One pass of the loop over \<open>data\<close>, which is not empty: the rest of the data.  A negative length of
  the range to append is undefined.
\<close>

definition http_data_step ::
  "http_roundtripper \<Rightarrow> HttpResponseTiny \<Rightarrow> string \<Rightarrow> (http_roundtripper \<times> HttpResponseTiny \<times> string) res" where
  "http_data_step rt response d =
     (case rt_state rt of
        Rt_header \<Rightarrow> bind_res (header_char rt response (hd d)) (\<lambda>(rt, response). Inr (rt, response, tl d))
      | Rt_chunk_header \<Rightarrow> bind_res (chunk_header_char rt (hd d)) (\<lambda>rt. Inr (rt, response, tl d))
      | Rt_chunk_data \<Rightarrow>
          if contentlength rt < 0 then Inl UB
          else (let chunksize = min (length d) (nat (contentlength rt));
                    left = contentlength rt - int chunksize
                in Inr (if left = 0 then rt\<lparr>contentlength := 1, rt_state := Rt_chunk_header\<rparr>
                        else rt\<lparr>contentlength := left\<rparr>,
                        response_body response (take chunksize d), drop chunksize d))
      | Rt_raw_data \<Rightarrow>
          if contentlength rt < 0 then Inl UB
          else (let chunksize = min (length d) (nat (contentlength rt));
                    left = contentlength rt - int chunksize
                in Inr (if left = 0 then rt\<lparr>contentlength := left, rt_state := Rt_close\<rparr>
                        else rt\<lparr>contentlength := left\<rparr>,
                        response_body response (take chunksize d), drop chunksize d))
      | Rt_unknown_data \<Rightarrow> Inr (rt, response_body response d, [])
      | Rt_close \<Rightarrow> Inr (rt, response, d)
      | Rt_error \<Rightarrow> Inr (rt, response, d))"

definition rt_finished :: "http_roundtripper \<Rightarrow> bool" where
  "rt_finished rt \<longleftrightarrow> rt_state rt = Rt_error \<or> rt_state rt = Rt_close"

lemma step_shrinks:
  assumes "http_data_step rt response d = Inr (rt', response', d')" "d \<noteq> []" "\<not> rt_finished rt'"
  shows "length d' < length d \<or> (d' = d \<and> rt_state rt = Rt_chunk_data \<and> rt_state rt' \<noteq> Rt_chunk_data)"
  using assms
  by (auto simp: http_data_step_def rt_finished_def bind_res_Inr_iff Let_def
      split: http_roundtripper_state.splits if_splits)

text \<open>\<open>http_data\<close>: what is left of the data, and whether more is needed.\<close>

function http_data ::
  "http_roundtripper \<Rightarrow> HttpResponseTiny \<Rightarrow> string \<Rightarrow> (http_roundtripper \<times> HttpResponseTiny \<times> string \<times> bool) res" where
  "http_data rt response d =
     (if d = [] then Inr (rt, response, d, True)
      else bind_res (http_data_step rt response d) (\<lambda>(rt, response, d).
             if rt_finished rt then Inr (http_free rt, response, d, False) else http_data rt response d))"
  by pat_completeness auto
termination
  by (relation "measures [\<lambda>(rt, response, d). length d,
        \<lambda>(rt, response, d). if rt_state rt = Rt_chunk_data then 1 else 0]")
    (auto dest: step_shrinks)

declare http_data.simps [simp del]

definition http_iserror :: "http_roundtripper \<Rightarrow> bool" where
  "http_iserror rt \<longleftrightarrow> rt_state rt = Rt_error"

section \<open>Fragments\<close>

text \<open>One pass on the data with more behind it.\<close>

lemma step_append:
  assumes "d \<noteq> []"
  shows "case http_data_step rt response d of
      Inl e \<Rightarrow> http_data_step rt response (d @ x) = Inl e
    | Inr (rt', response', d') \<Rightarrow>
        http_data_step rt response (d @ x) = Inr (rt', response', d' @ x)
        \<or> (d' = [] \<and> \<not> rt_finished rt' \<and> http_data_step rt' response' x = http_data_step rt response (d @ x))"
proof (cases "rt_state rt = Rt_chunk_data \<or> rt_state rt = Rt_raw_data")
  case False
  then consider (h) "rt_state rt = Rt_header" | (c) "rt_state rt = Rt_chunk_header" | (u) "rt_state rt = Rt_unknown_data"
    | (f) "rt_state rt = Rt_close \<or> rt_state rt = Rt_error" by (cases "rt_state rt") auto
  then show ?thesis
  proof cases
    case h
    then show ?thesis using assms
      by (cases "header_char rt response (hd d)") (simp_all add: http_data_step_def split: prod.splits)
  next
    case c
    then show ?thesis using assms by (cases "chunk_header_char rt (hd d)") (simp_all add: http_data_step_def)
  next
    case u
    then show ?thesis by (simp add: http_data_step_def rt_finished_def response_body_def)
  next
    case f
    then show ?thesis by (auto simp: http_data_step_def)
  qed
next
  case True
  define n where "n = contentlength rt"
  show ?thesis
  proof (cases "n < 0")
    case neg: True
    then show ?thesis using True by (auto simp: http_data_step_def n_def)
  next
    case pos: False
    show ?thesis
    proof (cases "nat n \<le> length d")
      case short: True
      then have "min (length d) (nat n) = nat n" "min (length (d @ x)) (nat n) = nat n" by simp_all
      then show ?thesis using True pos short
        by (elim disjE) (simp_all only: http_data_step_def n_def [symmetric] Let_def
            http_roundtripper_state.case if_False sum.case prod.case, simp_all)
    next
      case long: False
      have c: "nat (n - int (length d)) = nat n - length d" by (simp add: nat_diff_distrib')
      have l: "n - int (length d) > 0" using long by linarith
      define rt' where "rt' = rt\<lparr>contentlength := n - int (length d)\<rparr>"
      define response' where "response' = response_body response d"
      have "min (length d) (nat n) = length d" using long by simp
      then have 1: "http_data_step rt response d = Inr (rt', response', [])"
        using True pos l by (elim disjE) (simp_all add: http_data_step_def n_def [symmetric] Let_def rt'_def response'_def)
      have m: "min (length (d @ x)) (nat n) = length d + min (length x) (nat n - length d)" using long by simp
      have "http_data_step rt' response' x = http_data_step rt response (d @ x)"
        using True pos l
        by (elim disjE) (simp_all add: http_data_step_def n_def [symmetric] Let_def rt'_def response'_def
            response_body_def m c del: length_append min.bounded_iff)
      then show ?thesis using 1 True by (auto simp: rt_finished_def rt'_def)
    qed
  qed
qed

definition feed ::
  "(http_roundtripper \<times> HttpResponseTiny \<times> string \<times> bool) res \<Rightarrow> string \<Rightarrow>
     (http_roundtripper \<times> HttpResponseTiny \<times> string \<times> bool) res" where
  "feed m d = bind_res m (\<lambda>(rt, response, rest, more).
     if more then http_data rt response d else Inr (rt, response, rest @ d, False))"

lemma http_data_append: "http_data rt response (d @ x) = feed (http_data rt response d) x"
proof (induction rt response d rule: http_data.induct)
  case (1 rt response d)
  show ?case
  proof (cases "d = []")
    case True
    then show ?thesis by (simp add: http_data.simps [of _ _ "[]"] feed_def)
  next
    case False
    show ?thesis
    proof (cases "http_data_step rt response d")
      case (Inl e)
      then show ?thesis
        using step_append [OF False, of rt response x] False
        by (simp add: http_data.simps [of rt response] feed_def)
    next
      case (Inr r)
      obtain rt' response' d' where r: "r = (rt', response', d')" by (cases r)
      have h: "http_data rt response d = (if rt_finished rt' then Inr (http_free rt', response', d', False)
          else http_data rt' response' d')"
        using False Inr r by (simp add: http_data.simps [of rt response])
      from step_append [OF False, of rt response x] Inr r
      consider (same) "http_data_step rt response (d @ x) = Inr (rt', response', d' @ x)"
        | (used) "d' = []" "\<not> rt_finished rt'" "http_data_step rt' response' x = http_data_step rt response (d @ x)"
        by auto
      then show ?thesis
      proof cases
        case same
        then have "http_data rt response (d @ x) = (if rt_finished rt' then Inr (http_free rt', response', d' @ x, False)
            else http_data rt' response' (d' @ x))"
          using False by (simp add: http_data.simps [of rt response])
        then show ?thesis using 1 [OF False _ _ _, of "(rt', response', d')"] h Inr r by (auto simp: feed_def)
      next
        case used
        have n: "http_data rt' response' [] = Inr (rt', response', [], True)" by (simp add: http_data.simps)
        show ?thesis
        proof (cases "x = []")
          case True
          then show ?thesis using h used n by (simp add: feed_def)
        next
          case x: False
          then show ?thesis
            using h used n False
            by (simp add: feed_def http_data.simps [of rt response] http_data.simps [of rt' response' x])
        qed
      qed
    qed
  qed
qed

lemma http_data_more: "http_data rt response d = Inr (rt', response', rest, True) \<Longrightarrow> rest = []"
proof (induction rt response d rule: http_data.induct)
  case (1 rt response d)
  then show ?case
    by (auto simp: http_data.simps [of rt response d] bind_res_Inr_iff split: if_splits)
qed

section \<open>Reachable states\<close>

text \<open>
  The states in which \<open>http_data\<close> starts a pass, for any input.  \<open>rt_inv\<close>: the state indexes stay
  inside the two tables, key and value inside the scratch buffer, a key starts with an empty value, and
  ranges handed to the body callback are not negative.
\<close>

inductive reached :: "http_roundtripper \<Rightarrow> bool" where
  start: "reached http_init"
| pass: "reached rt \<Longrightarrow> \<not> rt_finished rt \<Longrightarrow> d \<noteq> [] \<Longrightarrow> http_data_step rt response d = Inr (rt', response', d')
    \<Longrightarrow> reached rt'"

definition rt_inv :: "http_roundtripper \<Rightarrow> bool" where
  "rt_inv rt \<longleftrightarrow> (case rt_state rt of
       Rt_header \<Rightarrow> parsestate rt \<le> 10 \<and> nkey rt + nvalue rt \<le> length (scratch rt) \<and> (parsestate rt \<le> 5 \<longrightarrow> nvalue rt = 0)
     | Rt_chunk_header \<Rightarrow> parsestate rt \<le> 4 \<and> 0 \<le> contentlength rt
     | Rt_chunk_data \<Rightarrow> parsestate rt = 3 \<and> 0 < contentlength rt
     | Rt_raw_data \<Rightarrow> 0 < contentlength rt
     | _ \<Rightarrow> True)"

lemma header_table:
  assumes "p \<le> 10" "http_parse_header_char p c = (q, st)"
  shows "q \<le> 10" and "st = Status_key_character \<longrightarrow> p = 4 \<and> q = 4"
    and "st = Status_value_character \<longrightarrow> 5 < q" and "st = Status_store_keyvalue \<longrightarrow> q = 4"
    and "st \<noteq> Status_value_character \<and> st \<noteq> Status_store_keyvalue \<and> q \<le> 5 \<and> st \<noteq> Status_done \<longrightarrow> p \<le> 5"
proof -
  define ok where "ok p x = (let n = http_header_state ! (p * 8 + x) in
      n mod 16 \<le> 10 \<and> (n = 0x84 \<longrightarrow> p = 4) \<and> (n = 0xC4 \<or> n = 0x87 \<or> n = 0x88 \<or> n = 0xC0 \<or> n = 0xC1 \<or> (n mod 16 \<le> 5 \<longrightarrow> p \<le> 5)))"
    for p x
  have "\<forall>p \<in> set [0..<11]. \<forall>x \<in> set [0, 1, 2, 3, 4, 5, 6]. ok p x"
    unfolding ok_def by code_simp
  moreover have "p \<in> set [0..<11]" using assms(1) by auto
  moreover have "header_code c \<in> set [0, 1, 2, 3, 4, 5, 6]" by (simp add: header_code_def)
  ultimately have k: "ok p (header_code c)" by blast
  show "q \<le> 10" "st = Status_key_character \<longrightarrow> p = 4 \<and> q = 4"
    "st = Status_value_character \<longrightarrow> 5 < q" "st = Status_store_keyvalue \<longrightarrow> q = 4"
    "st \<noteq> Status_value_character \<and> st \<noteq> Status_store_keyvalue \<and> q \<le> 5 \<and> st \<noteq> Status_done \<longrightarrow> p \<le> 5"
    using k assms(2) by (auto simp: ok_def http_parse_header_char_def Let_def split: if_splits)
qed

lemma store_keyvalue_keeps:
  "store_keyvalue rt = Inr rt' \<Longrightarrow> rt_state rt' = rt_state rt \<and> parsestate rt' = parsestate rt \<and> nkey rt' = 0 \<and> nvalue rt' = 0"
  by (auto simp: store_keyvalue_def Let_def bind_res_Inr_iff split: if_splits)

lemma grow_scratch_length: "sz \<le> length (scratch (grow_scratch rt sz))"
  "rt_state (grow_scratch rt sz) = rt_state rt" "parsestate (grow_scratch rt sz) = parsestate rt"
  "nkey (grow_scratch rt sz) = nkey rt" "nvalue (grow_scratch rt sz) = nvalue rt"
  by (auto simp: grow_scratch_def Let_def)

lemma header_char_inv:
  assumes "rt_state rt = Rt_header" "rt_inv rt" "header_char rt response c = Inr (rt', response')"
  shows "rt_inv rt'"
proof -
  obtain q st where p: "http_parse_header_char (parsestate rt) c = (q, st)" by fastforce
  define r where "r = rt\<lparr>parsestate := q\<rparr>"
  have i: "parsestate rt \<le> 10" "nkey rt + nvalue rt \<le> length (scratch rt)" "parsestate rt \<le> 5 \<longrightarrow> nvalue rt = 0"
    using assms(1,2) by (auto simp: rt_inv_def)
  have st': "rt_state r = Rt_header" "parsestate r = q" "nkey r = nkey rt" "nvalue r = nvalue rt" "scratch r = scratch rt"
    using assms(1) by (simp_all add: r_def)
  note t = header_table [OF i(1) p]
  have run: "(case st of
             Status_done \<Rightarrow> Inr (header_done r, response_code response (rt_code r))
           | Status_code_character \<Rightarrow>
               bind_res (accumulate 10 (rt_code r) (sc c) (sc (CHR ''0''))) (\<lambda>c. Inr (r\<lparr>rt_code := c\<rparr>, response))
           | Status_key_character \<Rightarrow>
               (let rt = grow_scratch r (nkey r + 1)
                in Inr (rt\<lparr>scratch := (scratch rt)[nkey rt := char_tolower c], nkey := nkey rt + 1\<rparr>, response))
           | Status_value_character \<Rightarrow>
               (let rt = grow_scratch r (nkey r + nvalue r + 1)
                in Inr (rt\<lparr>scratch := (scratch rt)[nkey rt + nvalue rt := c], nvalue := nvalue rt + 1\<rparr>, response))
           | Status_store_keyvalue \<Rightarrow> bind_res (store_keyvalue r) (\<lambda>rt. Inr (rt, response))
           | _ \<Rightarrow> Inr (r, response)) = Inr (rt', response')"
    using assms(3) unfolding header_char_def p prod.case Let_def r_def .
  show ?thesis
  proof (cases st)
    case Status_done
    then show ?thesis using run by (auto simp: rt_inv_def header_done_def)
  next
    case Status_key_character
    then show ?thesis
      using run t i st' grow_scratch_length [where rt = r and sz = "nkey r + 1"] by (auto simp: rt_inv_def Let_def)
  next
    case Status_value_character
    then show ?thesis
      using run t i st' grow_scratch_length [where rt = r and sz = "nkey r + nvalue r + 1"] by (auto simp: rt_inv_def Let_def)
  next
    case Status_store_keyvalue
    then show ?thesis
      using run t i st' store_keyvalue_keeps [of r] by (auto simp: rt_inv_def bind_res_Inr_iff)
  qed (use run t i st' in \<open>auto simp: rt_inv_def bind_res_Inr_iff\<close>)
qed

lemma chunk_table_range:
  assumes "p \<le> 4" "http_parse_chunked p n c = Inr (b, q, m)" "0 \<le> n"
  shows "q \<le> 4 \<and> (m = - 1 \<and> \<not> b \<or> 0 \<le> m) \<and> (\<not> b \<and> 0 < m \<longrightarrow> q = 3)"
proof -
  define ok where "ok p x = (let n = http_chunk_state ! (p * 4 + x) in
      n \<in> {0xC0, 0xC1, 1, 2, 4, 0x81, 0x83} \<and> ((n = 1 \<or> n = 0x81) \<longrightarrow> x = 3))" for p x
  have "\<forall>p \<in> set [0..<5]. \<forall>x \<in> set [0, 1, 2, 3]. ok p x" unfolding ok_def by code_simp
  moreover have "p \<in> set [0..<5]" "chunk_code c \<in> set [0, 1, 2, 3]" using assms(1) by (auto simp: chunk_code_def)
  ultimately have k: "ok p (chunk_code c)" by blast
  have h: "0 \<le> m'" if "hex_step n' c = Inr m'" "0 \<le> n'" "is_hex_char c" for n' m'
  proof -
    have "list_all (\<lambda>c. (if sc c \<ge> sc (CHR ''a'') then 0 \<le> sc c - sc (CHR ''a'') + 10
       else if sc c \<ge> sc (CHR ''A'') then 0 \<le> sc c - sc (CHR ''A'') + 10
       else 0 \<le> sc c - sc (CHR ''0''))) ''0123456789abcdefABCDEF''" by code_simp
    then have "if sc c \<ge> sc (CHR ''a'') then 0 \<le> sc c - sc (CHR ''a'') + 10
       else if sc c \<ge> sc (CHR ''A'') then 0 \<le> sc c - sc (CHR ''A'') + 10
       else 0 \<le> sc c - sc (CHR ''0'')" using that(3) unfolding list_all_iff is_hex_char_def by blast
    then show ?thesis using that(1,2) unfolding hex_step_def accumulate_def by (auto split: if_splits)
  qed
  have x: "chunk_code c = 3 \<longleftrightarrow> is_hex_char c" by (auto simp: chunk_code_def is_hex_char_def)
  show ?thesis
    using assms(2,3) k x h [of 0] h [of n]
    by (auto simp: ok_def http_parse_chunked_def Let_def bind_res_Inr_iff split: if_splits)
qed

lemma reached_inv: "reached rt \<Longrightarrow> rt_inv rt"
proof (induction rule: reached.induct)
  case start
  show ?case by (simp add: rt_inv_def http_init_def)
next
  case (pass rt d response rt' response' d')
  show ?case
  proof (cases "rt_state rt")
    case Rt_header
    then show ?thesis using pass header_char_inv by (auto simp: http_data_step_def bind_res_Inr_iff)
  next
    case Rt_chunk_header
    then obtain b q m where h: "http_parse_chunked (parsestate rt) (contentlength rt) (hd d) = Inr (b, q, m)"
      and rt': "rt' = (let r = rt\<lparr>parsestate := q, contentlength := m\<rparr> in if b then r
                else if m = - 1 then r\<lparr>rt_state := Rt_error\<rparr>
                else if m = 0 then r\<lparr>rt_state := Rt_close\<rparr> else r\<lparr>rt_state := Rt_chunk_data\<rparr>)"
      using pass.hyps(4) by (auto simp: http_data_step_def chunk_header_char_def bind_res_Inr_iff Let_def)
    have "parsestate rt \<le> 4" "0 \<le> contentlength rt" using pass.IH Rt_chunk_header by (simp_all add: rt_inv_def)
    from chunk_table_range [OF this(1) h this(2)] show ?thesis
      using Rt_chunk_header by (auto simp: rt' rt_inv_def Let_def)
  next
    case Rt_chunk_data
    then show ?thesis using pass by (auto simp: rt_inv_def http_data_step_def Let_def split: if_splits)
  next
    case Rt_raw_data
    then show ?thesis using pass by (auto simp: rt_inv_def http_data_step_def Let_def split: if_splits)
  qed (use pass in \<open>auto simp: rt_inv_def http_data_step_def\<close>)
qed



end
