(* ===== verification/Http_Response.thy ===== *)
theory Http_Response
  imports Tinyhttp
begin

text \<open>
  What the response parser understands: the grammar of HTTP/1.1 responses with a content length or a
  chunked body, and the proof that \<open>http_data\<close> reads the status, the body and the end of such a
  response, however it is cut into pieces.
\<close>

section \<open>Responses\<close>

definition crlf :: string where
  "crlf = [CHR 0x0D, CHR 0x0A]"

definition header_lines :: "(string \<times> string) list \<Rightarrow> string" where
  "header_lines hs = concat (map (\<lambda>(k, v). k @ '': '' @ v @ crlf) hs)"

definition head_of :: "string \<Rightarrow> string \<Rightarrow> string \<Rightarrow> (string \<times> string) list \<Rightarrow> string" where
  "head_of version status reason hs = version @ '' '' @ status @ '' '' @ reason @ crlf @ header_lines hs @ crlf"

definition dec_val :: "string \<Rightarrow> int" where
  "dec_val ds = foldl (\<lambda>n c. n * 10 + (int (of_char c) - 48)) 0 ds"

definition is_digit :: "char \<Rightarrow> bool" where
  "is_digit c \<longleftrightarrow> 48 \<le> (of_char c :: nat) \<and> (of_char c :: nat) \<le> 57"

definition number_ok :: "string \<Rightarrow> bool" where
  "number_ok ds \<longleftrightarrow> list_all is_digit ds \<and> dec_val ds < 2000000000"

text \<open>How a header line changes the framing: chunked or not, and the content length.\<close>

definition framing_step :: "bool \<times> int \<Rightarrow> string \<times> string \<Rightarrow> bool \<times> int" where
  "framing_step f h = (case f of (ch, n) \<Rightarrow> case h of (k, v) \<Rightarrow>
     if map char_tolower k = ''transfer-encoding'' then (v = ''chunked'', n)
     else if map char_tolower k = ''content-length'' then (ch, dec_val v)
     else (ch, n))"

definition framing :: "(string \<times> string) list \<Rightarrow> bool \<times> int" where
  "framing hs = foldl framing_step (False, - 1) hs"

definition header_ok :: "string \<times> string \<Rightarrow> bool" where
  "header_ok h = (case h of (k, v) \<Rightarrow>
     list_all (\<lambda>c. header_code c = 0) k
     \<and> v \<noteq> [] \<and> list_all (\<lambda>c. header_code c \<notin> {2, 3}) v
     \<and> header_code (hd v) \<notin> {1, 4} \<and> header_code (last v) \<in> {0, 6}
     \<and> (map char_tolower k = ''content-length'' \<longrightarrow> number_ok v))"

definition head_ok :: "string \<Rightarrow> string \<Rightarrow> string \<Rightarrow> (string \<times> string) list \<Rightarrow> bool" where
  "head_ok version status reason hs \<longleftrightarrow>
     list_all (\<lambda>c. header_code c \<in> {0, 5, 6}) version \<and> number_ok status
     \<and> list_all (\<lambda>c. header_code c \<notin> {2, 3}) reason \<and> list_all header_ok hs"

text \<open>Chunks with their sizes as written, and the last chunk.\<close>

definition hex_digit :: "char \<Rightarrow> int" where
  "hex_digit c = int (of_char c) - (if 97 \<le> (of_char c :: nat) then 87 else if 65 \<le> (of_char c :: nat) then 55 else 48)"

definition hex_val :: "string \<Rightarrow> int" where
  "hex_val hs = foldl (\<lambda>n c. n * 16 + hex_digit c) 0 hs"

definition chunk_ok :: "string \<times> string \<Rightarrow> bool" where
  "chunk_ok ch = (case ch of (hs, d) \<Rightarrow>
     hs \<noteq> [] \<and> list_all is_hex_char hs \<and> d \<noteq> [] \<and> hex_val hs = int (length d) \<and> hex_val hs < 2 ^ 31)"

definition chunk_lines :: "(string \<times> string) list \<Rightarrow> string" where
  "chunk_lines cs = concat (map (\<lambda>(hs, d). hs @ crlf @ d @ crlf) cs) @ ''0'' @ crlf @ crlf"

section \<open>One character of the header\<close>

definition line_state :: "http_roundtripper \<Rightarrow> nat \<Rightarrow> string \<Rightarrow> string \<Rightarrow> bool" where
  "line_state rt p key val \<longleftrightarrow>
     rt_state rt = Rt_header \<and> parsestate rt = p \<and> nkey rt = length key \<and> nvalue rt = length val
     \<and> length key + length val \<le> length (scratch rt)
     \<and> take (length key + length val) (scratch rt) = key @ val"

definition frame :: "http_roundtripper \<Rightarrow> int \<times> bool \<times> int" where
  "frame rt = (rt_code rt, chunked rt, contentlength rt)"

text \<open>\<open>goes\<close>: reading \<open>s\<close> leads to a state with the given property.\<close>

definition goes :: "http_roundtripper \<Rightarrow> string \<Rightarrow> (http_roundtripper \<Rightarrow> bool) \<Rightarrow> bool" where
  "goes rt s P \<longleftrightarrow> (\<exists>rt'. P rt' \<and> (\<forall>response d. http_data rt response (s @ d) = http_data rt' response d))"

lemma goes_Nil: "P rt \<Longrightarrow> goes rt [] P"
  by (auto simp: goes_def)

lemma goes_append: "goes rt s P \<Longrightarrow> (\<And>rt'. P rt' \<Longrightarrow> goes rt' t Q) \<Longrightarrow> goes rt (s @ t) Q"
  unfolding goes_def append_assoc by metis

lemma goes_Cons: "goes rt [c] P \<Longrightarrow> (\<And>rt'. P rt' \<Longrightarrow> goes rt' t Q) \<Longrightarrow> goes rt (c # t) Q"
  using goes_append [of rt "[c]" P t Q] by simp

lemma goes_mono: "goes rt s P \<Longrightarrow> (\<And>rt'. P rt' \<Longrightarrow> Q rt') \<Longrightarrow> goes rt s Q"
  unfolding goes_def by blast

lemma goes_header:
  assumes "rt_state rt = Rt_header" "\<And>response. header_char rt response c = Inr (rt', response)" "rt_state rt' = Rt_header" "P rt'"
  shows "goes rt [c] P"
  unfolding goes_def
  by (intro exI [of _ rt'])
    (use assms in \<open>simp add: http_data.simps [of rt] http_data_step_def rt_finished_def\<close>)

lemma grow_scratch_facts:
  "sz \<le> length (scratch (grow_scratch rt sz))"
  "n \<le> length (scratch rt) \<Longrightarrow> take n (scratch (grow_scratch rt sz)) = take n (scratch rt)"
  "rt_state (grow_scratch rt sz) = rt_state rt" "parsestate (grow_scratch rt sz) = parsestate rt"
  "nkey (grow_scratch rt sz) = nkey rt" "nvalue (grow_scratch rt sz) = nvalue rt"
  "rt_code (grow_scratch rt sz) = rt_code rt" "chunked (grow_scratch rt sz) = chunked rt"
  "contentlength (grow_scratch rt sz) = contentlength rt"
  by (auto simp: grow_scratch_def Let_def)

lemma take_update:
  assumes "n < length xs" "take n xs = ys"
  shows "take (Suc n) (xs[n := c]) = ys @ [c]"
  using assms by (simp add: take_Suc_conv_app_nth)

lemmas table = http_parse_header_char_def http_header_state_def Let_def

lemma key_char:
  assumes "line_state rt 4 key []" "header_code c = 0"
  shows "goes rt [c] (\<lambda>rt'. line_state rt' 4 (key @ [char_tolower c]) [] \<and> frame rt' = frame rt)"
proof -
  define g where "g = grow_scratch (rt\<lparr>parsestate := 4\<rparr>) (Suc (nkey rt))"
  have g: "rt_state g = rt_state rt" "parsestate g = 4" "nkey g = nkey rt" "nvalue g = nvalue rt" "rt_code g = rt_code rt"
    "chunked g = chunked rt" "contentlength g = contentlength rt"
    by (simp_all add: g_def grow_scratch_facts)
  have p: "http_parse_header_char (parsestate rt) c = (4, Status_key_character)"
    using assms by (simp add: line_state_def table)
  have l: "length key < length (scratch g)" "take (length key) (scratch g) = key"
    using assms(1) grow_scratch_facts(1) [of "Suc (nkey rt)" "rt\<lparr>parsestate := 4\<rparr>"]
      grow_scratch_facts(2) [of "nkey rt" "rt\<lparr>parsestate := 4\<rparr>" "Suc (nkey rt)"]
    by (auto simp: line_state_def g_def)
  have h: "header_char rt response c
      = Inr (g\<lparr>scratch := (scratch g)[nkey g := char_tolower c], nkey := nkey g + 1\<rparr>, response)" for response
    by (simp add: header_char_def p Let_def g_def)
  show ?thesis
    by (rule goes_header [OF _ h])
      (use assms take_update [OF l, of "char_tolower c"] l g in \<open>simp_all add: line_state_def frame_def\<close>)
qed

lemma value_char:
  assumes "line_state rt p key val" "http_parse_header_char p c = (q, Status_value_character)"
  shows "goes rt [c] (\<lambda>rt'. line_state rt' q key (val @ [c]) \<and> frame rt' = frame rt)"
proof -
  define g where "g = grow_scratch (rt\<lparr>parsestate := q\<rparr>) (Suc (nkey rt + nvalue rt))"
  have g: "rt_state g = rt_state rt" "parsestate g = q" "nkey g = nkey rt" "nvalue g = nvalue rt" "rt_code g = rt_code rt"
    "chunked g = chunked rt" "contentlength g = contentlength rt"
    by (simp_all add: g_def grow_scratch_facts)
  have l: "length key + length val < length (scratch g)" "take (length key + length val) (scratch g) = key @ val"
    using assms(1) grow_scratch_facts(1) [of "Suc (nkey rt + nvalue rt)" "rt\<lparr>parsestate := q\<rparr>"]
      grow_scratch_facts(2) [of "nkey rt + nvalue rt" "rt\<lparr>parsestate := q\<rparr>" "Suc (nkey rt + nvalue rt)"]
    by (auto simp: line_state_def g_def)
  have p: "http_parse_header_char (parsestate rt) c = (q, Status_value_character)"
    using assms by (simp add: line_state_def)
  have h: "header_char rt response c
      = Inr (g\<lparr>scratch := (scratch g)[nkey g + nvalue g := c], nvalue := nvalue g + 1\<rparr>, response)" for response
    by (simp add: header_char_def p Let_def g_def)
  show ?thesis
    by (rule goes_header [OF _ h])
      (use assms take_update [OF l, of c] l g in \<open>simp_all add: line_state_def frame_def\<close>)
qed

text \<open>Characters that only move the machine.\<close>

lemma quiet_char:
  assumes "line_state rt p key val" "http_parse_header_char p c = (q, st)"
    "st \<in> {Status_continue, Status_version_character, Status_status_character}"
  shows "goes rt [c] (\<lambda>rt'. line_state rt' q key val \<and> frame rt' = frame rt)"
  by (rule goes_header [where rt' = "rt\<lparr>parsestate := q\<rparr>"])
    (use assms in \<open>auto simp: header_char_def line_state_def frame_def Let_def\<close>)

abbreviation dec_from :: "int \<Rightarrow> string \<Rightarrow> int" where
  "dec_from n ds \<equiv> foldl (\<lambda>n c. n * 10 + (int (of_char c) - 48)) n ds"

lemma digit_accumulate:
  assumes "is_digit c" "0 \<le> n" "n * 10 + (int (of_char c) - 48) < 2000000000"
  shows "accumulate 10 n (sc c) (sc (CHR ''0'')) = Inr (n * 10 + (int (of_char c) - 48))"
proof -
  have c: "48 \<le> int (of_char c)" "int (of_char c) \<le> 57" using assms(1) by (auto simp: is_digit_def)
  then have "sc c = int (of_char c)" "sc (CHR ''0'') = 48" by (auto simp: sc_def Let_def)
  then show ?thesis using c assms(2,3) by (auto simp: accumulate_def in_int_def)
qed

lemma dec_from_mono: "list_all is_digit ds \<Longrightarrow> 0 \<le> n \<Longrightarrow> n \<le> dec_from n ds"
proof (induction ds arbitrary: n)
  case (Cons c ds)
  have "48 \<le> int (of_char c)" using Cons.prems(1) by (auto simp: is_digit_def)
  then have "n \<le> n * 10 + (int (of_char c) - 48)" using Cons.prems(2) by simp
  then show ?case using Cons.IH [of "n * 10 + (int (of_char c) - 48)"] Cons.prems by simp
qed simp

lemma length_loop_dec:
  "list_all is_digit ds \<Longrightarrow> 0 \<le> n \<Longrightarrow> dec_from n ds < 2000000000 \<Longrightarrow> length_loop ds n = Inr (dec_from n ds)"
proof (induction ds arbitrary: n)
  case (Cons c ds)
  define m where "m = n * 10 + (int (of_char c) - 48)"
  have c: "48 \<le> int (of_char c)" using Cons.prems(1) by (auto simp: is_digit_def)
  then have m: "0 \<le> m" using Cons.prems(2) by (simp add: m_def)
  then have "m < 2000000000" using dec_from_mono [of ds m] Cons.prems by (simp add: m_def)
  then show ?case
    using digit_accumulate [of c n] Cons.IH [OF _ m] Cons.prems by (simp add: m_def)
qed simp

text \<open>A complete line.\<close>

lemma store_line:
  assumes "line_state rt p key val" "http_parse_header_char p c = (4, Status_store_keyvalue)"
    and "header_ok (k, val)" "key = map char_tolower k"
  shows "goes rt [c] (\<lambda>rt'. line_state rt' 4 [] []
    \<and> frame rt' = (rt_code rt, framing_step (chunked rt, contentlength rt) (k, val)))"
proof -
  have kv: "take (nkey rt) (scratch rt) = key" "take (nvalue rt) (drop (nkey rt) (scratch rt)) = val"
    "nkey rt = length key" "nvalue rt = length val" "rt_state rt = Rt_header" "parsestate rt = p"
    using assms(1)
    by (auto simp: line_state_def take_add [symmetric] drop_take min_def
        dest: arg_cong [where f = "take (length key)"] arg_cong [where f = "drop (length key)"])
  have n: "length_loop val 0 = Inr (dec_val val)" if "key = ''content-length''"
    using length_loop_dec [of val 0] assms(3,4) that by (auto simp: header_ok_def number_ok_def dec_val_def)
  define r0 where "r0 = rt\<lparr>parsestate := 4\<rparr>"
  have r0: "nkey r0 = length key" "nvalue r0 = length val" "take (length key) (scratch r0) = key"
    "take (length val) (drop (length key) (scratch r0)) = val" "rt_state r0 = Rt_header" "parsestate r0 = 4"
    "rt_code r0 = rt_code rt" "chunked r0 = chunked rt" "contentlength r0 = contentlength rt"
    using kv by (simp_all add: r0_def)
  consider (te) "key = ''transfer-encoding''" | (cl) "key = ''content-length''"
    | (other) "key \<noteq> ''transfer-encoding''" "key \<noteq> ''content-length''" by auto
  then obtain rt' where r: "store_keyvalue (rt\<lparr>parsestate := 4\<rparr>) = Inr rt'"
    and l: "line_state rt' 4 [] []" "frame rt' = (rt_code rt, framing_step (chunked rt, contentlength rt) (k, val))"
  proof cases
    case te
    have "(length val = 7 \<and> val = ''chunked'') = (val = ''chunked'')" by auto
    then have "store_keyvalue r0 = Inr (r0\<lparr>chunked := val = ''chunked'', nkey := 0, nvalue := 0\<rparr>)"
      using r0 te by (simp add: store_keyvalue_def)
    then show thesis
      by (rule that [folded r0_def]) (use te assms(4) r0 in \<open>simp_all add: line_state_def frame_def framing_step_def\<close>)
  next
    case cl
    then have "store_keyvalue r0 = Inr (r0\<lparr>contentlength := dec_val val, nkey := 0, nvalue := 0\<rparr>)"
      using r0 n by (simp add: store_keyvalue_def)
    then show thesis
      by (rule that [folded r0_def]) (use cl assms(4) r0 in \<open>simp_all add: line_state_def frame_def framing_step_def\<close>)
  next
    case other
    then have "store_keyvalue r0 = Inr (r0\<lparr>nkey := 0, nvalue := 0\<rparr>)"
      using r0 by (simp add: store_keyvalue_def)
    then show thesis
      by (rule that [folded r0_def]) (use other assms(4) r0 in \<open>simp_all add: line_state_def frame_def framing_step_def\<close>)
  qed
  have "header_char rt response c = Inr (rt', response)" for response
    using assms(2) kv(6) r by (simp add: header_char_def Let_def)
  then show ?thesis
    by (rule goes_header [OF kv(5)]) (use l in \<open>auto simp: line_state_def\<close>)
qed

lemma key_chars:
  "line_state rt 4 key [] \<Longrightarrow> list_all (\<lambda>c. header_code c = 0) ks \<Longrightarrow>
    goes rt ks (\<lambda>rt'. line_state rt' 4 (key @ map char_tolower ks) [] \<and> frame rt' = frame rt)"
proof (induction ks arbitrary: rt key)
  case (Cons c ks)
  have h: "header_code c = 0" using Cons.prems by simp
  show ?case
    by (rule goes_Cons [OF key_char [OF Cons.prems(1) h]]) (rule goes_mono [OF Cons.IH], use Cons.prems in auto)
qed (simp add: goes_Nil)

lemma code_range: "header_code c \<in> {0, 1, 2, 3, 4, 5, 6}"
  by (simp add: header_code_def)

lemma value_step:
  assumes "p \<in> {7, 8}" "header_code c \<notin> {2, 3}"
  shows "http_parse_header_char p c = (if header_code c \<in> {0, 6} \<or> (p = 7 \<and> header_code c \<noteq> 5) then 7 else 8,
    Status_value_character)"
proof -
  have c: "header_code c = 0 \<or> header_code c = 1 \<or> header_code c = 4 \<or> header_code c = 5 \<or> header_code c = 6"
    using assms(2) code_range [of c] by auto
  have "p = 7 \<or> p = 8" using assms(1) by auto
  then show ?thesis using c by (elim disjE) (simp_all add: table)
qed

lemma value_chars:
  "line_state rt p key val \<Longrightarrow> p \<in> {7, 8} \<Longrightarrow> list_all (\<lambda>c. header_code c \<notin> {2, 3}) vs \<Longrightarrow>
    (if vs = [] then p = 7 else header_code (last vs) \<in> {0, 6}) \<Longrightarrow>
    goes rt vs (\<lambda>rt'. line_state rt' 7 key (val @ vs) \<and> frame rt' = frame rt)"
proof (induction vs arbitrary: rt p val)
  case (Cons c vs)
  define q :: nat where "q = (if header_code c \<in> {0, 6} \<or> (p = 7 \<and> header_code c \<noteq> 5) then 7 else 8)"
  have h: "http_parse_header_char p c = (q, Status_value_character)"
    unfolding q_def by (rule value_step) (use Cons.prems in auto)
  have "q \<in> {7, 8}" "vs = [] \<Longrightarrow> q = 7" "vs \<noteq> [] \<Longrightarrow> header_code (last vs) \<in> {0, 6}"
    using Cons.prems(4) by (auto simp: q_def)
  then show ?case
    by (intro goes_Cons [OF value_char [OF Cons.prems(1) h]])
      (rule goes_mono [OF Cons.IH [of _ q]], use Cons.prems in auto)
qed (auto intro: goes_Nil)

lemma header_line:
  assumes "line_state rt 4 [] []" "header_ok (k, v)"
  shows "goes rt (k @ '': '' @ v @ crlf) (\<lambda>rt'. line_state rt' 4 [] []
    \<and> frame rt' = (rt_code rt, framing_step (chunked rt, contentlength rt) (k, v)))"
proof -
  define key where "key = map char_tolower k"
  obtain c vs where v: "v = c # vs" "header_code c \<in> {0, 5, 6}" "list_all (\<lambda>c. header_code c \<notin> {2, 3}) vs"
    "if vs = [] then (7 :: nat) = 7 else header_code (last vs) \<in> {0, 6}"
    using assms(2) code_range [of "hd v"] by (cases v) (auto simp: header_ok_def split: if_splits)
  let ?F = "\<lambda>rt'. frame rt' = frame rt"
  have k: "goes rt k (\<lambda>rt'. line_state rt' 4 key [] \<and> ?F rt')"
    using key_chars [OF assms(1), of k] assms(2) by (simp add: header_ok_def key_def)
  have colon: "goes r '':'' (\<lambda>rt'. line_state rt' 6 key [] \<and> ?F rt')" if "line_state r 4 key [] \<and> ?F r" for r
    by (rule goes_mono [OF quiet_char [of r 4 key "[]" _ 6 Status_continue]]) (use that in \<open>auto simp: table header_code_def\<close>)
  have space: "goes r '' '' (\<lambda>rt'. line_state rt' 6 key [] \<and> ?F rt')" if "line_state r 6 key [] \<and> ?F r" for r
    by (rule goes_mono [OF quiet_char [of r 6 key "[]" _ 6 Status_continue]]) (use that in \<open>auto simp: table header_code_def\<close>)
  have first: "goes r [c] (\<lambda>rt'. line_state rt' 7 key [c] \<and> ?F rt')" if "line_state r 6 key [] \<and> ?F r" for r
    by (rule goes_mono [OF value_char [of r 6 key "[]" c 7]]) (use that v(2) in \<open>auto simp: table\<close>)
  have rest: "goes r vs (\<lambda>rt'. line_state rt' 7 key v \<and> ?F rt')" if "line_state r 7 key [c] \<and> ?F r" for r
    by (rule goes_mono [OF value_chars [of r 7 key "[c]" vs]]) (use that v in auto)
  have cr: "goes r [CHR 0x0D] (\<lambda>rt'. line_state rt' 10 key v \<and> ?F rt')" if "line_state r 7 key v \<and> ?F r" for r
    by (rule goes_mono [OF quiet_char [of r 7 key v _ 10 Status_continue]]) (use that in \<open>auto simp: table header_code_def\<close>)
  have lf: "goes r [CHR 0x0A] (\<lambda>rt'. line_state rt' 4 [] []
      \<and> frame rt' = (rt_code rt, framing_step (chunked rt, contentlength rt) (k, v)))"
    if "line_state r 10 key v \<and> ?F r" for r
    by (rule goes_mono [OF store_line [of r 10 key v "CHR 0x0A" k]])
      (use that assms(2) in \<open>auto simp: table header_code_def key_def frame_def\<close>)
  have "goes rt (k @ '':'' @ '' '' @ [c] @ vs @ [CHR 0x0D] @ [CHR 0x0A]) (\<lambda>rt'. line_state rt' 4 [] []
      \<and> frame rt' = (rt_code rt, framing_step (chunked rt, contentlength rt) (k, v)))"
    by (intro goes_append [OF k] goes_append [OF colon] goes_append [OF space] goes_append [OF first]
        goes_append [OF rest] goes_append [OF cr] lf)
  then show ?thesis by (simp add: v(1) crlf_def)
qed

lemma header_lines_read:
  "line_state rt 4 [] [] \<Longrightarrow> list_all header_ok hs \<Longrightarrow> goes rt (header_lines hs) (\<lambda>rt'. line_state rt' 4 [] []
    \<and> frame rt' = (rt_code rt, foldl framing_step (chunked rt, contentlength rt) hs))"
proof (induction hs arbitrary: rt)
  case Nil
  then show ?case by (simp add: goes_Nil header_lines_def frame_def)
next
  case (Cons h hs)
  obtain k v where h: "h = (k, v)" by (cases h)
  have l: "goes rt (k @ '': '' @ v @ crlf) (\<lambda>rt'. line_state rt' 4 [] []
      \<and> frame rt' = (rt_code rt, framing_step (chunked rt, contentlength rt) h))"
    using header_line [OF Cons.prems(1), of k v] Cons.prems(2) by (simp add: h)
  have "goes rt ((k @ '': '' @ v @ crlf) @ header_lines hs) (\<lambda>rt'. line_state rt' 4 [] []
    \<and> frame rt' = (rt_code rt, foldl framing_step (chunked rt, contentlength rt) (h # hs)))"
    by (rule goes_append [OF l], rule goes_mono [OF Cons.IH])
      (use Cons.prems in \<open>auto simp: frame_def\<close>)
  then show ?case by (simp add: h header_lines_def)
qed

section \<open>The head\<close>

lemma quiet_chars:
  assumes "\<And>c. c \<in> set s \<Longrightarrow> \<exists>st \<in> {Status_continue, Status_version_character, Status_status_character}.
      http_parse_header_char p c = (p, st)"
  shows "line_state rt p key val \<Longrightarrow> goes rt s (\<lambda>rt'. line_state rt' p key val \<and> frame rt' = frame rt)"
  using assms
proof (induction s arbitrary: rt)
  case (Cons c s)
  obtain st where st: "http_parse_header_char p c = (p, st)"
    "st \<in> {Status_continue, Status_version_character, Status_status_character}" using Cons.prems(2) [of c] by auto
  show ?case
    by (rule goes_Cons [OF quiet_char [OF Cons.prems(1) st]]) (rule goes_mono [OF Cons.IH], use Cons.prems(2) in auto)
qed (simp add: goes_Nil)

lemma code_chars:
  "line_state rt 1 [] [] \<Longrightarrow> list_all is_digit ds \<Longrightarrow> 0 \<le> rt_code rt \<Longrightarrow> dec_from (rt_code rt) ds < 2000000000 \<Longrightarrow>
    goes rt ds (\<lambda>rt'. line_state rt' 1 [] [] \<and> frame rt' = (dec_from (rt_code rt) ds, chunked rt, contentlength rt))"
proof (induction ds arbitrary: rt)
  case Nil
  then show ?case by (simp add: goes_Nil frame_def)
next
  case (Cons c ds)
  define m where "m = rt_code rt * 10 + (int (of_char c) - 48)"
  have d: "is_digit c" and c: "48 \<le> int (of_char c)" using Cons.prems(2) by (auto simp: is_digit_def)
  then have m: "0 \<le> m" "m < 2000000000"
    using dec_from_mono [of ds m] Cons.prems by (auto simp: m_def)
  have "header_code c = 0" using d by (auto simp: header_code_def is_digit_def)
  then have p: "http_parse_header_char (parsestate rt) c = (1, Status_code_character)"
    using Cons.prems(1) by (simp add: line_state_def table)
  have "header_char rt response c = Inr (rt\<lparr>parsestate := 1, rt_code := m\<rparr>, response)" for response
    using digit_accumulate [OF d Cons.prems(3)] m by (simp add: header_char_def p Let_def m_def)
  then have one: "goes rt [c] (\<lambda>rt'. line_state rt' 1 [] [] \<and> frame rt' = (m, chunked rt, contentlength rt))"
    by (rule goes_header [rotated]) (use Cons.prems(1) in \<open>auto simp: line_state_def frame_def\<close>)
  show ?case
    by (rule goes_Cons [OF one], rule goes_mono [OF Cons.IH])
      (use Cons.prems m in \<open>auto simp: frame_def m_def\<close>)
qed

lemma head_read:
  assumes "head_ok version status reason hs"
  shows "goes http_init (version @ '' '' @ status @ '' '' @ reason @ crlf @ header_lines hs @ [CHR 0x0D])
    (\<lambda>rt. line_state rt 5 [] [] \<and> frame rt = (dec_val status, framing hs))"
proof -
  have ok: "list_all (\<lambda>c. header_code c \<in> {0, 5, 6}) version" "number_ok status"
      "list_all (\<lambda>c. header_code c \<notin> {2, 3}) reason" "list_all header_ok hs"
    using assms by (simp_all add: head_ok_def)
  let ?L = "\<lambda>p n rt. line_state rt p [] [] \<and> frame rt = (n, False, - 1)"
  let ?n = "dec_val status"
  have 1: "goes http_init version (?L 0 0)"
    by (rule goes_mono [OF quiet_chars [of version 0 http_init "[]" "[]"]])
      (use ok(1) in \<open>auto simp: list_all_iff table line_state_def http_init_def frame_def\<close>)
  have 2: "goes r '' '' (?L 1 0)" if "?L 0 0 r" for r
    by (rule goes_mono [OF quiet_char [of r 0 "[]" "[]" _ 1 Status_continue]]) (use that in \<open>auto simp: table header_code_def\<close>)
  have 3: "goes r status (?L 1 ?n)" if "?L 1 0 r" for r
    by (rule goes_mono [OF code_chars]) (use that ok(2) in \<open>auto simp: number_ok_def frame_def dec_val_def\<close>)
  have 4: "goes r '' '' (?L 2 ?n)" if "?L 1 ?n r" for r
    by (rule goes_mono [OF quiet_char [of r 1 "[]" "[]" _ 2 Status_continue]]) (use that in \<open>auto simp: table header_code_def\<close>)
  have 5: "goes r reason (?L 2 ?n)" if "?L 2 ?n r" for r
  proof (rule goes_mono [OF quiet_chars [of reason 2 r "[]" "[]"]])
    fix c assume "c \<in> set reason"
    then show "\<exists>st \<in> {Status_continue, Status_version_character, Status_status_character}.
        http_parse_header_char 2 c = (2, st)"
      using ok(3) code_range [of c] by (auto simp: list_all_iff table)
  qed (use that in auto)
  have 6: "goes r [CHR 0x0D] (?L 3 ?n)" if "?L 2 ?n r" for r
    by (rule goes_mono [OF quiet_char [of r 2 "[]" "[]" _ 3 Status_continue]]) (use that in \<open>auto simp: table header_code_def\<close>)
  have 7: "goes r [CHR 0x0A] (?L 4 ?n)" if "?L 3 ?n r" for r
    by (rule goes_mono [OF quiet_char [of r 3 "[]" "[]" _ 4 Status_continue]]) (use that in \<open>auto simp: table header_code_def\<close>)
  let ?M = "\<lambda>p rt. line_state rt p [] [] \<and> frame rt = (?n, framing hs)"
  have 8: "goes r (header_lines hs) (?M 4)" if "?L 4 ?n r" for r
    by (rule goes_mono [OF header_lines_read]) (use that ok(4) in \<open>auto simp: frame_def framing_def\<close>)
  have 9: "goes r [CHR 0x0D] (?M 5)" if "?M 4 r" for r
    by (rule goes_mono [OF quiet_char [of r 4 "[]" "[]" _ 5 Status_continue]]) (use that in \<open>auto simp: table header_code_def\<close>)
  have "goes http_init (version @ '' '' @ status @ '' '' @ reason @ [CHR 0x0D] @ [CHR 0x0A] @ header_lines hs @ [CHR 0x0D]) (?M 5)"
    by (intro goes_append [OF 1] goes_append [OF 2] goes_append [OF 3] goes_append [OF 4] goes_append [OF 5]
        goes_append [OF 6] goes_append [OF 7] goes_append [OF 8] 9)
  then show ?thesis by (simp add: crlf_def)
qed

lemma http_data_Cons:
  assumes "http_data_step rt response d = Inr (rt', response', d')" "d \<noteq> []"
  shows "http_data rt response d = (if rt_finished rt' then Inr (http_free rt', response', d', False)
    else http_data rt' response' d')"
  using assms by (simp add: http_data.simps [of rt response])

lemma head_complete:
  assumes "head_ok version status reason hs"
  obtains rt where "frame rt = (dec_val status, framing hs)" "parsestate rt = 0"
    "\<And>response d. http_data http_init response (head_of version status reason hs @ d)
      = (if rt_finished (header_done rt)
         then Inr (http_free (header_done rt), response_code response (dec_val status), d, False)
         else http_data (header_done rt) (response_code response (dec_val status)) d)"
proof -
  obtain rt where l: "line_state rt 5 [] []" and f: "frame rt = (dec_val status, framing hs)"
    and r: "\<And>response d. http_data http_init response ((version @ '' '' @ status @ '' '' @ reason @ crlf
        @ header_lines hs @ [CHR 0x0D]) @ d) = http_data rt response d"
    using head_read [OF assms] unfolding goes_def by metis
  define r0 where "r0 = rt\<lparr>parsestate := 0\<rparr>"
  have st: "rt_state rt = Rt_header" "parsestate rt = 5" "rt_code rt = dec_val status"
    using l f by (simp_all add: line_state_def frame_def)
  have "http_parse_header_char 5 (CHR 0x0A) = (0, Status_done)" by (simp add: table header_code_def)
  then have s: "http_data_step rt response (CHR 0x0A # d)
      = Inr (header_done r0, response_code response (dec_val status), d)" for response d
    using st by (simp add: http_data_step_def header_char_def r0_def)
  show ?thesis
  proof (rule that [of r0])
    show "frame r0 = (dec_val status, framing hs)" using f by (simp add: r0_def frame_def)
    show "parsestate r0 = 0" by (simp add: r0_def)
    fix response d
    have "head_of version status reason hs @ d = (version @ '' '' @ status @ '' '' @ reason @ crlf
        @ header_lines hs @ [CHR 0x0D]) @ CHR 0x0A # d" by (simp add: head_of_def crlf_def)
    then show "http_data http_init response (head_of version status reason hs @ d)
      = (if rt_finished (header_done r0)
         then Inr (http_free (header_done r0), response_code response (dec_val status), d, False)
         else http_data (header_done r0) (response_code response (dec_val status)) d)"
      by (simp only: r http_data_Cons [OF s list.simps(3)])
  qed
qed

section \<open>The body\<close>

lemma raw_body:
  assumes "rt_state rt = Rt_raw_data" "contentlength rt = int (length b)" "b \<noteq> []"
  shows "http_data rt response (b @ d)
    = Inr (http_free (rt\<lparr>contentlength := 0, rt_state := Rt_close\<rparr>), response_body response b, d, False)"
proof -
  have "http_data_step rt response (b @ d) = Inr (rt\<lparr>contentlength := 0, rt_state := Rt_close\<rparr>, response_body response b, d)"
    using assms by (simp add: http_data_step_def Let_def)
  then show ?thesis using assms(3) by (simp add: http_data_Cons rt_finished_def)
qed

lemma hex_char_digit:
  assumes "is_hex_char c" "0 \<le> n" "n * 16 + hex_digit c < 2 ^ 31"
  shows "hex_step n c = Inr (n * 16 + hex_digit c)" and "0 \<le> hex_digit c" and "hex_digit c < 16"
proof -
  have "list_all (\<lambda>c. 0 \<le> hex_digit c \<and> hex_digit c < 16 \<and>
      (if sc c \<ge> sc (CHR ''a'') then sc c - sc (CHR ''a'') + 10 = hex_digit c
       else if sc c \<ge> sc (CHR ''A'') then sc c - sc (CHR ''A'') + 10 = hex_digit c
       else sc c - sc (CHR ''0'') = hex_digit c)) ''0123456789abcdefABCDEF''" by code_simp
  then have h: "0 \<le> hex_digit c" "hex_digit c < 16"
      "if sc c \<ge> sc (CHR ''a'') then sc c - sc (CHR ''a'') + 10 = hex_digit c
       else if sc c \<ge> sc (CHR ''A'') then sc c - sc (CHR ''A'') + 10 = hex_digit c
       else sc c - sc (CHR ''0'') = hex_digit c"
    using assms(1) unfolding list_all_iff is_hex_char_def by blast+
  then show "0 \<le> hex_digit c" "hex_digit c < 16" by simp_all
  have "accumulate 16 n (hex_digit c) 0 = Inr (n * 16 + hex_digit c)"
    using assms(2,3) h(1,2) by (auto simp: accumulate_def in_int_def)
  then show "hex_step n c = Inr (n * 16 + hex_digit c)"
    using h(3) unfolding hex_step_def by (auto split: if_splits)
qed

abbreviation hex_from :: "int \<Rightarrow> string \<Rightarrow> int" where
  "hex_from n hs \<equiv> foldl (\<lambda>n c. n * 16 + hex_digit c) n hs"

lemma hex_digit_nonneg: "is_hex_char c \<Longrightarrow> 0 \<le> hex_digit c"
proof -
  have "list_all (\<lambda>c. 0 \<le> hex_digit c) ''0123456789abcdefABCDEF''" by code_simp
  then show "is_hex_char c \<Longrightarrow> 0 \<le> hex_digit c" unfolding list_all_iff is_hex_char_def by blast
qed

lemma hex_from_mono: "list_all is_hex_char hs \<Longrightarrow> 0 \<le> n \<Longrightarrow> n \<le> hex_from n hs"
proof (induction hs arbitrary: n)
  case (Cons c hs)
  have "0 \<le> hex_digit c" using Cons.prems(1) hex_digit_nonneg by simp
  then show ?case using Cons.IH [of "n * 16 + hex_digit c"] Cons.prems by simp
qed simp

lemma hex_code: "is_hex_char c \<Longrightarrow> chunk_code c = 3"
proof -
  have "list_all (\<lambda>c. chunk_code c = 3) ''0123456789abcdefABCDEF''" by code_simp
  then show "is_hex_char c \<Longrightarrow> chunk_code c = 3" unfolding list_all_iff is_hex_char_def by blast
qed

text \<open>Reading the line of a chunk size; \<open>clean\<close> forgets what the chunk machine does not look at.\<close>

definition chunk_at :: "http_roundtripper \<Rightarrow> nat \<Rightarrow> int \<Rightarrow> http_roundtripper" where
  "chunk_at rt p n = rt\<lparr>rt_state := Rt_chunk_header, parsestate := p, contentlength := n\<rparr>"

lemma chunk_step:
  assumes "http_parse_chunked p n c = Inr (mr, q, m)"
  shows "http_data (chunk_at rt p n) response (c # d) =
    (if mr then http_data (chunk_at rt q m) response d
     else if m = - 1 then Inr (http_free ((chunk_at rt q m)\<lparr>rt_state := Rt_error\<rparr>), response, d, False)
     else if m = 0 then Inr (http_free ((chunk_at rt q m)\<lparr>rt_state := Rt_close\<rparr>), response, d, False)
     else http_data ((chunk_at rt q m)\<lparr>rt_state := Rt_chunk_data\<rparr>) response d)"
proof -
  define r where "r = (if mr then chunk_at rt q m
     else if m = - 1 then (chunk_at rt q m)\<lparr>rt_state := Rt_error\<rparr>
     else if m = 0 then (chunk_at rt q m)\<lparr>rt_state := Rt_close\<rparr>
     else (chunk_at rt q m)\<lparr>rt_state := Rt_chunk_data\<rparr>)"
  have "chunk_header_char (chunk_at rt p n) c = Inr r"
    using assms by (simp add: chunk_header_char_def chunk_at_def r_def Let_def)
  then have "http_data_step (chunk_at rt p n) response (c # d) = Inr (r, response, d)"
    by (simp add: http_data_step_def chunk_at_def)
  then show ?thesis by (simp add: http_data_Cons r_def rt_finished_def) (simp add: chunk_at_def)
qed

lemmas chunk_table = http_parse_chunked_def http_chunk_state_def Let_def

lemma chunk_digits:
  "list_all is_hex_char hs \<Longrightarrow> 0 \<le> n \<Longrightarrow> hex_from n hs < 2 ^ 31 \<Longrightarrow>
    http_data (chunk_at rt 1 n) response (hs @ d) = http_data (chunk_at rt 1 (hex_from n hs)) response d"
proof (induction hs arbitrary: n)
  case (Cons c hs)
  define m where "m = n * 16 + hex_digit c"
  have "0 \<le> m" using Cons.prems hex_digit_nonneg [of c] by (simp add: m_def)
  then have m: "0 \<le> m" "m < 2 ^ 31" using hex_from_mono [of hs m] Cons.prems by (auto simp: m_def)
  have h: "hex_step n c = Inr m"
    using hex_char_digit(1) [of c n] Cons.prems m by (simp add: m_def)
  have "http_parse_chunked 1 n c = Inr (True, 1, m)"
    using hex_code [of c] Cons.prems(1) h by (simp add: chunk_table)
  then show ?case using Cons.IH [OF _ m(1)] Cons.prems by (simp add: chunk_step m_def)
qed simp

lemma chunk_first:
  assumes "list_all is_hex_char hs" "hs \<noteq> []" "hex_val hs < 2 ^ 31"
  shows "http_data (chunk_at rt 0 n) response (hs @ d) = http_data (chunk_at rt 1 (hex_val hs)) response d"
proof -
  obtain c cs where hs: "hs = c # cs" using assms(2) by (cases hs) auto
  have z: "0 \<le> hex_digit c" using assms(1) hex_digit_nonneg by (simp add: hs)
  then have "hex_digit c < 2 ^ 31" using hex_from_mono [of cs "hex_digit c"] assms(1,3) by (simp add: hs hex_val_def)
  then have "hex_step 0 c = Inr (hex_digit c)" using hex_char_digit(1) [of c 0] assms(1) by (simp add: hs)
  then have "http_parse_chunked 0 n c = Inr (True, 1, hex_digit c)"
    using hex_code [of c] assms(1) by (simp add: chunk_table hs)
  then have "http_data (chunk_at rt 0 n) response (c # cs @ d) = http_data (chunk_at rt 1 (hex_digit c)) response (cs @ d)"
    by (simp add: chunk_step)
  then show ?thesis
    using chunk_digits [of cs "hex_digit c" rt response d] assms z by (simp add: hs hex_val_def)
qed

lemma line_ends:
  "http_parse_chunked 1 n (CHR 0x0D) = Inr (True, 2, n)" "http_parse_chunked 2 n (CHR 0x0A) = Inr (n = 0, 3, n)"
  "http_parse_chunked 3 n (CHR 0x0D) = Inr (True, 4, n)" "http_parse_chunked 4 n (CHR 0x0A) = Inr (n \<noteq> 0, 0, n)"
  by (simp_all add: chunk_table chunk_code_def is_hex_char_def)

lemma chunk_at_state [simp]: "rt_state (chunk_at rt p n) = Rt_chunk_header"
  by (cases rt) (simp add: chunk_at_def)

lemma one_chunk:
  assumes "chunk_ok (hs, b)"
  shows "http_data (chunk_at rt 0 n) response (hs @ crlf @ b @ crlf @ d)
    = http_data (chunk_at rt 0 1) (response_body response b) d"
proof -
  have c: "hs \<noteq> []" "list_all is_hex_char hs" "b \<noteq> []" "hex_val hs = int (length b)" "hex_val hs < 2 ^ 31"
    using assms by (simp_all add: chunk_ok_def)
  define r where "r = (chunk_at rt 3 (int (length b)))\<lparr>rt_state := Rt_chunk_data\<rparr>"
  have "http_data (chunk_at rt 0 n) response (hs @ crlf @ b @ crlf @ d) = http_data r response (b @ crlf @ d)"
    using c by (simp add: chunk_first crlf_def chunk_step line_ends r_def del: One_nat_def)
  also have "http_data r response (b @ crlf @ d) = http_data (chunk_at rt 3 1) (response_body response b) (crlf @ d)"
  proof -
    have "\<not> rt_finished (chunk_at rt 3 1)" by (simp add: rt_finished_def)
    moreover have "http_data_step r response (b @ crlf @ d) = Inr (chunk_at rt 3 1, response_body response b, crlf @ d)"
      by (simp add: http_data_step_def r_def Let_def chunk_at_def)
    ultimately show ?thesis using c(3) by (simp add: http_data_Cons)
  qed
  also have "\<dots> = http_data (chunk_at rt 0 1) (response_body response b) d"
    by (simp add: crlf_def chunk_step line_ends)
  finally show ?thesis .
qed

lemma response_body_twice: "response_body (response_body r a) b = response_body r (a @ b)"
  by (simp add: response_body_def)

lemma chunked_body:
  "list_all chunk_ok cs \<Longrightarrow>
    \<exists>rt'. http_data (chunk_at rt 0 n) response (chunk_lines cs @ d)
      = Inr (rt', response_body response (concat (map snd cs)), d, False) \<and> rt_state rt' = Rt_close"
proof (induction cs arbitrary: n response)
  case Nil
  have z: "list_all is_hex_char ''0''" "hex_val ''0'' = 0" by code_simp+
  have "http_data (chunk_at rt 0 n) response (''0'' @ crlf @ crlf @ d)
      = http_data (chunk_at rt 1 0) response (crlf @ crlf @ d)"
    using chunk_first [OF z(1), of rt n response "crlf @ crlf @ d"] z(2) by simp
  then show ?case
    by (simp add: crlf_def chunk_step line_ends chunk_lines_def response_body_def http_free_def chunk_step [OF line_ends(4)] del: One_nat_def)
next
  case (Cons c cs)
  obtain hs b where c: "c = (hs, b)" by (cases c)
  have "chunk_lines (c # cs) @ d = hs @ crlf @ b @ crlf @ chunk_lines cs @ d"
    by (simp add: chunk_lines_def c)
  then show ?case
    using Cons.IH [of 1 "response_body response b"] Cons.prems one_chunk [of hs b rt n response]
    by (simp add: c response_body_twice)
qed

section \<open>Complete responses\<close>

datatype http_body = Sized string | Chunks "(string \<times> string) list" | Until_close string

fun body_lines :: "http_body \<Rightarrow> string" where
  "body_lines (Sized b) = b"
| "body_lines (Chunks cs) = chunk_lines cs"
| "body_lines (Until_close b) = b"

fun body_content :: "http_body \<Rightarrow> string" where
  "body_content (Sized b) = b"
| "body_content (Chunks cs) = concat (map snd cs)"
| "body_content (Until_close b) = b"

text \<open>The headers announce the body as it is sent.\<close>

fun announced :: "(string \<times> string) list \<Rightarrow> http_body \<Rightarrow> bool" where
  "announced hs (Sized b) = (framing hs = (False, int (length b)))"
| "announced hs (Chunks cs) = (fst (framing hs) \<and> list_all chunk_ok cs)"
| "announced hs (Until_close b) = (framing hs = (False, - 1))"

definition response_text :: "string \<Rightarrow> string \<Rightarrow> string \<Rightarrow> (string \<times> string) list \<Rightarrow> http_body \<Rightarrow> string" where
  "response_text version status reason hs body = head_of version status reason hs @ body_lines body"

definition empty_response :: HttpResponseTiny where
  "empty_response = \<lparr>rsp_body = [], rsp_code = 0\<rparr>"

lemma response_read:
  assumes "head_ok version status reason hs" "announced hs body" "\<forall>b. body \<noteq> Until_close b"
  shows "\<exists>rt. http_data http_init empty_response (response_text version status reason hs body @ rest)
      = Inr (rt, \<lparr>rsp_body = body_content body, rsp_code = dec_val status\<rparr>, rest, False) \<and> rt_state rt = Rt_close"
proof -
  obtain rt where f: "frame rt = (dec_val status, framing hs)" "parsestate rt = 0"
    and h: "\<And>response d. http_data http_init response (head_of version status reason hs @ d)
      = (if rt_finished (header_done rt)
         then Inr (http_free (header_done rt), response_code response (dec_val status), d, False)
         else http_data (header_done rt) (response_code response (dec_val status)) d)"
    using head_complete [OF assms(1)] by blast
  define r where "r = header_done rt"
  have e: "response_code empty_response (dec_val status) = \<lparr>rsp_body = [], rsp_code = dec_val status\<rparr>"
    by (simp add: empty_response_def response_code_def)
  show ?thesis
  proof (cases body)
    case (Sized b)
    then have c: "chunked rt = False" "contentlength rt = int (length b)"
      using assms(2) f(1) by (simp_all add: frame_def)
    show ?thesis
    proof (cases "b = []")
      case True
      then have "r = rt\<lparr>rt_state := Rt_close\<rparr>" using c f(2) by (simp add: r_def header_done_def)
      then show ?thesis using True Sized
        by (simp add: response_text_def h e r_def [symmetric] rt_finished_def http_free_def)
    next
      case False
      then have r: "r = rt\<lparr>rt_state := Rt_raw_data\<rparr>" using c f(2) by (simp add: r_def header_done_def)
      then have "http_data r (response_code empty_response (dec_val status)) (b @ rest)
          = Inr (http_free (r\<lparr>contentlength := 0, rt_state := Rt_close\<rparr>),
              response_body (response_code empty_response (dec_val status)) b, rest, False)"
        using c False by (intro raw_body) simp_all
      then show ?thesis using Sized r
        by (simp add: response_text_def h e r_def [symmetric] rt_finished_def http_free_def response_body_def)
    qed
  next
    case (Chunks cs)
    then have c: "chunked rt" "list_all chunk_ok cs"
      using assms(2) f(1) by (cases "framing hs"; auto simp: frame_def)+
    then have r: "r = chunk_at rt 0 0"
      using f(2) by (cases rt) (simp add: r_def header_done_def chunk_at_def)
    have n: "\<not> rt_finished r" using r by (simp add: rt_finished_def)
    show ?thesis
      using chunked_body [OF c(2), of rt 0 "response_code empty_response (dec_val status)" rest] Chunks n
      by (auto simp: response_text_def h r_def [symmetric] r [symmetric] e response_body_def)
  next
    case (Until_close b)
    then show ?thesis using assms(3) by simp
  qed
qed

text \<open>A body that ends with the connection is collected, and the length stays -1.\<close>

lemma response_read_until_close:
  assumes "head_ok version status reason hs" "announced hs (Until_close b)"
  shows "\<exists>rt. http_data http_init empty_response (response_text version status reason hs (Until_close b))
      = Inr (rt, \<lparr>rsp_body = b, rsp_code = dec_val status\<rparr>, [], True)
    \<and> rt_state rt = Rt_unknown_data \<and> contentlength rt = - 1"
proof -
  obtain rt where f: "frame rt = (dec_val status, framing hs)" "parsestate rt = 0"
    and h: "\<And>response d. http_data http_init response (head_of version status reason hs @ d)
      = (if rt_finished (header_done rt)
         then Inr (http_free (header_done rt), response_code response (dec_val status), d, False)
         else http_data (header_done rt) (response_code response (dec_val status)) d)"
    using head_complete [OF assms(1)] by blast
  have c: "chunked rt = False" "contentlength rt = - 1" using assms(2) f(1) by (simp_all add: frame_def)
  then have r: "header_done rt = rt\<lparr>rt_state := Rt_unknown_data\<rparr>" using f(2) by (simp add: header_done_def)
  have u: "http_data (rt\<lparr>rt_state := Rt_unknown_data\<rparr>) response b
      = Inr (rt\<lparr>rt_state := Rt_unknown_data\<rparr>, response_body response b, [], True)" for response
    by (cases "b = []") (simp_all add: http_data.simps [of _ _ "[]"] http_data_Cons http_data_step_def rt_finished_def
        response_body_def)
  show ?thesis
    using h [of empty_response b] u c(2)
    by (simp add: response_text_def r rt_finished_def empty_response_def response_code_def response_body_def)
qed

end
