(* ===== verification/Tls_Client.thy ===== *)
theory Tls_Client
  imports Http_Response
begin

text \<open>
  The HTTPS client of the scrapers (\<open>tls_client_tiny.cpp\<close>, \<open>tls_client.h\<close>): the request message, the
  write loop, the read loop around the response parser, and the sequence of \<open>getResponse\<close>.  The TLS
  library is a parameter: the results of its calls in the order the code makes them.  A list of
  results that ends stands for a call that has not returned yet; the value is then \<open>None\<close>.
\<close>

section \<open>Requests\<close>

record HttpRequest =
  host :: string
  port :: string
  url :: string
  headers :: "string list"
  isHttp11 :: bool

fun substring_of :: "string \<Rightarrow> string \<Rightarrow> bool" where
  "substring_of p [] = (p = [])"
| "substring_of p (c # s) = (prefix_of p (c # s) \<or> substring_of p s)"

definition GET_END :: string where
  "GET_END = crlf"

definition buildRequestMessage :: "HttpRequest \<Rightarrow> string" where
  "buildRequestMessage req =
     (let m = ''GET '' @ url req;
          m = (if isHttp11 req \<and> \<not> substring_of ''HTTP/1.1'' m then m @ '' HTTP/1.1'' else m);
          m = m @ crlf;
          m = m @ concat (map (\<lambda>h. h @ crlf) (headers req));
          m = m @ ''Accept: text/html'' @ crlf;
          m = (if isHttp11 req \<and> \<not> substring_of ''Host:'' m then m @ ''Host: '' @ host req @ crlf else m)
      in m @ GET_END)"

definition printableRequest :: "string \<Rightarrow> string" where
  "printableRequest request =
     concat (map (\<lambda>c. if c = CHR 0x0D then [CHR 0x5C, CHR ''r''] else if c = CHR 0x0A then [CHR 0x5C, CHR ''n''] else [c])
       request)"

section \<open>Results of the TLS library\<close>

definition ERR_SSL_WANT_READ :: int where "ERR_SSL_WANT_READ = - 0x6900"
definition ERR_SSL_WANT_WRITE :: int where "ERR_SSL_WANT_WRITE = - 0x6880"
definition ERR_SSL_PEER_CLOSE_NOTIFY :: int where "ERR_SSL_PEER_CLOSE_NOTIFY = - 0x7880"
definition ERR_NET_CONN_RESET :: int where "ERR_NET_CONN_RESET = - 0x0050"

definition wants :: "int \<Rightarrow> bool" where
  "wants ret \<longleftrightarrow> ret = ERR_SSL_WANT_READ \<or> ret = ERR_SSL_WANT_WRITE"

text \<open>A read that returns: the bytes it read, or its result when that is not positive.\<close>

datatype ssl_event = Ssl_data string | Ssl_ret int

section \<open>Sending\<close>

text \<open>The bytes handed to \<open>mbedtls_ssl_write\<close> and accepted by it, in order.\<close>

fun send_loop :: "string \<Rightarrow> nat \<Rightarrow> int list \<Rightarrow> string \<Rightarrow> string res option" where
  "send_loop msg written [] sent = (if written < length msg then None else Some (Inr sent))"
| "send_loop msg written (ret # rets) sent =
     (if \<not> written < length msg then Some (Inr sent)
      else if ret > 0 then send_loop msg (written + nat ret) rets (sent @ take (nat ret) (drop written msg))
      else if wants ret then send_loop msg written rets sent
      else Some (Inl (Throw (Runtime_error ''mbedtls_ssl_write''))))"

definition sendRequest :: "HttpRequest \<Rightarrow> int list \<Rightarrow> string res option" where
  "sendRequest req rets = send_loop (buildRequestMessage req) 0 rets []"

section \<open>Receiving\<close>

text \<open>The inner loop: \<open>http_data\<close> until the data is used up or the response is complete.\<close>

function recv_data ::
  "http_roundtripper \<Rightarrow> HttpResponseTiny \<Rightarrow> string \<Rightarrow> (http_roundtripper \<times> HttpResponseTiny \<times> bool) res" where
  "recv_data rt response d =
     (if d = [] then Inr (rt, response, True)
      else bind_res (http_data rt response d) (\<lambda>(rt, response, rest, need_more).
             if need_more then recv_data rt response rest else Inr (rt, response, False)))"
  by pat_completeness auto
termination
  by (relation "measure (\<lambda>(rt, response, d). length d)") (auto dest: http_data_more)

declare recv_data.simps [simp del]

definition read_error :: "int \<Rightarrow> string" where
  "read_error ret =
     (if ret = ERR_SSL_PEER_CLOSE_NOTIFY then ''connection was closed gracefully''
      else if ret = ERR_NET_CONN_RESET then ''connected reset''
      else ''mbedtls_ssl_read returned non-sense'')"

fun recv_loop ::
  "http_roundtripper \<Rightarrow> HttpResponseTiny \<Rightarrow> ssl_event list \<Rightarrow> (http_roundtripper \<times> HttpResponseTiny) res option" where
  "recv_loop rt response [] = None"
| "recv_loop rt response (Ssl_data d # es) =
     (case recv_data rt response d of
        Inl e \<Rightarrow> Some (Inl e)
      | Inr (rt, response, need_more) \<Rightarrow>
          if need_more then recv_loop rt response es else Some (Inr (rt, response)))"
| "recv_loop rt response (Ssl_ret n_data # es) =
     (if wants n_data then recv_loop rt response es
      else if n_data = 0 \<and> contentlength rt = - 1 then Some (Inr (rt, response))
      else if n_data < 0 then Some (Inl (Throw (Runtime_error (read_error n_data))))
      else recv_loop rt response es)"

fun nat_digits :: "nat \<Rightarrow> string" where
  "nat_digits n = (if n < 10 then [char_of (48 + n)] else nat_digits (n div 10) @ [char_of (48 + n mod 10)])"

declare nat_digits.simps [simp del]

definition to_string :: "int \<Rightarrow> string" where
  "to_string n = (if n < 0 then CHR ''-'' # nat_digits (nat (- n)) else nat_digits (nat n))"

record HttpResponse =
  statusCode :: int
  content :: string

text \<open>What \<open>getResponse\<close> does after the request is sent.\<close>

definition receive :: "ssl_event list \<Rightarrow> HttpResponse res option" where
  "receive es =
     (case recv_loop http_init \<lparr>rsp_body = [], rsp_code = 0\<rparr> es of
        None \<Rightarrow> None
      | Some (Inl e) \<Rightarrow> Some (Inl e)
      | Some (Inr (rt, response)) \<Rightarrow>
          if http_iserror rt
          then Some (Inl (Throw (Runtime_error (''http roundtrip error code='' @ to_string (rt_code rt)))))
          else Some (Inr \<lparr>statusCode = rsp_code response, content = rsp_body response\<rparr>))"

section \<open>The connection\<close>

fun handshake_loop :: "int list \<Rightarrow> unit res option" where
  "handshake_loop [] = None"
| "handshake_loop (ret # rets) =
     (if ret = 0 then Some (Inr ())
      else if \<not> wants ret then Some (Inl (Throw (Runtime_error ''mbedtls_ssl_handshake failed.'')))
      else handshake_loop rets)"

record tls_results =
  net_connect :: int
  net_set_block :: int
  ssl_config_defaults :: int
  ssl_conf_max_frag_len :: int
  ssl_setup :: int
  ssl_set_hostname :: int
  handshakes :: "int list"
  writes :: "int list"
  reads :: "ssl_event list"

text \<open>The constructor: the results of seeding the generator and of parsing the CA bundle.\<close>

definition httpsClient :: "int \<Rightarrow> int \<Rightarrow> unit res" where
  "httpsClient seed crt_parse =
     (if seed \<noteq> 0 then Inl (Throw (Runtime_error ''mbedtls_ctr_drbg_seed failed''))
      else if crt_parse < 0 then Inl (Throw (Runtime_error ''mbedtls_x509_crt_parse failed''))
      else Inr ())"

text \<open>The bytes sent and the response.\<close>

definition getResponse :: "HttpRequest \<Rightarrow> tls_results \<Rightarrow> (string \<times> HttpResponse) res option" where
  "getResponse req tls =
     (if net_connect tls \<noteq> 0 then Some (Inl (Throw (Runtime_error ''mbedtls_net_connect returned'')))
      else if net_set_block tls \<noteq> 0 then Some (Inl (Throw (Runtime_error ''net_set_(non)block()'')))
      else if ssl_config_defaults tls \<noteq> 0 then Some (Inl (Throw (Runtime_error ''mbedtls_ssl_config_defaults'')))
      else if ssl_conf_max_frag_len tls \<noteq> 0 then Some (Inl (Throw (Runtime_error ''mbedtls_ssl_conf_max_frag_len'')))
      else if ssl_setup tls \<noteq> 0 then Some (Inl (Throw (Runtime_error ''mbedtls_ssl_setup'')))
      else if ssl_set_hostname tls \<noteq> 0 then Some (Inl (Throw (Runtime_error ''mbedtls_ssl_set_hostname'')))
      else case handshake_loop (handshakes tls) of
             None \<Rightarrow> None
           | Some (Inl e) \<Rightarrow> Some (Inl e)
           | Some (Inr _) \<Rightarrow>
               (case sendRequest req (writes tls) of
                  None \<Rightarrow> None
                | Some (Inl e) \<Rightarrow> Some (Inl e)
                | Some (Inr sent) \<Rightarrow>
                    (case receive (reads tls) of
                       None \<Rightarrow> None
                     | Some (Inl e) \<Rightarrow> Some (Inl e)
                     | Some (Inr r) \<Rightarrow> Some (Inr (sent, r)))))"

fun close_loop :: "int list \<Rightarrow> int option" where
  "close_loop [] = None"
| "close_loop (ret # rets) = (if ret = ERR_SSL_WANT_WRITE then close_loop rets else Some 0)"

section \<open>The read loop is the parser on the stream\<close>

fun stream_of :: "ssl_event list \<Rightarrow> string" where
  "stream_of [] = []"
| "stream_of (Ssl_data d # es) = d @ stream_of es"
| "stream_of (Ssl_ret n # es) = stream_of es"

fun flowing :: "ssl_event \<Rightarrow> bool" where
  "flowing (Ssl_data d) = True"
| "flowing (Ssl_ret n) = wants n"

lemma recv_data_http: "recv_data rt response d
    = bind_res (http_data rt response d) (\<lambda>(rt, response, rest, need_more). Inr (rt, response, need_more))"
proof (cases "http_data rt response d")
  case (Inl e)
  then show ?thesis by (cases "d = []") (simp_all add: recv_data.simps [of rt response d] http_data.simps [of _ _ "[]"])
next
  case (Inr r)
  obtain rt' response' rest m where r: "r = (rt', response', rest, m)" by (cases r)
  show ?thesis
  proof (cases "d = []")
    case True
    then show ?thesis by (simp add: recv_data.simps http_data.simps)
  next
    case False
    have "rest = []" if m using that Inr r http_data_more [of rt response d] by auto
    then show ?thesis
      using False Inr r by (auto simp: recv_data.simps [of rt response d] recv_data.simps [of _ _ "[]"])
  qed
qed

lemma recv_loop_stream:
  assumes "list_all flowing es"
  shows "recv_loop rt response (es @ fs) =
    (case http_data rt response (stream_of es) of
       Inl e \<Rightarrow> Some (Inl e)
     | Inr (rt', response', rest, need_more) \<Rightarrow>
         if need_more then recv_loop rt' response' fs else Some (Inr (rt', response')))"
  using assms
proof (induction es arbitrary: rt response)
  case Nil
  then show ?case by (simp add: http_data.simps)
next
  case (Cons e es)
  show ?case
  proof (cases e)
    case (Ssl_ret n)
    then show ?thesis using Cons by simp
  next
    case (Ssl_data d)
    then show ?thesis
      using Cons by (auto simp: recv_data_http http_data_append feed_def bind_res_def split: sum.splits)
  qed
qed

section \<open>Properties\<close>

fun closes :: "http_body \<Rightarrow> bool" where
  "closes (Until_close b) = True"
| "closes b = False"

lemma receive_response:
  assumes "head_ok version status reason hs" "announced hs body" "list_all flowing es"
    and "stream_of es = response_text version status reason hs body @ (if closes body then [] else rest)"
  shows "receive (es @ (if closes body then [Ssl_ret 0] else fs))
    = Some (Inr \<lparr>statusCode = dec_val status, content = body_content body\<rparr>)"
proof (cases "closes body")
  case True
  then obtain b where b: "body = Until_close b" by (cases body) auto
  then show ?thesis
    using response_read_until_close [OF assms(1), of b] assms(2-4) recv_loop_stream [OF assms(3)]
    by (auto simp: receive_def empty_response_def wants_def ERR_SSL_WANT_READ_def ERR_SSL_WANT_WRITE_def http_iserror_def)
next
  case False
  then have "\<forall>b. body \<noteq> Until_close b" by auto
  from response_read [OF assms(1,2) this, of rest] show ?thesis
    using assms(4) recv_loop_stream [OF assms(3)] False
    by (auto simp: receive_def empty_response_def http_iserror_def)
qed

lemma send_loop_sends:
  "send_loop msg written rets sent = Some (Inr out) \<Longrightarrow> sent = take written msg \<Longrightarrow> out = msg"
proof (induction msg written rets sent rule: send_loop.induct)
  case (2 msg written ret rets sent)
  then show ?case by (auto simp: take_add split: if_splits)
qed (auto split: if_splits)

text \<open>C37: A page is fetched as it was sent.  When the connection is set up and the handshake and the
  writes succeed, the bytes the TLS library accepted are the request message, whatever the sizes of
  the partial writes, and for every response with a content length, a chunked body, or a body that ends
  with the connection, the client returns its status code and its body, however the stream is cut into
  reads and interrupted by reads that want to be repeated.\<close>

theorem https_get:
  assumes "net_connect tls = 0" "net_set_block tls = 0" "ssl_config_defaults tls = 0" "ssl_conf_max_frag_len tls = 0"
    and "ssl_setup tls = 0" "ssl_set_hostname tls = 0"
    and "handshake_loop (handshakes tls) = Some (Inr ())"
    and "sendRequest req (writes tls) = Some (Inr sent)"
    and "head_ok version status reason hs" "announced hs body" "list_all flowing es"
    and "reads tls = es @ (if closes body then [Ssl_ret 0] else fs)"
    and "stream_of es = response_text version status reason hs body @ (if closes body then [] else rest)"
  shows "getResponse req tls
    = Some (Inr (buildRequestMessage req, \<lparr>statusCode = dec_val status, content = body_content body\<rparr>))"
proof -
  have "sent = buildRequestMessage req"
    using assms(8) send_loop_sends [of "buildRequestMessage req" 0 "writes tls" "[]" sent]
    by (simp add: sendRequest_def)
  moreover have "receive (reads tls) = Some (Inr \<lparr>statusCode = dec_val status, content = body_content body\<rparr>)"
    unfolding assms(12) by (rule receive_response [OF assms(9-11,13)])
  ultimately show ?thesis using assms(1-8) by (simp add: getResponse_def)
qed

definition example_request :: HttpRequest where
  "example_request = \<lparr>host = ''h'', port = ''443'', url = ''/'', headers = [], isHttp11 = True\<rparr>"

definition example_tls :: tls_results where
  "example_tls = \<lparr>net_connect = 0, net_set_block = 0, ssl_config_defaults = 0, ssl_conf_max_frag_len = 0, ssl_setup = 0,
     ssl_set_hostname = 0, handshakes = [ERR_SSL_WANT_READ, 0], writes = [20, ERR_SSL_WANT_WRITE, 40],
     reads = [Ssl_data (''HTTP/1.1 200 OK'' @ crlf @ ''Transfer-Enc''), Ssl_ret ERR_SSL_WANT_READ,
       Ssl_data (''oding: chunked'' @ crlf @ crlf @ ''3'' @ [CHR 0x0D]), Ssl_data ([CHR 0x0A] @ ''ab''),
       Ssl_data (''c'' @ crlf @ ''0'' @ crlf), Ssl_data crlf]\<rparr>"

theorem https_get_witness:
  "getResponse example_request example_tls
    = Some (Inr (''GET / HTTP/1.1'' @ crlf @ ''Accept: text/html'' @ crlf @ ''Host: h'' @ crlf @ crlf,
        \<lparr>statusCode = 200, content = ''abc''\<rparr>))"
proof -
  have m: "buildRequestMessage example_request
      = ''GET / HTTP/1.1'' @ crlf @ ''Accept: text/html'' @ crlf @ ''Host: h'' @ crlf @ crlf" by code_simp
  have h: "handshake_loop (handshakes example_tls) = Some (Inr ())" by code_simp
  have w: "sendRequest example_request (writes example_tls) = Some (Inr (buildRequestMessage example_request))" by code_simp
  have ok: "head_ok ''HTTP/1.1'' ''200'' ''OK'' [(''Transfer-Encoding'', ''chunked'')]" by code_simp
  have an: "announced [(''Transfer-Encoding'', ''chunked'')] (Chunks [(''3'', ''abc'')])" by code_simp
  have fl: "list_all flowing (reads example_tls)" by code_simp
  have st: "stream_of (reads example_tls) = response_text ''HTTP/1.1'' ''200'' ''OK'' [(''Transfer-Encoding'', ''chunked'')]
      (Chunks [(''3'', ''abc'')]) @ []" by code_simp
  have "dec_val ''200'' = 200" by code_simp
  then show ?thesis
    using https_get [OF _ _ _ _ _ _ h w ok an fl, where rest = "[]" and fs = "[]"] st m
    by (simp add: example_tls_def del: http_body.simps)
qed

lemma eof_loop: "contentlength rt \<noteq> - 1 \<Longrightarrow> recv_loop rt response (replicate n (Ssl_ret 0)) = None"
  by (induction n) (simp_all add: wants_def ERR_SSL_WANT_READ_def ERR_SSL_WANT_WRITE_def)

lemma sized_partial:
  assumes "head_ok version status reason hs" "framing hs = (False, int (length b1 + length b2))" "b2 \<noteq> []"
  shows "\<exists>rt response. http_data http_init empty_response (head_of version status reason hs @ b1) = Inr (rt, response, [], True)
    \<and> contentlength rt = int (length b2)"
proof -
  obtain rt where f: "frame rt = (dec_val status, framing hs)" "parsestate rt = 0"
    and h: "\<And>response d. http_data http_init response (head_of version status reason hs @ d)
      = (if rt_finished (header_done rt)
         then Inr (http_free (header_done rt), response_code response (dec_val status), d, False)
         else http_data (header_done rt) (response_code response (dec_val status)) d)"
    using head_complete [OF assms(1)] by blast
  have "chunked rt = False" "contentlength rt = int (length b1 + length b2)" using assms(2) f(1) by (simp_all add: frame_def)
  moreover have "0 < int (length b2)" using assms(3) by simp
  then have "0 < int (length b1) + int (length b2)" by linarith
  ultimately have r: "header_done rt = rt\<lparr>rt_state := Rt_raw_data\<rparr>" and n: "contentlength rt = int (length b1 + length b2)"
    using f(2) by (simp_all add: header_done_def)
  show ?thesis
  proof (cases "b1 = []")
    case True
    then show ?thesis using n h [of empty_response "[]"] assms(3)
      by (auto simp: r rt_finished_def http_data.simps [of _ _ "[]"])
  next
    case False
    have "nat (int (length b1 + length b2)) = length b1 + length b2" by simp
    then have "http_data_step (header_done rt) response b1
        = Inr (rt\<lparr>rt_state := Rt_raw_data, contentlength := int (length b2)\<rparr>, response_body response b1, [])" for response
      using n assms(3) by (simp add: r http_data_step_def Let_def)
    then show ?thesis
      using False by (auto simp: h http_data_Cons r rt_finished_def http_data.simps [of _ _ "[]"])
  qed
qed

text \<open>C38: A response cut short is waited for forever.  When the stream ends in front of the last byte of a body
  whose length was announced, \<open>getResponse\<close> does not return, however often \<open>mbedtls_ssl_read\<close> reports
  the end of the stream: the loop leaves only when no length was announced.\<close>

theorem eof_waits_forever:
  assumes "head_ok version status reason hs" "announced hs (Sized (b1 @ b2))" "b2 \<noteq> []"
    and "list_all flowing es" "stream_of es = head_of version status reason hs @ b1"
  shows "receive (es @ replicate n (Ssl_ret 0)) = None"
proof -
  obtain rt response where "http_data http_init empty_response (stream_of es) = Inr (rt, response, [], True)"
    "contentlength rt = int (length b2)"
    using sized_partial [OF assms(1) _ assms(3), of b1] assms(2,5) by auto
  then show ?thesis
    using recv_loop_stream [OF assms(4)] eof_loop [of rt]
    by (simp add: receive_def empty_response_def)
qed

theorem eof_waits_forever_witness:
  "receive (Ssl_data (''HTTP/1.1 200 OK'' @ crlf @ ''Content-Length: 2'' @ crlf @ crlf @ ''a'') # replicate 1000 (Ssl_ret 0)) = None"
proof -
  let ?es = "[Ssl_data (''HTTP/1.1 200 OK'' @ crlf @ ''Content-Length: 2'' @ crlf @ crlf @ ''a'')]"
  have ok: "head_ok ''HTTP/1.1'' ''200'' ''OK'' [(''Content-Length'', ''2'')]" by code_simp
  have an: "announced [(''Content-Length'', ''2'')] (Sized (''a'' @ ''b''))" by code_simp
  have st: "stream_of ?es = head_of ''HTTP/1.1'' ''200'' ''OK'' [(''Content-Length'', ''2'')] @ ''a''" by code_simp
  show ?thesis using eof_waits_forever [OF ok an _ _ st, of 1000] by simp
qed

text \<open>C39: A response without a length can be cut anywhere.  The end of the TCP stream, which nobody signs, is
  accepted as the end of such a body after any number of its bytes, and also before the first byte of the
  response, as status 0 with an empty body; the signed end of the TLS connection, a close
  notification, is an error.\<close>

theorem eof_truncates:
  assumes "head_ok version status reason hs" "framing hs = (False, - 1)"
    and "list_all flowing es" "stream_of es = head_of version status reason hs @ b"
  shows "receive (es @ Ssl_ret 0 # fs) = Some (Inr \<lparr>statusCode = dec_val status, content = b\<rparr>)
    \<and> receive (es @ Ssl_ret ERR_SSL_PEER_CLOSE_NOTIFY # fs)
        = Some (Inl (Throw (Runtime_error ''connection was closed gracefully'')))
    \<and> receive (Ssl_ret 0 # fs) = Some (Inr \<lparr>statusCode = 0, content = []\<rparr>)"
proof -
  have w: "\<not> wants 0" "\<not> wants ERR_SSL_PEER_CLOSE_NOTIFY"
    by (simp_all add: wants_def ERR_SSL_WANT_READ_def ERR_SSL_WANT_WRITE_def ERR_SSL_PEER_CLOSE_NOTIFY_def)
  obtain rt where "http_data http_init empty_response (stream_of es)
      = Inr (rt, \<lparr>rsp_body = b, rsp_code = dec_val status\<rparr>, [], True)" "rt_state rt = Rt_unknown_data" "contentlength rt = - 1"
    using response_read_until_close [OF assms(1), of b] assms(2,4) by (auto simp: response_text_def)
  then show ?thesis
    using recv_loop_stream [OF assms(3)] w
    by (simp add: receive_def empty_response_def http_iserror_def read_error_def ERR_SSL_PEER_CLOSE_NOTIFY_def)
      (simp add: http_init_def)
qed

theorem eof_truncates_witness:
  "receive [Ssl_data (''HTTP/1.1 200 OK'' @ crlf @ crlf @ ''price: 1''), Ssl_ret 0]
    = Some (Inr \<lparr>statusCode = 200, content = ''price: 1''\<rparr>)"
proof -
  let ?es = "[Ssl_data (''HTTP/1.1 200 OK'' @ crlf @ crlf @ ''price: 1'')]"
  have ok: "head_ok ''HTTP/1.1'' ''200'' ''OK'' []" by code_simp
  have fr: "framing [] = (False, - 1)" by code_simp
  have st: "stream_of ?es = head_of ''HTTP/1.1'' ''200'' ''OK'' [] @ ''price: 1''" by code_simp
  have "dec_val ''200'' = 200" by code_simp
  then show ?thesis using eof_truncates [OF ok fr _ st, of "[]"] by simp
qed

end
