(* ===== verification/Cstdlib.thy ===== *)
theory Cstdlib
  imports Tls_Client
begin

text \<open>
  What the scrapers use of the C library and of the number formats of the machine: IEEE double values,
  \<open>strtod\<close>, \<open>strtol\<close> and \<open>atoi\<close>, and the conversions of a double to an integer.  The enclave runs on
  x86-64 only (SGX), where a conversion the language leaves undefined, because the truncated value is
  out of range, delivers the integer indefinite value of \<open>cvttsd2si\<close>.
\<close>

section \<open>Doubles\<close>

text \<open>\<open>Finite neg m e\<close> is \<open>m * 2 ^ e\<close> with a sign; \<open>m < 2 ^ 53\<close> and \<open>- 1074 \<le> e \<le> 971\<close>.\<close>

datatype double = Finite bool nat int | Infinite bool | NaN

fun bitlen :: "nat \<Rightarrow> nat" where
  "bitlen n = (if n = 0 then 0 else Suc (bitlen (n div 2)))"

declare bitlen.simps [simp del]

text \<open>The ratio \<open>n / d\<close> of positive numbers, rounded to the nearest double, ties to even.\<close>

definition scaled :: "nat \<Rightarrow> nat \<Rightarrow> int \<Rightarrow> nat \<times> nat" where
  "scaled n d e = (if 0 \<le> e then (n, d * 2 ^ nat e) else (n * 2 ^ nat (- e), d))"

definition half_even :: "nat \<times> nat \<Rightarrow> nat" where
  "half_even = (\<lambda>(n, d). let q = n div d; r = n mod d
     in if d < 2 * r \<or> d = 2 * r \<and> odd q then q + 1 else q)"

definition round_ratio :: "bool \<Rightarrow> nat \<Rightarrow> nat \<Rightarrow> double" where
  "round_ratio neg n d =
     (if n = 0 then Finite neg 0 (- 1074)
      else let e = int (bitlen n) - int (bitlen d) - 53;
               (n1, d1) = scaled n d e;
               e = (if 2 ^ 53 * d1 \<le> n1 then e + 1 else e);
               e = max e (- 1074);
               m = half_even (scaled n d e);
               (m, e) = (if m = 2 ^ 53 then (2 ^ 52, e + 1) else (m, e))
           in if 971 < e then Infinite neg else Finite neg m e)"

text \<open>The integer part, toward zero.\<close>

fun int_part :: "double \<Rightarrow> int option" where
  "int_part (Finite neg m e) =
     (let t = int (if 0 \<le> e then m * 2 ^ nat e else m div 2 ^ nat (- e)) in Some (if neg then - t else t))"
| "int_part d = None"

fun is_finite :: "double \<Rightarrow> bool" where
  "is_finite (Finite neg m e) = True"
| "is_finite d = False"

fun nonzero :: "double \<Rightarrow> bool" where
  "nonzero (Finite neg m e) = (m \<noteq> 0)"
| "nonzero d = True"

text \<open>\<open>(int) d\<close>, \<open>(long) d\<close> and \<open>(uint64_t) d\<close>.\<close>

definition double_to_int :: "double \<Rightarrow> i32" where
  "double_to_int d =
     (case int_part d of
        None \<Rightarrow> 0x80000000
      | Some t \<Rightarrow> if - (2 ^ 31) \<le> t \<and> t < 2 ^ 31 then word_of_int t else 0x80000000)"

definition double_to_long :: "double \<Rightarrow> u64" where
  "double_to_long d =
     (case int_part d of
        None \<Rightarrow> 0x8000000000000000
      | Some t \<Rightarrow> if - (2 ^ 63) \<le> t \<and> t < 2 ^ 63 then word_of_int t else 0x8000000000000000)"

definition double_to_uint64 :: "double \<Rightarrow> u64" where
  "double_to_uint64 d =
     (case int_part d of
        None \<Rightarrow> if d = Infinite False then 0 else 0x8000000000000000
      | Some t \<Rightarrow> if t < - (2 ^ 63) then 0x8000000000000000 else if t < 2 ^ 64 then word_of_int t else 0)"

section \<open>Reading numbers\<close>

definition isspace :: "char \<Rightarrow> bool" where
  "isspace c \<longleftrightarrow> of_char c = (32 :: nat) \<or> 9 \<le> (of_char c :: nat) \<and> of_char c \<le> (13 :: nat)"

definition isxdigit :: "char \<Rightarrow> bool" where
  "isxdigit c \<longleftrightarrow> is_digit c \<or> 65 \<le> (of_char c :: nat) \<and> of_char c \<le> (70 :: nat)
     \<or> 97 \<le> (of_char c :: nat) \<and> of_char c \<le> (102 :: nat)"

definition xdigit_val :: "char \<Rightarrow> nat" where
  "xdigit_val c =
     (let n = of_char c in if n \<le> (57 :: nat) then n - 48 else if n \<le> 70 then n - 55 else n - 87)"

definition digits_val :: "nat \<Rightarrow> string \<Rightarrow> nat" where
  "digits_val b s = foldl (\<lambda>a c. a * b + xdigit_val c) 0 s"

text \<open>An optional sign.\<close>

fun read_sign :: "string \<Rightarrow> bool \<times> string" where
  "read_sign (c # s) = (if c = CHR ''-'' then (True, s) else if c = CHR ''+'' then (False, s) else (False, c # s))"
| "read_sign [] = (False, [])"

text \<open>Digits with an optional point: the digits without it, how many follow it, and the rest.\<close>

definition read_mantissa :: "(char \<Rightarrow> bool) \<Rightarrow> string \<Rightarrow> string \<times> nat \<times> string" where
  "read_mantissa dig s =
     (let ip = takeWhile dig s; s1 = dropWhile dig s in
      case s1 of
        [] \<Rightarrow> (ip, 0, s1)
      | c # s2 \<Rightarrow>
          if c = CHR ''.'' \<and> (ip \<noteq> [] \<or> takeWhile dig s2 \<noteq> [])
          then (ip @ takeWhile dig s2, length (takeWhile dig s2), dropWhile dig s2)
          else (ip, 0, s1))"

text \<open>An exponent, taken only when it has a digit.\<close>

definition read_exponent :: "char list \<Rightarrow> string \<Rightarrow> int \<times> string" where
  "read_exponent mark s =
     (case s of
        [] \<Rightarrow> (0, s)
      | c # s1 \<Rightarrow>
          if c \<in> set mark then
            (let (neg, s2) = read_sign s1; ds = takeWhile is_digit s2
             in if ds = [] then (0, s)
                else (if neg then - int (digits_val 10 ds) else int (digits_val 10 ds), dropWhile is_digit s2))
          else (0, s))"

text \<open>\<open>D * b ^ x\<close> as a double.\<close>

definition scale_round :: "bool \<Rightarrow> nat \<Rightarrow> nat \<Rightarrow> int \<Rightarrow> double" where
  "scale_round neg D b x = (if 0 \<le> x then round_ratio neg (D * b ^ nat x) 1 else round_ratio neg D (b ^ nat (- x)))"

definition lower :: "char \<Rightarrow> char" where
  "lower c = (if 65 \<le> (of_char c :: nat) \<and> of_char c \<le> (90 :: nat) then char_of (of_char c + 32 :: nat) else c)"

text \<open>The text after a word, compared without case.\<close>

fun after_word :: "string \<Rightarrow> string \<Rightarrow> string option" where
  "after_word [] s = Some s"
| "after_word (w # ws) [] = None"
| "after_word (w # ws) (c # s) = (if lower c = w then after_word ws s else None)"

definition after_nan :: "string \<Rightarrow> string" where
  "after_nan s =
     (let body = dropWhile (\<lambda>c. isxdigit c \<or> c \<in> set ''ghijklmnopqrstuvwxyzGHIJKLMNOPQRSTUVWXYZ_'') (tl s)
      in if s \<noteq> [] \<and> hd s = CHR ''('' \<and> body \<noteq> [] \<and> hd body = CHR '')'' then tl body else s)"

text \<open>The value and the text that is left; without a number, zero and the text itself.\<close>

definition strtod :: "string \<Rightarrow> double \<times> string" where
  "strtod text =
     (let (neg, s) = read_sign (dropWhile isspace text) in
      case after_word ''inf'' s of
        Some s1 \<Rightarrow> (Infinite neg, case after_word ''inity'' s1 of Some s2 \<Rightarrow> s2 | None \<Rightarrow> s1)
      | None \<Rightarrow>
      (case after_word ''nan'' s of
        Some s1 \<Rightarrow> (NaN, after_nan s1)
      | None \<Rightarrow>
          let hex = (case after_word ''0x'' s of None \<Rightarrow> ([], 0, []) | Some s1 \<Rightarrow> read_mantissa isxdigit s1) in
          if fst hex \<noteq> [] then
            (let (ds, k, s2) = hex; (x, s3) = read_exponent ''pP'' s2
             in (scale_round neg (digits_val 16 ds) 2 (x - 4 * int k), s3))
          else
            (let (ds, k, s2) = read_mantissa is_digit s in
             if ds = [] then (Finite False 0 (- 1074), text)
             else let (x, s3) = read_exponent ''eE'' s2
                  in (scale_round neg (digits_val 10 ds) 10 (x - int k), s3))))"

text \<open>\<open>strtol\<close> in base 10 saturates; \<open>atoi\<close> keeps its low 32 bits.\<close>

definition strtol10 :: "string \<Rightarrow> int" where
  "strtol10 text =
     (let (neg, s) = read_sign (dropWhile isspace text);
          v = int (digits_val 10 (takeWhile is_digit s));
          v = (if neg then - v else v)
      in if v < - (2 ^ 63) then - (2 ^ 63) else if 2 ^ 63 - 1 < v then 2 ^ 63 - 1 else v)"

definition atoi :: "string \<Rightarrow> i32" where
  "atoi text = word_of_int (strtol10 text)"

section \<open>Decimal numerals\<close>

lemma digit_char:
  assumes "n < 10"
  shows "is_digit (char_of (48 + n))" "xdigit_val (char_of (48 + n)) = n"
proof -
  have "of_char (char_of (48 + n) :: char) = (48 + n :: nat)" using assms by simp
  then show "is_digit (char_of (48 + n))" "xdigit_val (char_of (48 + n)) = n"
    using assms by (simp_all add: is_digit_def xdigit_val_def)
qed

lemma digits_val_snoc: "digits_val b (s @ [c]) = digits_val b s * b + xdigit_val c"
  by (simp add: digits_val_def)

lemma digits_val_nat_digits: "digits_val 10 (nat_digits n) = n"
proof (induction n rule: nat_digits.induct)
  case (1 n)
  show ?case
  proof (cases "n < 10")
    case True
    then show ?thesis by (simp add: nat_digits.simps [of n] digits_val_def digit_char(2))
  next
    case False
    then show ?thesis
      using 1 by (simp add: nat_digits.simps [of n] digits_val_snoc digit_char(2))
  qed
qed

lemma nat_digits_all: "list_all is_digit (nat_digits n)"
proof (induction n rule: nat_digits.induct)
  case (1 n)
  then show ?case
    by (cases "n < 10") (simp_all add: nat_digits.simps [of n] digit_char(1))
qed

lemma nat_digits_nonempty: "nat_digits n \<noteq> []"
  by (subst nat_digits.simps) simp

lemma bitlen_bounds: "0 < n \<Longrightarrow> 2 ^ (bitlen n - 1) \<le> n \<and> n < 2 ^ bitlen n \<and> 0 < bitlen n"
proof (induction n rule: bitlen.induct)
  case (1 n)
  show ?case
  proof (cases "n div 2 = 0")
    case True
    then have "n = 1" using 1 by simp
    then show ?thesis by (simp add: bitlen.simps)
  next
    case False
    define k where "k = bitlen (n div 2)"
    have b: "bitlen n = Suc k" using 1 by (simp add: bitlen.simps [of n] k_def)
    have "2 ^ (k - 1) \<le> n div 2" "n div 2 < 2 ^ k" "0 < k" using 1 False by (simp_all add: k_def)
    moreover have "(2 :: nat) ^ k = 2 * 2 ^ (k - 1)" using \<open>0 < k\<close> by (cases k) simp_all
    ultimately have "2 ^ k \<le> n" "n < 2 * 2 ^ k" by linarith+
    then show ?thesis using b by simp
  qed
qed

lemma half_even_one [simp]: "half_even (n, Suc 0) = n"
  by (simp add: half_even_def)

lemma round_ratio_exact:
  assumes "n < 2 ^ 53"
  shows "\<exists>m e. round_ratio False n 1 = Finite False m e \<and> int_part (Finite False m e) = Some (int n) \<and> (m \<noteq> 0 \<longleftrightarrow> n \<noteq> 0)"
proof (cases "n = 0")
  case True
  then show ?thesis by (simp add: round_ratio_def)
next
  case False
  define L where "L = bitlen n"
  have L: "2 ^ (L - 1) \<le> n" "n < 2 ^ L" "0 < L" using bitlen_bounds [of n] False by (simp_all add: L_def)
  have L53: "L \<le> 53"
  proof (rule ccontr)
    assume "\<not> L \<le> 53"
    then have "(2 :: nat) ^ 53 \<le> 2 ^ (L - 1)" by (intro power_increasing) simp_all
    then show False using L(1) assms by linarith
  qed
  define k where "k = 53 - L"
  have k: "L + k = 53" using L53 by (simp add: k_def)
  have b1: "bitlen 1 = 1" by (simp add: bitlen.simps)
  have s0: "scaled n 1 (int L - 1 - 53) = (n * 2 ^ Suc k, 1)"
  proof -
    have "nat (- (int L - 1 - 53)) = Suc k" using k by simp
    moreover have "\<not> 0 \<le> int L - 1 - 53" using L53 by simp
    ultimately show ?thesis unfolding scaled_def by (simp only: if_False)
  qed
  have s1: "scaled n 1 (int L - 1 - 53 + 1) = (n * 2 ^ k, 1)"
  proof (cases "k = 0")
    case True
    then show ?thesis using k by (simp add: scaled_def)
  next
    case False
    have "nat (- (int L - 1 - 53 + 1)) = k" "\<not> 0 \<le> int L - 1 - 53 + 1" using k False by simp_all
    then show ?thesis unfolding scaled_def by (simp only: if_False)
  qed
  have "(2 :: nat) ^ (L - 1) * 2 ^ Suc k = 2 ^ 53" using k L(3)
    by (metis Suc_diff_1 add_Suc_right add_Suc power_add)
  then have ge: "2 ^ 53 * 1 \<le> n * 2 ^ Suc k" using L(1) by (metis mult_le_mono1 mult.right_neutral)
  have "(2 :: nat) ^ L * 2 ^ k = 2 ^ 53" using k by (simp flip: power_add)
  then have lt: "n * 2 ^ k < 2 ^ 53" using L(2) by (metis mult_less_mono1 zero_less_numeral zero_less_power)
  have mx: "max (int L - 1 - 53 + 1) (- 1074) = int L - 1 - 53 + 1" by simp
  have r: "round_ratio False n 1 = Finite False (n * 2 ^ k) (- int k)"
  proof -
    have e: "int L - 1 - 53 + 1 = - int k" "int L - 53 = - int k" "\<not> 1024 < L" using k by simp_all
    have "half_even (scaled n 1 (int L - 1 - 53 + 1)) = n * 2 ^ k" unfolding s1 by simp
    then show ?thesis
      using False ge lt unfolding round_ratio_def Let_def L_def [symmetric] b1
      by (simp only: s0 prod.case if_True mx of_nat_1) (simp add: e)
  qed
  have "int_part (Finite False (n * 2 ^ k) (- int k)) = Some (int n)" by (cases "k = 0") simp_all
  then show ?thesis using r False by (metis mult_is_0 power_not_zero zero_neq_numeral)
qed

text \<open>A natural number below \<open>2 ^ 53\<close> is read exactly.\<close>

lemma digits_split: "list_all is_digit ds \<Longrightarrow> rest = [] \<or> \<not> is_digit (hd rest) \<Longrightarrow>
    takeWhile is_digit (ds @ rest) = ds \<and> dropWhile is_digit (ds @ rest) = rest"
  by (induction ds) (cases rest; simp)+

lemma digit_not_special:
  assumes "is_digit c"
  shows "\<not> isspace c" "c \<noteq> CHR ''-''" "c \<noteq> CHR ''+''" "lower c = c" "c \<noteq> CHR ''i''" "c \<noteq> CHR ''n''" "c \<noteq> CHR ''x''"
  using assms by (auto simp: is_digit_def isspace_def lower_def)

lemma lower_x: "lower d = CHR ''x'' \<Longrightarrow> d = CHR ''x'' \<or> d = CHR ''X''"
proof -
  assume l: "lower d = CHR ''x''"
  show ?thesis
  proof (cases "65 \<le> (of_char d :: nat) \<and> of_char d \<le> (90 :: nat)")
    case True
    then have "(of_char d :: nat) + 32 = 120"
      using arg_cong [OF l, of "of_char :: char \<Rightarrow> nat"] by (simp add: lower_def)
    then have "of_char d = (of_char (CHR ''X'') :: nat)" by simp
    then show ?thesis by (metis of_char_eq_iff)
  next
    case False
    then have "lower d = d" unfolding lower_def by (rule if_not_P)
    then show ?thesis using l by simp
  qed
qed

text \<open>What may follow a decimal numeral without becoming part of it.\<close>

definition numeral_ends :: "string \<Rightarrow> bool" where
  "numeral_ends rest \<longleftrightarrow> rest = [] \<or> \<not> is_digit (hd rest) \<and> hd rest \<notin> set ''.eExX''"

lemma strtod_numeral:
  assumes "n < 2 ^ 53" and "numeral_ends rest"
  shows "\<exists>m e. strtod (nat_digits n @ rest) = (Finite False m e, rest) \<and> int_part (Finite False m e) = Some (int n)
     \<and> (m \<noteq> 0 \<longleftrightarrow> n \<noteq> 0)"
proof -
  obtain c ds where ds: "nat_digits n = c # ds" using nat_digits_nonempty [of n] by (cases "nat_digits n") auto
  have all: "list_all is_digit (c # ds)" using nat_digits_all [of n] ds by simp
  note c = digit_not_special [of c]
  have dw: "dropWhile isspace (nat_digits n @ rest) = nat_digits n @ rest" using all c ds by simp
  have rs: "read_sign (nat_digits n @ rest) = (False, nat_digits n @ rest)" using all c ds by simp
  have inf: "after_word ''inf'' (nat_digits n @ rest) = None" "after_word ''nan'' (nat_digits n @ rest) = None"
    using all c ds by simp_all
  have hd: "rest = [] \<or> \<not> is_digit (hd rest)" using assms(2) by (auto simp: numeral_ends_def)
  have hex: "after_word ''0x'' (nat_digits n @ rest) = None"
  proof (cases "ds @ rest")
    case Nil
    then show ?thesis using ds by simp
  next
    case (Cons d tl)
    have "lower d \<noteq> CHR ''x''"
    proof (cases ds)
      case Nil
      then have "d = hd rest" "rest \<noteq> []" using Cons by auto
      then have "d \<notin> set ''xX''" using assms(2) by (auto simp: numeral_ends_def)
      then show ?thesis using lower_x [of d] by auto
    next
      case (Cons d' ds')
      then show ?thesis using \<open>ds @ rest = d # tl\<close> all digit_not_special [of d] by auto
    qed
    then show ?thesis using ds Cons by simp
  qed
  note sp = digits_split [OF nat_digits_all hd, of n]
  have man: "read_mantissa is_digit (nat_digits n @ rest) = (nat_digits n, 0, rest)"
    
    unfolding read_mantissa_def Let_def sp [THEN conjunct1] sp [THEN conjunct2]
    using assms(2) by (cases rest) (simp_all add: numeral_ends_def)
  have ex: "read_exponent ''eE'' rest = (0, rest)"
    using assms(2) by (cases rest) (simp_all add: read_exponent_def numeral_ends_def)
  have "strtod (nat_digits n @ rest) = (round_ratio False n 1, rest)"
    using nat_digits_nonempty [of n]
    by (simp add: strtod_def dw rs inf hex man ex scale_round_def digits_val_nat_digits)
  then show ?thesis using round_ratio_exact [OF assms(1)] by auto
qed

end
