(* ===== verification/Picojson.thy ===== *)
theory Picojson
  imports Cstdlib "HOL-Library.AList"
begin

text \<open>
  The JSON parser the scrapers use (\<open>external/picojson.h\<close>, compiled without \<open>PICOJSON_USE_INT64\<close> and
  \<open>PICOJSON_USE_LOCALE\<close>): the input cursor with one character of push-back, the parser as it fills the
  value it is given, also when it fails, and the accessors with their assertions.  Serialisation is
  used for log output only and is left out.
\<close>

section \<open>Values\<close>

datatype json =
    JNull
  | JBool bool
  | JNumber double
  | JString string
  | JArray "json list"
  | JObject "(string \<times> json) list"

text \<open>\<open>PICOJSON_ASSERT\<close> throws a \<open>runtime_error\<close>.\<close>

definition json_assert :: "string \<Rightarrow> 'a res" where
  "json_assert e = Inl (Throw (Runtime_error e))"

fun is_null :: "json \<Rightarrow> bool" where
  "is_null JNull = True" | "is_null v = False"

fun is_double :: "json \<Rightarrow> bool" where
  "is_double (JNumber d) = True" | "is_double v = False"

fun is_string :: "json \<Rightarrow> bool" where
  "is_string (JString s) = True" | "is_string v = False"

fun is_array :: "json \<Rightarrow> bool" where
  "is_array (JArray a) = True" | "is_array v = False"

fun is_object :: "json \<Rightarrow> bool" where
  "is_object (JObject ob) = True" | "is_object v = False"

definition TYPE_MISMATCH :: string where
  "TYPE_MISMATCH = ''type mismatch! call is<type>() before get<type>()''"

fun get_double :: "json \<Rightarrow> double res" where
  "get_double (JNumber d) = Inr d" | "get_double v = json_assert TYPE_MISMATCH"

fun get_string :: "json \<Rightarrow> string res" where
  "get_string (JString s) = Inr s" | "get_string v = json_assert TYPE_MISMATCH"

fun get_array :: "json \<Rightarrow> json list res" where
  "get_array (JArray a) = Inr a" | "get_array v = json_assert TYPE_MISMATCH"

fun get_object :: "json \<Rightarrow> (string \<times> json) list res" where
  "get_object (JObject ob) = Inr ob" | "get_object v = json_assert TYPE_MISMATCH"

text \<open>\<open>get(key)\<close> gives null for a missing key, and \<open>contains(key)\<close>; both insist on an object.\<close>

fun get_key :: "string \<Rightarrow> json \<Rightarrow> json res" where
  "get_key k (JObject ob) = Inr (case map_of ob k of None \<Rightarrow> JNull | Some v \<Rightarrow> v)"
| "get_key k v = json_assert ''is<object>()''"

fun contains_key :: "string \<Rightarrow> json \<Rightarrow> bool res" where
  "contains_key k (JObject ob) = Inr (map_of ob k \<noteq> None)"
| "contains_key k v = json_assert ''is<object>()''"

fun evaluate_as_boolean :: "json \<Rightarrow> bool" where
  "evaluate_as_boolean JNull = False"
| "evaluate_as_boolean (JBool b) = b"
| "evaluate_as_boolean (JNumber d) = nonzero d"
| "evaluate_as_boolean (JString s) = (s \<noteq> [])"
| "evaluate_as_boolean v = True"

text \<open>\<open>value(double)\<close> refuses what is not finite with an \<open>overflow_error\<close>, a \<open>runtime_error\<close>.\<close>

definition value_of_double :: "double \<Rightarrow> json res" where
  "value_of_double d = (if is_finite d then Inr (JNumber d) else Inl (Throw (Runtime_error [])))"

section \<open>The input\<close>

record input =
  cur :: string
  consumed :: bool
  line :: int

definition input_of :: "string \<Rightarrow> input" where
  "input_of s = \<lparr>cur = s, consumed = False, line = 1\<rparr>"

definition getc :: "input \<Rightarrow> int \<times> input" where
  "getc i =
     (let i = (if consumed i
               then i\<lparr>line := (if hd (cur i) = CHR 0x0A then line i + 1 else line i), cur := tl (cur i)\<rparr>
               else i)
      in case cur i of
           [] \<Rightarrow> (- 1, i\<lparr>consumed := False\<rparr>)
         | c # cs \<Rightarrow> (int (of_char c), i\<lparr>consumed := True\<rparr>))"

definition ungetc :: "input \<Rightarrow> input" where
  "ungetc i = i\<lparr>consumed := False\<rparr>"

definition code :: "char \<Rightarrow> int" where
  "code c = int (of_char c)"

text \<open>What is still to be read.\<close>

definition rest_of :: "input \<Rightarrow> string" where
  "rest_of i = (if consumed i then tl (cur i) else cur i)"

lemma getc_Nil: "rest_of i = [] \<Longrightarrow> fst (getc i) = - 1 \<and> rest_of (snd (getc i)) = []
    \<and> rest_of (ungetc (snd (getc i))) = []"
  by (auto simp: rest_of_def getc_def ungetc_def Let_def split: if_splits)

lemma getc_Cons: "rest_of i = c # s \<Longrightarrow> fst (getc i) = code c \<and> rest_of (snd (getc i)) = s
    \<and> rest_of (ungetc (snd (getc i))) = c # s"
  by (auto simp: rest_of_def getc_def ungetc_def code_def Let_def split: if_splits)

lemma rest_getc: "rest_of (snd (getc i)) = tl (rest_of i)" "rest_of (ungetc (snd (getc i))) = rest_of i"
  "fst (getc i) = (if rest_of i = [] then - 1 else code (hd (rest_of i)))"
  using getc_Nil [of i] getc_Cons [of i] by (cases "rest_of i"; simp)+

lemma code_nonneg [simp]: "0 \<le> code c" "code c \<noteq> - 1" "- 1 \<noteq> code c"
  by (simp_all add: code_def)

lemma code_eq_iff: "code c = code d \<longleftrightarrow> c = d"
  by (simp add: code_def)

definition is_ws :: "char \<Rightarrow> bool" where
  "is_ws c \<longleftrightarrow> c = CHR '' '' \<or> c = CHR 0x09 \<or> c = CHR 0x0A \<or> c = CHR 0x0D"

definition ws_code :: "int \<Rightarrow> bool" where
  "ws_code ch \<longleftrightarrow> ch = code CHR '' '' \<or> ch = code CHR 0x09 \<or> ch = code CHR 0x0A \<or> ch = code CHR 0x0D"

lemma ws_code [simp]: "ws_code (code c) = is_ws c" "\<not> ws_code (- 1)"
  by (auto simp: ws_code_def is_ws_def code_eq_iff)

lemma getc_shorter: "(ch, i') = getc i \<Longrightarrow> ch \<noteq> - 1 \<or> ws_code ch \<Longrightarrow> length (rest_of i') < length (rest_of i)"
  using rest_getc [of i] by (cases "rest_of i"; cases "getc i") auto

function skip_ws :: "input \<Rightarrow> input" where
  "skip_ws i = (case getc i of (ch, i') \<Rightarrow> if ws_code ch then skip_ws i' else ungetc i')"
  by pat_completeness auto
termination
  by (relation "measure (\<lambda>i. length (rest_of i))") (auto dest: getc_shorter)

declare skip_ws.simps [simp del]

definition expect :: "char \<Rightarrow> input \<Rightarrow> bool \<times> input" where
  "expect c i = (case getc (skip_ws i) of (ch, i') \<Rightarrow> if ch \<noteq> code c then (False, ungetc i') else (True, i'))"

fun match :: "string \<Rightarrow> input \<Rightarrow> bool \<times> input" where
  "match [] i = (True, i)"
| "match (p # ps) i = (case getc i of (ch, i') \<Rightarrow> if ch \<noteq> code p then (False, ungetc i') else match ps i')"

section \<open>Strings\<close>

fun parse_quadhex :: "nat \<Rightarrow> int \<Rightarrow> input \<Rightarrow> int \<times> input" where
  "parse_quadhex 0 uni_ch i = (uni_ch, i)"
| "parse_quadhex (Suc n) uni_ch i =
     (case getc i of (hex, i') \<Rightarrow>
        if hex = - 1 then (- 1, i')
        else if code CHR ''0'' \<le> hex \<and> hex \<le> code CHR ''9'' then parse_quadhex n (uni_ch * 16 + (hex - code CHR ''0'')) i'
        else if code CHR ''A'' \<le> hex \<and> hex \<le> code CHR ''F'' then parse_quadhex n (uni_ch * 16 + (hex - (code CHR ''A'' - 10))) i'
        else if code CHR ''a'' \<le> hex \<and> hex \<le> code CHR ''f'' then parse_quadhex n (uni_ch * 16 + (hex - (code CHR ''a'' - 10))) i'
        else (- 1, ungetc i'))"

definition to_char :: "int \<Rightarrow> char" where
  "to_char u = char_of (nat (u mod 256))"

definition push_codepoint :: "string \<Rightarrow> int \<Rightarrow> string" where
  "push_codepoint s uni_ch =
     (if uni_ch < 0x80 then s @ [to_char uni_ch]
      else (if uni_ch < 0x800 then s @ [to_char (0xc0 OR drop_bit 6 uni_ch)]
            else (if uni_ch < 0x10000 then s @ [to_char (0xe0 OR drop_bit 12 uni_ch)]
                  else s @ [to_char (0xf0 OR drop_bit 18 uni_ch)] @ [to_char (0x80 OR (drop_bit 12 uni_ch AND 0x3f))])
                 @ [to_char (0x80 OR (drop_bit 6 uni_ch AND 0x3f))])
           @ [to_char (0x80 OR (uni_ch AND 0x3f))])"

definition parse_codepoint :: "string \<Rightarrow> input \<Rightarrow> bool \<times> string \<times> input" where
  "parse_codepoint s i =
     (case parse_quadhex 4 0 i of (uni_ch, i1) \<Rightarrow>
        if uni_ch = - 1 then (False, s, i1)
        else if 0xd800 \<le> uni_ch \<and> uni_ch \<le> 0xdfff then
          (if 0xdc00 \<le> uni_ch then (False, s, i1)
           else case getc i1 of (ch, i2) \<Rightarrow>
             if ch \<noteq> code CHR 0x5C then (False, s, ungetc i2)
             else case getc i2 of (ch, i3) \<Rightarrow>
               if ch \<noteq> code CHR ''u'' then (False, s, ungetc i3)
               else case parse_quadhex 4 0 i3 of (second, i4) \<Rightarrow>
                 if \<not> (0xdc00 \<le> second \<and> second \<le> 0xdfff) then (False, s, i4)
                 else (True, push_codepoint s
                        ((push_bit 10 (uni_ch - 0xd800) OR ((second - 0xdc00) AND 0x3ff)) + 0x10000), i4))
        else (True, push_codepoint s uni_ch, i1))"

text \<open>The simple escapes.\<close>

definition escapes :: "(char \<times> char) list" where
  "escapes = [(CHR 0x22, CHR 0x22), (CHR 0x5C, CHR 0x5C), (CHR ''/'', CHR ''/''), (CHR ''b'', CHR 0x08),
     (CHR ''f'', CHR 0x0C), (CHR ''n'', CHR 0x0A), (CHR ''r'', CHR 0x0D), (CHR ''t'', CHR 0x09)]"

fun escape_val :: "(char \<times> char) list \<Rightarrow> int \<Rightarrow> char option" where
  "escape_val [] ch = None"
| "escape_val ((c, v) # es) ch = (if ch = code c then Some v else escape_val es ch)"

lemma getc_le: "getc i = (ch, i') \<Longrightarrow> length (rest_of i') \<le> length (rest_of i) \<and> length (rest_of (ungetc i')) \<le> length (rest_of i)"
  using rest_getc [of i] by auto

lemma parse_quadhex_le: "parse_quadhex n u i = (v, i') \<Longrightarrow> length (rest_of i') \<le> length (rest_of i)"
proof (induction n u i rule: parse_quadhex.induct)
  case (2 n u i)
  obtain hex i1 where g: "getc i = (hex, i1)" by (cases "getc i")
  show ?case using 2 getc_le [OF g] g by (fastforce split: if_splits)
qed simp

lemma parse_codepoint_le: "parse_codepoint s i = (b, s', i') \<Longrightarrow> length (rest_of i') \<le> length (rest_of i)"
  by (auto simp: parse_codepoint_def split: prod.splits if_splits
      dest!: parse_quadhex_le getc_le)

function parse_string :: "string \<Rightarrow> input \<Rightarrow> bool \<times> string \<times> input" where
  "parse_string s i =
     (case getc i of (ch, i1) \<Rightarrow>
        if ch < code CHR '' '' then (False, s, ungetc i1)
        else if ch = code CHR 0x22 then (True, s, i1)
        else if ch = code CHR 0x5C then
          (case getc i1 of (ch, i2) \<Rightarrow>
             if ch = - 1 then (False, s, i2)
             else case escape_val escapes ch of
                 Some v \<Rightarrow> parse_string (s @ [v]) i2
               | None \<Rightarrow>
                   if ch = code CHR ''u'' then
                     (case parse_codepoint s i2 of (ok, s', i3) \<Rightarrow>
                        if ok then parse_string s' i3 else (False, s', i3))
                   else (False, s, i2))
        else parse_string (s @ [to_char ch]) i1)"
  by pat_completeness auto
termination
proof -
  have g: "length (rest_of i1) \<le> length (rest_of i) \<and> (\<not> ch < code CHR '' '' \<longrightarrow> length (rest_of i1) < length (rest_of i))"
    if "(ch, i1) = getc i" for i i1 ch
    using getc_shorter [OF that] getc_le [OF that [symmetric]] by (auto simp: code_def)
  show ?thesis
    by (relation "measure (\<lambda>(s, i). length (rest_of i))")
      (auto dest!: g parse_codepoint_le [OF sym])
qed

declare parse_string.simps [simp del]

section \<open>Numbers\<close>

definition number_code :: "int \<Rightarrow> bool" where
  "number_code ch \<longleftrightarrow> code CHR ''0'' \<le> ch \<and> ch \<le> code CHR ''9'' \<or> ch = code CHR ''+'' \<or> ch = code CHR ''-''
     \<or> ch = code CHR ''e'' \<or> ch = code CHR ''E''"

lemma number_code_pos: "number_code ch \<Longrightarrow> ch \<noteq> - 1"
  by (auto simp: number_code_def code_def)

function parse_number :: "string \<Rightarrow> input \<Rightarrow> string \<times> input" where
  "parse_number num_str i =
     (case getc i of (ch, i1) \<Rightarrow>
        if number_code ch then parse_number (num_str @ [to_char ch]) i1
        else if ch = code CHR ''.'' then parse_number (num_str @ ''.'') i1
        else (num_str, ungetc i1))"
  by pat_completeness auto
termination
  by (relation "measure (\<lambda>(s, i). length (rest_of i))") (auto dest!: getc_shorter number_code_pos)

declare parse_number.simps [simp del]

section \<open>The parser\<close>

text \<open>
  \<open>parse_value fuel out i\<close> is \<open>_parse\<close> with the context of a value that holds \<open>out\<close>: it tells whether
  it succeeded, what the value is then (also after a failure) and where the input stands.  The loops
  over the items of an array and the members of an object are the other two functions; \<open>None\<close> is
  running out of fuel.  A member is parsed in place, after the key is inserted with a null.
\<close>

definition number_text :: "json \<Rightarrow> input \<Rightarrow> (bool \<times> json \<times> input) res" where
  "number_text out i =
     (case parse_number [] (ungetc i) of (num_str, i) \<Rightarrow>
        if num_str = [] then Inr (False, out, i)
        else case strtod (c_str num_str) of (f, endp) \<Rightarrow>
          if c_str num_str = num_str \<and> endp = [] then bind_res (value_of_double f) (\<lambda>v. Inr (True, v, i))
          else Inr (False, out, i))"

definition literal :: "string \<Rightarrow> json \<Rightarrow> json \<Rightarrow> input \<Rightarrow> bool \<times> json \<times> input" where
  "literal txt v out i = (case match txt i of (ok, i) \<Rightarrow> (ok, if ok then v else out, i))"

definition obj_at :: "string \<Rightarrow> (string \<times> json) list \<Rightarrow> json" where
  "obj_at key ob = (case map_of ob key of None \<Rightarrow> JNull | Some v \<Rightarrow> v)"

fun parse_value :: "nat \<Rightarrow> json \<Rightarrow> input \<Rightarrow> (bool \<times> json \<times> input) res option"
and parse_items :: "nat \<Rightarrow> json list \<Rightarrow> input \<Rightarrow> (bool \<times> json \<times> input) res option"
and parse_members :: "nat \<Rightarrow> (string \<times> json) list \<Rightarrow> input \<Rightarrow> (bool \<times> json \<times> input) res option" where
  "parse_value 0 out i = None"
| "parse_value (Suc fuel) out i =
     (case getc (skip_ws i) of (ch, i) \<Rightarrow>
        if ch = code CHR ''n'' then Some (Inr (literal ''ull'' JNull out i))
        else if ch = code CHR ''f'' then Some (Inr (literal ''alse'' (JBool False) out i))
        else if ch = code CHR ''t'' then Some (Inr (literal ''rue'' (JBool True) out i))
        else if ch = code CHR 0x22 then
          (case parse_string [] i of (ok, s, i) \<Rightarrow> Some (Inr (ok, JString s, i)))
        else if ch = code CHR ''['' then
          (case expect CHR '']'' i of (ok, i) \<Rightarrow>
             if ok then Some (Inr (True, JArray [], i)) else parse_items fuel [] i)
        else if ch = code CHR ''{'' then
          (case expect CHR ''}'' i of (ok, i) \<Rightarrow>
             if ok then Some (Inr (True, JObject [], i)) else parse_members fuel [] i)
        else if code CHR ''0'' \<le> ch \<and> ch \<le> code CHR ''9'' \<or> ch = code CHR ''-'' then Some (number_text out i)
        else Some (Inr (False, out, ungetc i)))"
| "parse_items 0 a i = None"
| "parse_items (Suc fuel) a i =
     (case parse_value fuel JNull i of
        None \<Rightarrow> None
      | Some (Inl e) \<Rightarrow> Some (Inl e)
      | Some (Inr (ok, v, i)) \<Rightarrow>
          if \<not> ok then Some (Inr (False, JArray (a @ [v]), i))
          else case expect CHR '','' i of (again, i) \<Rightarrow>
            if again then parse_items fuel (a @ [v]) i
            else case expect CHR '']'' i of (ok, i) \<Rightarrow> Some (Inr (ok, JArray (a @ [v]), i)))"
| "parse_members 0 ob i = None"
| "parse_members (Suc fuel) ob i =
     (case expect CHR 0x22 i of (ok, i) \<Rightarrow>
      if \<not> ok then Some (Inr (False, JObject ob, i))
      else case parse_string [] i of (ok, key, i) \<Rightarrow>
      if \<not> ok then Some (Inr (False, JObject ob, i))
      else case expect CHR '':'' i of (ok, i) \<Rightarrow>
      if \<not> ok then Some (Inr (False, JObject ob, i))
      else case parse_value fuel (obj_at key ob) i of
        None \<Rightarrow> None
      | Some (Inl e) \<Rightarrow> Some (Inl e)
      | Some (Inr (ok, v, i)) \<Rightarrow>
          if \<not> ok then Some (Inr (False, JObject (AList.update key v ob), i))
          else case expect CHR '','' i of (again, i) \<Rightarrow>
            if again then parse_members fuel (AList.update key v ob) i
            else case expect CHR ''}'' i of (ok, i) \<Rightarrow> Some (Inr (ok, JObject (AList.update key v ob), i)))"

text \<open>The rest of the line, for the error message.\<close>

function error_tail :: "string \<Rightarrow> input \<Rightarrow> string" where
  "error_tail err i =
     (case getc i of (ch, i1) \<Rightarrow>
        if ch = - 1 \<or> ch = code CHR 0x0A then err
        else error_tail (if code CHR '' '' \<le> ch then err @ [to_char ch] else err) i1)"
  by pat_completeness auto
termination
  by (relation "measure (\<lambda>(s, i). length (rest_of i))") (auto dest!: getc_shorter)

declare error_tail.simps [simp del]

text \<open>\<open>parse(out, s)\<close> on a fresh value: the error, empty after success, and the value.\<close>

definition json_fuel :: "string \<Rightarrow> nat" where
  "json_fuel s = 2 * length s + 1"

definition json_parse :: "string \<Rightarrow> (string \<times> json) res" where
  "json_parse s =
     (case parse_value (json_fuel s) JNull (input_of s) of
        None \<Rightarrow> Inl UB
      | Some (Inl e) \<Rightarrow> Inl e
      | Some (Inr (ok, v, i)) \<Rightarrow>
          Inr (if ok then [] else error_tail (''syntax error at line '' @ to_string (line i) @ '' near: '') i, v))"

section \<open>The cursor on plain text\<close>

lemma getc_cases:
  obtains "rest_of i = []" "getc i = (- 1, snd (getc i))"
  | c s where "rest_of i = c # s" "getc i = (code c, snd (getc i))" "rest_of (snd (getc i)) = s"
      "rest_of (ungetc (snd (getc i))) = c # s"
  using rest_getc [of i] by (cases "rest_of i") (auto simp: prod_eq_iff)

lemma rest_skip_ws: "rest_of (skip_ws i) = dropWhile is_ws (rest_of i)"
proof (induction i rule: skip_ws.induct)
  case (1 i)
  show ?case
  proof (cases i rule: getc_cases)
    case 1
    then show ?thesis
      using rest_getc(2) [of i] by (subst skip_ws.simps) (auto split: prod.splits dest: arg_cong [of _ _ fst])
  next
    case (2 c s)
    then show ?thesis
      using "1.IH" [OF 2(2) [symmetric]] by (subst skip_ws.simps) (auto split: prod.splits)
  qed
qed

lemma expect_result:
  "\<exists>i'. expect c i = (dropWhile is_ws (rest_of i) \<noteq> [] \<and> hd (dropWhile is_ws (rest_of i)) = c, i')
    \<and> rest_of i' = (if dropWhile is_ws (rest_of i) \<noteq> [] \<and> hd (dropWhile is_ws (rest_of i)) = c
        then tl (dropWhile is_ws (rest_of i)) else dropWhile is_ws (rest_of i))"
  unfolding rest_skip_ws [symmetric]
  using rest_getc [of "skip_ws i"] by (auto simp: expect_def code_eq_iff split: prod.splits if_splits)

lemma expect_iff:
  assumes "expect c i = (b, i')"
  shows "if b then dropWhile is_ws (rest_of i) = c # rest_of i'
      else rest_of i' = dropWhile is_ws (rest_of i) \<and> (rest_of i' = [] \<or> hd (rest_of i') \<noteq> c)"
proof -
  obtain d where d: "d = dropWhile is_ws (rest_of i)" by simp
  show ?thesis using expect_result [of c i] assms unfolding d [symmetric] by (cases d) auto
qed

lemma expect_ok:
  "dropWhile is_ws (rest_of i) = c # r \<Longrightarrow> \<exists>i'. expect c i = (True, i') \<and> rest_of i' = r"
  using expect_result [of c i] by auto

lemma expect_no:
  "dropWhile is_ws (rest_of i) = [] \<or> hd (dropWhile is_ws (rest_of i)) \<noteq> c \<Longrightarrow>
   \<exists>i'. expect c i = (False, i') \<and> rest_of i' = dropWhile is_ws (rest_of i)"
  using expect_result [of c i] by auto

lemma match_sound: "match p i = (True, i') \<Longrightarrow> rest_of i = p @ rest_of i'"
proof (induction p i rule: match.induct)
  case (2 p ps i)
  then show ?case by (cases i rule: getc_cases) (auto simp: code_eq_iff split: prod.splits if_splits)
qed simp

lemma match_complete: "rest_of i = p @ r \<Longrightarrow> \<exists>i'. match p i = (True, i') \<and> rest_of i' = r"
proof (induction p i rule: match.induct)
  case (2 p ps i)
  then show ?case by (cases i rule: getc_cases) (auto split: prod.splits)
qed simp

section \<open>The grammar\<close>

text \<open>
  JSON texts (RFC 8259) and the values they denote.  Strings are UTF-8 with escapes; \<open>uXXXX\<close> escapes
  stand for code points, two of them for a point beyond the basic plane.  A number is any text of
  number characters that \<open>strtod\<close> reads to its end with a finite result.
\<close>

definition hex4 :: "string \<Rightarrow> bool" where
  "hex4 h \<longleftrightarrow> length h = 4 \<and> list_all isxdigit h"

definition hex4_val :: "string \<Rightarrow> int" where
  "hex4_val h = int (digits_val 16 h)"

definition utf8 :: "int \<Rightarrow> string" where
  "utf8 u =
     map to_char
       (if u < 0x80 then [u]
        else if u < 0x800 then [0xc0 + u div 64, 0x80 + u mod 64]
        else if u < 0x10000 then [0xe0 + u div 4096, 0x80 + u div 64 mod 64, 0x80 + u mod 64]
        else [0xf0 + u div 262144, 0x80 + u div 4096 mod 64, 0x80 + u div 64 mod 64, 0x80 + u mod 64])"

definition plain_char :: "char \<Rightarrow> bool" where
  "plain_char c \<longleftrightarrow> 32 \<le> (of_char c :: nat) \<and> c \<noteq> CHR 0x22 \<and> c \<noteq> CHR 0x5C"

inductive codepoint :: "string \<Rightarrow> string \<Rightarrow> bool" where
  basic_plane: "hex4 h \<Longrightarrow> \<not> (0xd800 \<le> hex4_val h \<and> hex4_val h \<le> 0xdfff) \<Longrightarrow> codepoint h (utf8 (hex4_val h))"
| surrogates: "hex4 h \<Longrightarrow> 0xd800 \<le> hex4_val h \<Longrightarrow> hex4_val h < 0xdc00 \<Longrightarrow>
    hex4 l \<Longrightarrow> 0xdc00 \<le> hex4_val l \<Longrightarrow> hex4_val l \<le> 0xdfff \<Longrightarrow>
    codepoint (h @ CHR 0x5C # CHR ''u'' # l)
      (utf8 (0x10000 + (hex4_val h - 0xd800) * 0x400 + (hex4_val l - 0xdc00)))"

inductive str_text :: "string \<Rightarrow> string \<Rightarrow> bool" where
  str_nil: "str_text [] []"
| str_plain: "plain_char c \<Longrightarrow> str_text s t \<Longrightarrow> str_text (c # s) (c # t)"
| str_escape: "(e, v) \<in> set escapes \<Longrightarrow> str_text s t \<Longrightarrow> str_text (CHR 0x5C # e # s) (v # t)"
| str_unicode: "codepoint x u \<Longrightarrow> str_text s t \<Longrightarrow> str_text (CHR 0x5C # CHR ''u'' # x @ s) (u @ t)"

definition number_char :: "char \<Rightarrow> bool" where
  "number_char c \<longleftrightarrow> is_digit c \<or> c \<in> set ''+-eE.''"

definition number_denotes :: "string \<Rightarrow> double \<Rightarrow> bool" where
  "number_denotes s d \<longleftrightarrow> s \<noteq> [] \<and> list_all number_char s \<and> (is_digit (hd s) \<or> hd s = CHR ''-'')
     \<and> strtod s = (d, []) \<and> is_finite d"

definition ws :: "string \<Rightarrow> bool" where
  "ws w \<longleftrightarrow> list_all is_ws w"

definition put_members :: "(string \<times> json) list \<Rightarrow> (string \<times> json) list \<Rightarrow> (string \<times> json) list" where
  "put_members ob kvs = foldl (\<lambda>ob (k, v). AList.update k v ob) ob kvs"

inductive json_text :: "string \<Rightarrow> json \<Rightarrow> bool"
  and items_text :: "string \<Rightarrow> json list \<Rightarrow> bool"
  and members_text :: "string \<Rightarrow> (string \<times> json) list \<Rightarrow> bool" where
  json_null: "json_text ''null'' JNull"
| json_false: "json_text ''false'' (JBool False)"
| json_true: "json_text ''true'' (JBool True)"
| json_number: "number_denotes s d \<Longrightarrow> json_text s (JNumber d)"
| json_string: "str_text s t \<Longrightarrow> json_text (CHR 0x22 # s @ [CHR 0x22]) (JString t)"
| json_empty_array: "ws w \<Longrightarrow> json_text (CHR ''['' # w @ '']'') (JArray [])"
| json_array: "items_text s vs \<Longrightarrow> json_text (CHR ''['' # s @ '']'') (JArray vs)"
| json_empty_object: "ws w \<Longrightarrow> json_text (CHR ''{'' # w @ ''}'') (JObject [])"
| json_object: "members_text s kvs \<Longrightarrow> json_text (CHR ''{'' # s @ ''}'') (JObject (put_members [] kvs))"
| items_one: "ws w1 \<Longrightarrow> json_text s v \<Longrightarrow> ws w2 \<Longrightarrow> items_text (w1 @ s @ w2) [v]"
| items_more: "ws w1 \<Longrightarrow> json_text s v \<Longrightarrow> ws w2 \<Longrightarrow> items_text r vs \<Longrightarrow>
    items_text (w1 @ s @ w2 @ CHR '','' # r) (v # vs)"
| members_one: "ws w1 \<Longrightarrow> str_text k key \<Longrightarrow> ws w2 \<Longrightarrow> ws w3 \<Longrightarrow> json_text s v \<Longrightarrow> ws w4 \<Longrightarrow>
    members_text (w1 @ CHR 0x22 # k @ CHR 0x22 # w2 @ CHR '':'' # w3 @ s @ w4) [(key, v)]"
| members_more: "ws w1 \<Longrightarrow> str_text k key \<Longrightarrow> ws w2 \<Longrightarrow> ws w3 \<Longrightarrow> json_text s v \<Longrightarrow> ws w4 \<Longrightarrow>
    members_text r kvs \<Longrightarrow>
    members_text (w1 @ CHR 0x22 # k @ CHR 0x22 # w2 @ CHR '':'' # w3 @ s @ w4 @ CHR '','' # r) ((key, v) # kvs)"

section \<open>Strings are read as they are written\<close>

lemma code_numerals: "code CHR ''0'' = 48" "code CHR ''9'' = 57" "code CHR ''A'' = 65" "code CHR ''F'' = 70"
  "code CHR ''a'' = 97" "code CHR ''f'' = 102" "code CHR '' '' = 32"
  by (simp_all add: code_def)

lemma quadhex_step:
  assumes "rest_of i = c # s"
  shows "parse_quadhex (Suc n) u i
    = (if isxdigit c then parse_quadhex n (u * 16 + int (xdigit_val c)) (snd (getc i)) else (- 1, ungetc (snd (getc i))))"
proof -
  obtain i1 where g: "getc i = (code c, i1)" using getc_Cons [OF assms] by (cases "getc i") auto
  define m where "m = (of_char c :: nat)"
  have code: "code c = int m" by (simp add: code_def m_def)
  show ?thesis
    unfolding parse_quadhex.simps g code_numerals isxdigit_def is_digit_def xdigit_val_def Let_def m_def [symmetric] code
    by (auto simp: of_nat_diff)
qed

lemma quadhex_complete:
  "rest_of i = h @ r \<Longrightarrow> list_all isxdigit h \<Longrightarrow>
   \<exists>i'. parse_quadhex (length h) u i = (foldl (\<lambda>a c. a * 16 + int (xdigit_val c)) u h, i') \<and> rest_of i' = r"
proof (induction h arbitrary: u i)
  case (Cons c h)
  then have "rest_of (snd (getc i)) = h @ r" using getc_Cons [of i c] by simp
  then show ?case using Cons quadhex_step [of i c "h @ r" "length h" u] by simp
qed simp

lemma quadhex_sound:
  "parse_quadhex n u i = (v, i') \<Longrightarrow> v \<noteq> - 1 \<Longrightarrow>
   \<exists>h. length h = n \<and> list_all isxdigit h \<and> rest_of i = h @ rest_of i'
     \<and> v = foldl (\<lambda>a c. a * 16 + int (xdigit_val c)) u h"
proof (induction n arbitrary: u i)
  case (Suc n)
  obtain c s where c: "rest_of i = c # s" using Suc.prems
    by (cases i rule: getc_cases) (auto split: prod.splits)
  have x: "isxdigit c" using Suc.prems quadhex_step [OF c] by (auto split: if_splits)
  then have "parse_quadhex n (u * 16 + int (xdigit_val c)) (snd (getc i)) = (v, i')"
    using Suc.prems quadhex_step [OF c] by simp
  from Suc.IH [OF this Suc.prems(2)] obtain h where "length h = n" "list_all isxdigit h"
    "rest_of (snd (getc i)) = h @ rest_of i'"
    "v = foldl (\<lambda>a c. a * 16 + int (xdigit_val c)) (u * 16 + int (xdigit_val c)) h" by blast
  then show ?case using getc_Cons [OF c] c x by (intro exI [of _ "c # h"]) simp
qed simp

lemma hex4_val_fold: "foldl (\<lambda>a c. a * 16 + int (xdigit_val c)) 0 h = hex4_val h"
proof -
  have "int (foldl (\<lambda>a c. a * 16 + xdigit_val c) u h) = foldl (\<lambda>a c. a * 16 + int (xdigit_val c)) (int u) h" for u
    by (induction h arbitrary: u) simp_all
  from this [of 0] show ?thesis by (simp add: hex4_val_def digits_val_def)
qed

lemma xdigit_val_16: "isxdigit c \<Longrightarrow> xdigit_val c < 16"
  by (auto simp: isxdigit_def is_digit_def xdigit_val_def Let_def)

lemma hex4_val_bounds:
  assumes "hex4 h"
  shows "0 \<le> hex4_val h" "hex4_val h < 0x10000"
proof -
  obtain a b c d where "h = [a, b, c, d]" using assms
    by (auto simp: hex4_def length_Suc_conv numeral_eq_Suc)
  then show "0 \<le> hex4_val h" "hex4_val h < 0x10000"
    using assms xdigit_val_16 [of a] xdigit_val_16 [of b] xdigit_val_16 [of c] xdigit_val_16 [of d]
    by (simp_all add: hex4_def hex4_val_def digits_val_def)
qed

lemma or_is_add: "0 \<le> b \<Longrightarrow> b < 2 ^ n \<Longrightarrow> push_bit n a OR b = push_bit n a + (b :: int)"
  using concat_bit_eq [of n b a] by (simp add: concat_bit_def take_bit_int_eq_self or.commute add.commute)

lemma and_63: "x AND 63 = x mod (64 :: int)"
proof -
  have "mask 6 = (63 :: int)" by (simp add: mask_eq_exp_minus_1)
  then show ?thesis using take_bit_eq_mask [of 6 x] by (simp add: take_bit_eq_mod)
qed

lemma push_codepoint_utf8:
  assumes "0 \<le> u" "u < 0x110000"
  shows "push_codepoint s u = s @ utf8 u"
proof -
  have m: "0 \<le> x mod 64" "x mod 64 < 64" for x :: int by simp_all
  have c: "0x80 OR (x AND 0x3f) = 0x80 + x mod 64" for x :: int
    using or_is_add [of "x mod 64" 7 1] m [of x] by (simp add: and_63)
  have l2: "0xc0 OR drop_bit 6 u = 0xc0 + u div 64" if "u < 0x800"
    using or_is_add [of "u div 64" 6 3] that assms by (simp add: drop_bit_eq_div)
  have l3: "0xe0 OR drop_bit 12 u = 0xe0 + u div 4096" if "u < 0x10000"
    using or_is_add [of "u div 4096" 4 14] that assms by (simp add: drop_bit_eq_div)
  have l4: "0xf0 OR drop_bit 18 u = 0xf0 + u div 262144"
    using or_is_add [of "u div 262144" 3 30] assms by (simp add: drop_bit_eq_div)
  show ?thesis
    unfolding push_codepoint_def utf8_def c using l2 l3 l4 by (simp add: drop_bit_eq_div)
qed

lemma surrogate_value:
  assumes "0 \<le> b" "b < 0x400"
  shows "(push_bit 10 a OR (b AND 0x3ff)) + 0x10000 = 0x10000 + a * 0x400 + (b :: int)"
proof -
  have "mask 10 = (0x3ff :: int)" by (simp add: mask_eq_exp_minus_1)
  then have "b AND 0x3ff = b" using take_bit_eq_mask [of 10 b] assms by (simp add: take_bit_int_eq_self)
  then show ?thesis using or_is_add [of b 10 a] assms by (simp add: push_bit_eq_mult)
qed

lemma hex4_read: "hex4 h \<Longrightarrow> rest_of i = h @ r \<Longrightarrow> \<exists>i'. parse_quadhex 4 0 i = (hex4_val h, i') \<and> rest_of i' = r"
  using quadhex_complete [of i h r 0] by (simp add: hex4_def hex4_val_fold)

lemma hex4_was_read: "parse_quadhex 4 0 i = (v, i') \<Longrightarrow> v \<noteq> - 1 \<Longrightarrow>
    \<exists>h. hex4 h \<and> v = hex4_val h \<and> rest_of i = h @ rest_of i'"
  using quadhex_sound [of 4 0 i v i'] by (auto simp: hex4_def hex4_val_fold)

lemma codepoint_complete:
  assumes "codepoint x u" "rest_of i = x @ r"
  shows "\<exists>i'. parse_codepoint s i = (True, s @ u, i') \<and> rest_of i' = r"
  using assms(1)
proof (cases rule: codepoint.cases)
  case basic_plane
  note b = hex4_val_bounds [OF basic_plane(2)]
  obtain i' where "parse_quadhex 4 0 i = (hex4_val x, i')" "rest_of i' = r"
    using hex4_read [OF basic_plane(2)] assms(2) by blast
  then show ?thesis
    using basic_plane b push_codepoint_utf8 [of "hex4_val x" s] by (auto simp: parse_codepoint_def)
next
  case (surrogates h l)
  note b = hex4_val_bounds [OF surrogates(3)]
  obtain i1 where i1: "parse_quadhex 4 0 i = (hex4_val h, i1)" "rest_of i1 = CHR 0x5C # CHR ''u'' # l @ r"
    using hex4_read [OF surrogates(3)] assms(2) surrogates(1) by fastforce
  obtain i2 where i2: "getc i1 = (code CHR 0x5C, i2)" "rest_of i2 = CHR ''u'' # l @ r"
    using getc_Cons [OF i1(2)] by (cases "getc i1") auto
  obtain i3 where i3: "getc i2 = (code CHR ''u'', i3)" "rest_of i3 = l @ r"
    using getc_Cons [OF i2(2)] by (cases "getc i2") auto
  obtain i4 where i4: "parse_quadhex 4 0 i3 = (hex4_val l, i4)" "rest_of i4 = r"
    using hex4_read [OF surrogates(6) i3(2)] by blast
  let ?v = "0x10000 + (hex4_val h - 0xd800) * 0x400 + (hex4_val l - 0xdc00)"
  have v: "(push_bit 10 (hex4_val h - 0xd800) OR ((hex4_val l - 0xdc00) AND 0x3ff)) + 0x10000 = ?v"
    using surrogates by (intro surrogate_value) simp_all
  have p: "push_codepoint s ?v = s @ utf8 ?v" using surrogates b by (intro push_codepoint_utf8) simp_all
  have "parse_codepoint s i = (True, push_codepoint s
      ((push_bit 10 (hex4_val h - 0xd800) OR ((hex4_val l - 0xdc00) AND 0x3ff)) + 0x10000), i4)"
    using surrogates b i1 i2(1) i3(1) i4 by (simp add: parse_codepoint_def)
  then show ?thesis using i4(2) unfolding v p surrogates(2) by blast
qed

lemma codepoint_sound:
  assumes "parse_codepoint s i = (True, s', i')"
  shows "\<exists>x u. codepoint x u \<and> rest_of i = x @ rest_of i' \<and> s' = s @ u"
proof -
  obtain v i1 where v: "parse_quadhex 4 0 i = (v, i1)" by fastforce
  have "v \<noteq> - 1" using assms v by (auto simp: parse_codepoint_def)
  then obtain h where h: "hex4 h" "v = hex4_val h" "rest_of i = h @ rest_of i1"
    using hex4_was_read [OF v] by blast
  note b = hex4_val_bounds [OF h(1)]
  show ?thesis
  proof (cases "0xd800 \<le> v \<and> v \<le> 0xdfff")
    case False
    then have "s' = s @ utf8 (hex4_val h)" "i' = i1"
      using assms v h b \<open>v \<noteq> - 1\<close> push_codepoint_utf8 [of "hex4_val h" s] by (auto simp: parse_codepoint_def)
    then show ?thesis using h False basic_plane by blast
  next
    case True
    then have lt: "v < 0xdc00" using assms v by (auto simp: parse_codepoint_def split: if_splits)
    obtain c1 i2 c2 i3 where g: "getc i1 = (c1, i2)" "getc i2 = (c2, i3)" by fastforce
    obtain w i4 where w: "parse_quadhex 4 0 i3 = (w, i4)" by fastforce
    have r: "c1 = code CHR 0x5C" "c2 = code CHR ''u''" "0xdc00 \<le> w" "w \<le> 0xdfff" "i' = i4"
      "s' = push_codepoint s ((push_bit 10 (v - 0xd800) OR ((w - 0xdc00) AND 0x3ff)) + 0x10000)"
      using assms v True lt g w by (auto simp: parse_codepoint_def split: if_splits)
    obtain l where l: "hex4 l" "w = hex4_val l" "rest_of i3 = l @ rest_of i4"
      using hex4_was_read [OF w] r by auto
    have "rest_of i1 = CHR 0x5C # CHR ''u'' # l @ rest_of i4"
      using g r l(3) by (cases i1 rule: getc_cases; cases i2 rule: getc_cases) (auto simp: code_eq_iff)
    then have "rest_of i = (h @ CHR 0x5C # CHR ''u'' # l) @ rest_of i'" using h(3) r by simp
    moreover have "s' = s @ utf8 (0x10000 + (hex4_val h - 0xd800) * 0x400 + (hex4_val l - 0xdc00))"
      using r True lt h(2) l(2) surrogate_value [of "hex4_val l - 0xdc00" "hex4_val h - 0xd800"]
        push_codepoint_utf8 [of "0x10000 + (hex4_val h - 0xd800) * 0x400 + (hex4_val l - 0xdc00)" s]
      by simp
    moreover have "codepoint (h @ CHR 0x5C # CHR ''u'' # l)
      (utf8 (0x10000 + (hex4_val h - 0xd800) * 0x400 + (hex4_val l - 0xdc00)))"
      using surrogates h l True lt r by simp
    ultimately show ?thesis by blast
  qed
qed

lemma to_char_code [simp]: "to_char (code c) = c"
proof -
  have "code c mod 256 = code c" using byte_lt_256 [of "byte_of_char c"] by (simp add: code_def unat_byte_of_char)
  then show ?thesis by (simp add: to_char_def code_def)
qed

lemma escape_val_code: "escape_val es (code c) = map_of es c"
  by (induction es) (auto simp: code_eq_iff)

lemma escape_not_u: "map_of escapes CHR ''u'' = None"
  by (simp add: escapes_def)

lemma escapes_map: "map_of escapes c = Some v \<longleftrightarrow> (c, v) \<in> set escapes"
  by (rule map_of_eq_Some_iff) (simp add: escapes_def)

lemma parse_string_step:
  assumes "rest_of i = c # s0"
  shows "\<exists>i1. rest_of i1 = s0 \<and> (plain_char c \<longrightarrow> parse_string s i = parse_string (s @ [c]) i1)
    \<and> (c = CHR 0x22 \<longrightarrow> parse_string s i = (True, s, i1))
    \<and> (c \<noteq> CHR 0x5C \<longrightarrow> c \<noteq> CHR 0x22 \<longrightarrow> \<not> plain_char c \<longrightarrow> fst (parse_string s i) = False)"
proof -
  obtain i1 where g: "getc i = (code c, i1)" "rest_of i1 = s0" using getc_Cons [OF assms] by (cases "getc i") auto
  have q: "\<not> code CHR 0x22 < code CHR '' ''" by (simp add: code_def)
  have lt: "code c < code CHR '' '' \<longleftrightarrow> \<not> 32 \<le> (of_char c :: nat)" by (auto simp: code_def)
  show ?thesis
    using g by (intro exI [of _ i1]) (auto simp: parse_string.simps [of s i] lt q plain_char_def code_eq_iff)
qed

lemma parse_string_escape:
  assumes "rest_of i = CHR 0x5C # s0"
  shows "case s0 of [] \<Rightarrow> fst (parse_string s i) = False
    | e # s1 \<Rightarrow> \<exists>i2. rest_of i2 = s1 \<and>
        parse_string s i = (case map_of escapes e of
            Some v \<Rightarrow> parse_string (s @ [v]) i2
          | None \<Rightarrow> if e = CHR ''u'' then (case parse_codepoint s i2 of (ok, s', i3) \<Rightarrow>
                        if ok then parse_string s' i3 else (False, s', i3))
                   else (False, s, i2))"
proof -
  obtain i1 where g: "getc i = (code CHR 0x5C, i1)" "rest_of i1 = s0" using getc_Cons [OF assms] by (cases "getc i") auto
  have n: "\<not> code CHR 0x5C < code CHR '' ''" "code CHR 0x5C \<noteq> code CHR 0x22" by (simp_all add: code_def)
  show ?thesis
  proof (cases s0)
    case Nil
    then have "fst (getc i1) = - 1" using getc_Nil g(2) by simp
    then show ?thesis using Nil g n by (auto simp: parse_string.simps [of s i] split: prod.splits)
  next
    case (Cons e s1)
    obtain i2 where g2: "getc i1 = (code e, i2)" "rest_of i2 = s1"
      using getc_Cons [of i1 e s1] g(2) Cons by (cases "getc i1") auto
    then show ?thesis
      using Cons g n by (intro list.case_eq_if [THEN iffD2]) (auto simp: parse_string.simps [of s i] escape_val_code code_eq_iff)
  qed
qed

lemma string_complete:
  "str_text x t \<Longrightarrow> rest_of i = x @ CHR 0x22 # r \<Longrightarrow> \<exists>i'. parse_string s i = (True, s @ t, i') \<and> rest_of i' = r"
proof (induction x t arbitrary: s i rule: str_text.induct)
  case str_nil
  then show ?case using parse_string_step [of i "CHR 0x22" r s] by auto
next
  case (str_plain c x t)
  then obtain i1 where "rest_of i1 = x @ CHR 0x22 # r" "parse_string s i = parse_string (s @ [c]) i1"
    using parse_string_step [of i c "x @ CHR 0x22 # r" s] by auto
  then show ?case using str_plain.IH [of i1 "s @ [c]"] by simp
next
  case (str_escape e v x t)
  then obtain i2 where "rest_of i2 = x @ CHR 0x22 # r" "parse_string s i = parse_string (s @ [v]) i2"
    using parse_string_escape [of i "e # x @ CHR 0x22 # r" s] by (auto simp: escapes_map [symmetric])
  then show ?case using str_escape.IH [of i2 "s @ [v]"] by simp
next
  case (str_unicode x u y t)
  then obtain i2 where i2: "rest_of i2 = x @ y @ CHR 0x22 # r"
    "parse_string s i = (case parse_codepoint s i2 of (ok, s', i3) \<Rightarrow>
                        if ok then parse_string s' i3 else (False, s', i3))"
    using parse_string_escape [of i "CHR ''u'' # x @ y @ CHR 0x22 # r" s] by (auto simp: escape_not_u)
  obtain i3 where "parse_codepoint s i2 = (True, s @ u, i3)" "rest_of i3 = y @ CHR 0x22 # r"
    using codepoint_complete [OF str_unicode(1) i2(1)] by blast
  then show ?case using i2(2) str_unicode.IH [of i3 "s @ u"] by simp
qed

lemma string_sound:
  "parse_string s i = (True, s', i') \<Longrightarrow> \<exists>x t. str_text x t \<and> rest_of i = x @ CHR 0x22 # rest_of i' \<and> s' = s @ t"
proof (induction "length (rest_of i)" arbitrary: s i rule: less_induct)
  case less
  show ?case
  proof (cases "rest_of i")
    case Nil
    then have "fst (getc i) = - 1" using getc_Nil by blast
    then show ?thesis using less.prems by (auto simp: parse_string.simps [of s i] code_def split: prod.splits)
  next
    case (Cons c s0)
    obtain i1 where i1: "rest_of i1 = s0" "plain_char c \<longrightarrow> parse_string s i = parse_string (s @ [c]) i1"
      "c = CHR 0x22 \<longrightarrow> parse_string s i = (True, s, i1)"
      "c \<noteq> CHR 0x5C \<longrightarrow> c \<noteq> CHR 0x22 \<longrightarrow> \<not> plain_char c \<longrightarrow> fst (parse_string s i) = False"
      using parse_string_step [OF Cons, of s] by blast
    consider "c = CHR 0x22" | "plain_char c" | "c = CHR 0x5C" using i1(4) less.prems by auto
    then show ?thesis
    proof cases
      case 1
      then show ?thesis using i1 less.prems Cons str_nil by force
    next
      case 2
      then have "parse_string (s @ [c]) i1 = (True, s', i')" using i1 less.prems by simp
      from less.hyps [OF _ this] obtain x t where "str_text x t" "s0 = x @ CHR 0x22 # rest_of i'" "s' = s @ [c] @ t"
        using i1(1) Cons by auto
      then show ?thesis using Cons 2 str_plain [of c x t] by (intro exI [of _ "c # x"] exI [of _ "c # t"]) simp
    next
      case 3
      note esc = parse_string_escape [of i s0 s]
      obtain e s1 where s0: "s0 = e # s1" using esc Cons 3 less.prems by (cases s0) auto
      obtain i2 where i2: "rest_of i2 = s1"
        "parse_string s i = (case map_of escapes e of
            Some v \<Rightarrow> parse_string (s @ [v]) i2
          | None \<Rightarrow> if e = CHR ''u'' then (case parse_codepoint s i2 of (ok, s', i3) \<Rightarrow>
                        if ok then parse_string s' i3 else (False, s', i3))
                   else (False, s, i2))"
        using esc Cons 3 s0 by auto
      show ?thesis
      proof (cases "map_of escapes e")
        case (Some v)
        then have "parse_string (s @ [v]) i2 = (True, s', i')" using i2 less.prems by simp
        from less.hyps [OF _ this] obtain x t where "str_text x t" "s1 = x @ CHR 0x22 # rest_of i'" "s' = s @ [v] @ t"
          using i2(1) Cons s0 by auto
        then show ?thesis
          using Cons 3 s0 Some str_escape [of e v x t]
          by (intro exI [of _ "CHR 0x5C # e # x"] exI [of _ "v # t"]) (simp add: escapes_map)
      next
        case None
        then obtain s2 i3 where u: "e = CHR ''u''" "parse_codepoint s i2 = (True, s2, i3)"
            "parse_string s2 i3 = (True, s', i')"
          using i2 less.prems by (auto split: if_splits prod.splits)
        obtain x v where x: "codepoint x v" "rest_of i2 = x @ rest_of i3" "s2 = s @ v"
          using codepoint_sound [OF u(2)] by blast
        have "length (rest_of i3) < length (rest_of i)" 
          using arg_cong [OF x(2), of length] i2(1) Cons s0 by simp
        from less.hyps [OF this u(3)] obtain y t where "str_text y t" "rest_of i3 = y @ CHR 0x22 # rest_of i'"
            "s' = s @ v @ t" using x by auto
        then show ?thesis
          using Cons 3 s0 u x i2(1) str_unicode [OF x(1), of y t]
          by (intro exI [of _ "CHR 0x5C # CHR ''u'' # x @ y"] exI [of _ "v @ t"]) simp
      qed
    qed
  qed
qed

section \<open>Numbers are read to their end\<close>

lemma number_char_code: "number_char c \<longleftrightarrow> number_code (code c) \<or> c = CHR ''.''"
proof -
  have "is_digit c \<longleftrightarrow> code CHR ''0'' \<le> code c \<and> code c \<le> code CHR ''9''"
    by (auto simp: is_digit_def code_numerals code_def)
  then show ?thesis by (auto simp: number_char_def number_code_def code_eq_iff)
qed

lemma parse_number_result:
  "\<exists>i'. parse_number s i = (s @ takeWhile number_char (rest_of i), i') \<and> rest_of i' = dropWhile number_char (rest_of i)"
proof (induction "length (rest_of i)" arbitrary: s i rule: less_induct)
  case less
  show ?case
  proof (cases i rule: getc_cases)
    case 1
    then obtain i1 where "getc i = (- 1, i1)" "rest_of (ungetc i1) = []" using rest_getc(2) [of i] by (cases "getc i") auto
    moreover have "\<not> number_code (- 1)" using number_code_pos by blast
    ultimately show ?thesis using 1 by (simp add: parse_number.simps [of s i])
  next
    case (2 c t)
    then obtain i1 where g: "getc i = (code c, i1)" "rest_of i1 = t" "rest_of (ungetc i1) = c # t" by (cases "getc i") auto
    show ?thesis
    proof (cases "number_char c")
      case True
      obtain i' where "parse_number (s @ [c]) i1 = ((s @ [c]) @ takeWhile number_char t, i')"
          "rest_of i' = dropWhile number_char t"
        using less [of i1 "s @ [c]"] g 2 by auto
      moreover have "parse_number s i = parse_number (s @ [c]) i1"
        using True g by (auto simp: parse_number.simps [of s i] number_char_code)
      ultimately show ?thesis using 2 True by simp
    next
      case False
      then have "parse_number s i = (s, ungetc i1)"
        using g by (auto simp: parse_number.simps [of s i] number_char_code code_eq_iff)
      then show ?thesis using 2 g False by simp
    qed
  qed
qed

definition number_ends :: "string \<Rightarrow> bool" where
  "number_ends r \<longleftrightarrow> r = [] \<or> \<not> number_char (hd r)"

lemma number_split: "list_all number_char s \<Longrightarrow> number_ends r \<Longrightarrow>
    takeWhile number_char (s @ r) = s \<and> dropWhile number_char (s @ r) = r"
  by (induction s) (cases r; simp add: number_ends_def)+

lemma number_no_nul: "list_all number_char s \<Longrightarrow> c_str s = s"
proof -
  have "\<not> number_char NUL" by (simp add: number_char_def is_digit_def)
  then show "list_all number_char s \<Longrightarrow> ?thesis" by (intro c_str_id) (auto simp: list_all_iff)
qed

lemma number_complete:
  assumes "number_denotes s d" "rest_of (ungetc i) = s @ r" "number_ends r"
  shows "\<exists>i'. number_text out i = Inr (True, JNumber d, i') \<and> rest_of i' = r"
proof -
  have s: "s \<noteq> []" "list_all number_char s" "strtod s = (d, [])" "is_finite d"
    using assms(1) by (auto simp: number_denotes_def)
  obtain i' where "parse_number [] (ungetc i) = (s, i')" "rest_of i' = r"
    using parse_number_result [of "[]" "ungetc i"] number_split [OF s(2) assms(3)] assms(2) by auto
  then show ?thesis
    using s number_no_nul [OF s(2)] by (simp add: number_text_def value_of_double_def)
qed

lemma number_sound:
  assumes "number_text out i = Inr (True, v, i')" "rest_of (ungetc i) = c # t" "is_digit c \<or> c = CHR ''-''"
  shows "\<exists>s d. number_denotes s d \<and> v = JNumber d \<and> c # t = s @ rest_of i' \<and> number_ends (rest_of i')"
proof -
  let ?s = "takeWhile number_char (c # t)"
  have all: "list_all number_char ?s" by (auto simp: list_all_iff dest: set_takeWhileD)
  have c: "number_char c" using assms(3) by (auto simp: number_char_def)
  obtain i1 where p: "parse_number [] (ungetc i) = (?s, i1)" "rest_of i1 = dropWhile number_char (c # t)"
    using parse_number_result [of "[]" "ungetc i"] assms(2) by auto
  obtain d e where d: "strtod ?s = (d, e)" by fastforce
  have r: "e = []" "is_finite d" "v = JNumber d" "i' = i1"
    using assms(1) p c d number_no_nul [OF all]
    by (auto simp: number_text_def value_of_double_def split: if_splits)
  have "number_denotes ?s d" using all d r c assms(3) by (simp add: number_denotes_def)
  moreover have "number_ends (rest_of i')" unfolding r p(2) number_ends_def by (metis hd_dropWhile)
  moreover have "c # t = ?s @ rest_of i'" unfolding r p(2) by simp
  ultimately show ?thesis using r(3) by blast
qed

section \<open>The parser reads the grammar\<close>

lemma ws_drop: "ws w \<Longrightarrow> dropWhile is_ws (w @ x) = dropWhile is_ws x"
  by (induction w) (auto simp: ws_def)

lemma ws_split: "\<exists>w. ws w \<and> x = w @ dropWhile is_ws x"
  by (intro exI [of _ "takeWhile is_ws x"]) (auto simp: ws_def list_all_iff dest: set_takeWhileD)

lemma not_ws: "\<not> is_ws CHR '',''" "\<not> is_ws CHR '']''" "\<not> is_ws CHR ''}''" "\<not> is_ws CHR '':''" "\<not> is_ws CHR 0x22"
  "\<not> number_char CHR '',''" "\<not> number_char CHR '']''" "\<not> number_char CHR ''}''"
  by (simp_all add: is_ws_def number_char_def is_digit_def)

lemma number_ends_ws: "ws w \<Longrightarrow> \<not> number_char c \<Longrightarrow> number_ends (w @ c # x)"
  by (cases w) (auto simp: ws_def number_ends_def is_ws_def number_char_def is_digit_def)

lemma value_start:
  assumes "dropWhile is_ws (rest_of i) = c # x"
  shows "\<exists>i1. getc (skip_ws i) = (code c, i1) \<and> rest_of i1 = x \<and> rest_of (ungetc i1) = c # x"
  using getc_Cons [of "skip_ws i" c x] assms by (cases "getc (skip_ws i)") (auto simp: rest_skip_ws)

lemma json_text_head: "json_text s v \<Longrightarrow> \<exists>c x. s = c # x \<and> \<not> is_ws c \<and> c \<noteq> CHR '']''"
proof (erule json_text.cases)
  fix s' d
  assume "s = s'" "number_denotes s' d"
  then show ?thesis by (cases s) (auto simp: number_denotes_def is_digit_def is_ws_def)
qed (simp_all add: is_ws_def)

lemma json_text_drop: "json_text s v \<Longrightarrow> ws w \<Longrightarrow> dropWhile is_ws (w @ s @ x) = s @ x"
  using json_text_head [of s v] by (auto simp: ws_drop)

lemma items_text_head: "items_text s vs \<Longrightarrow> dropWhile is_ws (s @ x) \<noteq> [] \<and> hd (dropWhile is_ws (s @ x)) \<noteq> CHR '']''"
  by (erule items_text.cases) (auto simp: ws_drop dest!: json_text_head)

lemma members_text_head: "members_text s kvs \<Longrightarrow> \<exists>y. dropWhile is_ws (s @ x) = CHR 0x22 # y"
  by (erule members_text.cases) (auto simp: ws_drop is_ws_def)

lemma length_dropWhile_eq: "dropWhile P x = y \<Longrightarrow> length y \<le> length x"
  using length_dropWhile_le by blast

lemma literal_complete:
  "rest_of i = lit @ r \<Longrightarrow> \<exists>i'. literal lit v out i = (True, v, i') \<and> rest_of i' = r"
  using match_complete [of i lit r] by (auto simp: literal_def)

lemma literal_sound: "literal lit v out i = (True, v', i') \<Longrightarrow> v' = v \<and> rest_of i = lit @ rest_of i'"
  using match_sound [of lit i i'] by (auto simp: literal_def split: prod.splits)

text \<open>One step of the value parser, by the first character.\<close>

lemma parse_value_step:
  assumes "dropWhile is_ws (rest_of i) = c # x"
  shows "\<exists>i1. rest_of i1 = x \<and> rest_of (ungetc i1) = c # x \<and> parse_value (Suc fuel) out i =
     (if c = CHR ''n'' then Some (Inr (literal ''ull'' JNull out i1))
      else if c = CHR ''f'' then Some (Inr (literal ''alse'' (JBool False) out i1))
      else if c = CHR ''t'' then Some (Inr (literal ''rue'' (JBool True) out i1))
      else if c = CHR 0x22 then (case parse_string [] i1 of (ok, s, i) \<Rightarrow> Some (Inr (ok, JString s, i)))
      else if c = CHR ''['' then
        (case expect CHR '']'' i1 of (ok, i) \<Rightarrow> if ok then Some (Inr (True, JArray [], i)) else parse_items fuel [] i)
      else if c = CHR ''{'' then
        (case expect CHR ''}'' i1 of (ok, i) \<Rightarrow> if ok then Some (Inr (True, JObject [], i)) else parse_members fuel [] i)
      else if is_digit c \<or> c = CHR ''-'' then Some (number_text out i1)
      else Some (Inr (False, out, ungetc i1)))"
proof -
  obtain i1 where i1: "getc (skip_ws i) = (code c, i1)" "rest_of i1 = x" "rest_of (ungetc i1) = c # x"
    using value_start [OF assms] by blast
  have d: "(code CHR ''0'' \<le> code c \<and> code c \<le> code CHR ''9'') = is_digit c"
    by (auto simp: is_digit_def code_numerals code_def)
  show ?thesis
    by (rule exI [of _ i1]) (simp only: i1 parse_value.simps prod.case code_eq_iff d simp_thms)
qed

lemma parse_value_number:
  assumes "dropWhile is_ws (rest_of i) = c # x" and c: "is_digit c \<or> c = CHR ''-''"
  shows "\<exists>i1. rest_of (ungetc i1) = c # x \<and> parse_value (Suc fuel) out i = Some (number_text out i1)"
proof -
  have n: "c \<noteq> CHR ''n''" "c \<noteq> CHR ''f''" "c \<noteq> CHR ''t''" "c \<noteq> CHR 0x22" "c \<noteq> CHR ''[''" "c \<noteq> CHR ''{''"
    using c by (auto simp: is_digit_def)
  show ?thesis
    using parse_value_step [OF assms(1), of fuel out]
  proof (elim exE conjE)
    fix i1
    assume "rest_of (ungetc i1) = c # x" and e: "parse_value (Suc fuel) out i =
     (if c = CHR ''n'' then Some (Inr (literal ''ull'' JNull out i1))
      else if c = CHR ''f'' then Some (Inr (literal ''alse'' (JBool False) out i1))
      else if c = CHR ''t'' then Some (Inr (literal ''rue'' (JBool True) out i1))
      else if c = CHR 0x22 then (case parse_string [] i1 of (ok, s, i) \<Rightarrow> Some (Inr (ok, JString s, i)))
      else if c = CHR ''['' then
        (case expect CHR '']'' i1 of (ok, i) \<Rightarrow> if ok then Some (Inr (True, JArray [], i)) else parse_items fuel [] i)
      else if c = CHR ''{'' then
        (case expect CHR ''}'' i1 of (ok, i) \<Rightarrow> if ok then Some (Inr (True, JObject [], i)) else parse_members fuel [] i)
      else if is_digit c \<or> c = CHR ''-'' then Some (number_text out i1)
      else Some (Inr (False, out, ungetc i1)))"
    moreover have "parse_value (Suc fuel) out i = Some (number_text out i1)"
      unfolding e if_not_P [OF n(1)] if_not_P [OF n(2)] if_not_P [OF n(3)] if_not_P [OF n(4)] if_not_P [OF n(5)]
        if_not_P [OF n(6)] if_P [OF c] by (rule refl)
    ultimately show ?thesis by blast
  qed
qed

lemma parse_complete:
  "json_text s v \<Longrightarrow> (\<And>fuel out i r. dropWhile is_ws (rest_of i) = s @ r \<Longrightarrow> (is_double v \<longrightarrow> number_ends r) \<Longrightarrow>
      2 * length (rest_of i) < fuel \<Longrightarrow> \<exists>i'. parse_value fuel out i = Some (Inr (True, v, i')) \<and> rest_of i' = r)"
  "items_text s vs \<Longrightarrow> (\<And>fuel a i r. dropWhile is_ws (rest_of i) = dropWhile is_ws (s @ CHR '']'' # r) \<Longrightarrow>
      2 * length (rest_of i) + 1 < fuel \<Longrightarrow>
      \<exists>i'. parse_items fuel a i = Some (Inr (True, JArray (a @ vs), i')) \<and> rest_of i' = r)"
  "members_text s kvs \<Longrightarrow> (\<And>fuel ob i r. dropWhile is_ws (rest_of i) = dropWhile is_ws (s @ CHR ''}'' # r) \<Longrightarrow>
      2 * length (rest_of i) + 1 < fuel \<Longrightarrow>
      \<exists>i'. parse_members fuel ob i = Some (Inr (True, JObject (put_members ob kvs), i')) \<and> rest_of i' = r)"
proof (induction s v and s vs and s kvs rule: json_text_items_text_members_text.inducts)
  case (json_null fuel out i r)
  then obtain f where f: "fuel = Suc f" by (cases fuel) auto
  show ?case
    using parse_value_step [of i "CHR ''n''" "''ull'' @ r" f out] json_null literal_complete [of _ "''ull''" r] f by fastforce
next
  case (json_false fuel out i r)
  then obtain f where f: "fuel = Suc f" by (cases fuel) auto
  show ?case
    using parse_value_step [of i "CHR ''f''" "''alse'' @ r" f out] json_false literal_complete [of _ "''alse''" r] f by fastforce
next
  case (json_true fuel out i r)
  then obtain f where f: "fuel = Suc f" by (cases fuel) auto
  show ?case
    using parse_value_step [of i "CHR ''t''" "''rue'' @ r" f out] json_true literal_complete [of _ "''rue''" r] f by fastforce
next
  case (json_number s d fuel out i r)
  then obtain f where f: "fuel = Suc f" by (cases fuel) auto
  obtain c t where s: "s = c # t" using json_number(1) by (cases s) (auto simp: number_denotes_def)
  have c: "is_digit c \<or> c = CHR ''-''" using json_number(1) s by (simp add: number_denotes_def)
  have "dropWhile is_ws (rest_of i) = c # t @ r" using json_number(2) s by simp
  from parse_value_number [OF this c, of f out] obtain i1 where i1: "rest_of (ungetc i1) = c # t @ r"
    "parse_value (Suc f) out i = Some (number_text out i1)" by blast
  moreover have "\<exists>i'. number_text out i1 = Inr (True, JNumber d, i') \<and> rest_of i' = r"
    using number_complete [OF json_number(1), of i1 r out] i1(1) s json_number(3) by simp
  ultimately show ?case using f by auto
next
  case (json_string s t fuel out i r)
  then obtain f where f: "fuel = Suc f" by (cases fuel) auto
  have "dropWhile is_ws (rest_of i) = CHR 0x22 # s @ CHR 0x22 # r" using json_string(2) by simp
  from parse_value_step [OF this, of f out] obtain i1 where i1: "rest_of i1 = s @ CHR 0x22 # r"
    "parse_value (Suc f) out i = (case parse_string [] i1 of (ok, s, i) \<Rightarrow> Some (Inr (ok, JString s, i)))" by auto
  then show ?case using string_complete [OF json_string(1) i1(1), of "[]"] f by auto
next
  case (json_empty_array w fuel out i r)
  then obtain f where f: "fuel = Suc f" by (cases fuel) auto
  have "dropWhile is_ws (rest_of i) = CHR ''['' # w @ CHR '']'' # r" using json_empty_array(2) by simp
  from parse_value_step [OF this, of f out] obtain i1 where i1: "rest_of i1 = w @ CHR '']'' # r"
    "parse_value (Suc f) out i
      = (case expect CHR '']'' i1 of (ok, i) \<Rightarrow> if ok then Some (Inr (True, JArray [], i)) else parse_items f [] i)"
    by auto
  have "dropWhile is_ws (rest_of i1) = CHR '']'' # r" using i1(1) json_empty_array(1) by (simp add: ws_drop not_ws)
  then show ?case using expect_ok i1 f by fastforce
next
  case (json_array s vs fuel out i r)
  then obtain f where f: "fuel = Suc f" by (cases fuel) auto
  have d: "dropWhile is_ws (rest_of i) = CHR ''['' # s @ CHR '']'' # r" using json_array(3) by simp
  from parse_value_step [OF d, of f out] obtain i1 where i1: "rest_of i1 = s @ CHR '']'' # r"
    "parse_value (Suc f) out i
      = (case expect CHR '']'' i1 of (ok, i) \<Rightarrow> if ok then Some (Inr (True, JArray [], i)) else parse_items f [] i)"
    by auto
  have "dropWhile is_ws (rest_of i1) \<noteq> [] \<and> hd (dropWhile is_ws (rest_of i1)) \<noteq> CHR '']''"
    unfolding i1(1) by (rule items_text_head [OF json_array(1)])
  then obtain i2 where i2: "expect CHR '']'' i1 = (False, i2)" "rest_of i2 = dropWhile is_ws (rest_of i1)"
    using expect_no by blast
  have "length (rest_of i2) \<le> length (s @ CHR '']'' # r)" using length_dropWhile_eq [OF i2(2) [symmetric]] i1(1) by simp
  then have "2 * length (rest_of i2) + 1 < f"
    using json_array(5) f length_dropWhile_eq [OF d] by simp
  then have "\<exists>i'. parse_items f [] i2 = Some (Inr (True, JArray ([] @ vs), i')) \<and> rest_of i' = r"
    by (intro json_array(2)) (simp_all add: i2(2) i1(1))
  then show ?case using i1 i2 f by simp
next
  case (json_empty_object w fuel out i r)
  then obtain f where f: "fuel = Suc f" by (cases fuel) auto
  have "dropWhile is_ws (rest_of i) = CHR ''{'' # w @ CHR ''}'' # r" using json_empty_object(2) by simp
  from parse_value_step [OF this, of f out] obtain i1 where i1: "rest_of i1 = w @ CHR ''}'' # r"
    "parse_value (Suc f) out i
      = (case expect CHR ''}'' i1 of (ok, i) \<Rightarrow> if ok then Some (Inr (True, JObject [], i)) else parse_members f [] i)"
    by auto
  have "dropWhile is_ws (rest_of i1) = CHR ''}'' # r" using i1(1) json_empty_object(1) by (simp add: ws_drop not_ws)
  then show ?case using expect_ok i1 f by fastforce
next
  case (json_object s kvs fuel out i r)
  then obtain f where f: "fuel = Suc f" by (cases fuel) auto
  have d: "dropWhile is_ws (rest_of i) = CHR ''{'' # s @ CHR ''}'' # r" using json_object(3) by simp
  from parse_value_step [OF d, of f out] obtain i1 where i1: "rest_of i1 = s @ CHR ''}'' # r"
    "parse_value (Suc f) out i
      = (case expect CHR ''}'' i1 of (ok, i) \<Rightarrow> if ok then Some (Inr (True, JObject [], i)) else parse_members f [] i)"
    by auto
  have "hd (dropWhile is_ws (rest_of i1)) \<noteq> CHR ''}''"
    unfolding i1(1) using members_text_head [OF json_object(1), of "CHR ''}'' # r"] by auto
  then obtain i2 where i2: "expect CHR ''}'' i1 = (False, i2)" "rest_of i2 = dropWhile is_ws (rest_of i1)"
    using expect_no by blast
  have "length (rest_of i2) \<le> length (s @ CHR ''}'' # r)" using length_dropWhile_eq [OF i2(2) [symmetric]] i1(1) by simp
  then have "2 * length (rest_of i2) + 1 < f"
    using json_object(5) f length_dropWhile_eq [OF d] by simp
  then have "\<exists>i'. parse_members f [] i2 = Some (Inr (True, JObject (put_members [] kvs), i')) \<and> rest_of i' = r"
    by (intro json_object(2)) (simp_all add: i2(2) i1(1))
  then show ?case using i1 i2 f by simp
next
  case (items_one w1 s v w2 fuel a i r)
  then obtain f where f: "fuel = Suc f" by (cases fuel) auto
  have d: "dropWhile is_ws (rest_of i) = s @ w2 @ CHR '']'' # r"
    using items_one.prems(1) json_text_drop [OF items_one.hyps(2,1)] by simp
  obtain i1 where i1: "parse_value f JNull i = Some (Inr (True, v, i1))" "rest_of i1 = w2 @ CHR '']'' # r"
    using items_one.IH [OF d, of f JNull] items_one.hyps(3) items_one.prems(2) f number_ends_ws not_ws by auto
  have d1: "dropWhile is_ws (rest_of i1) = CHR '']'' # r" using i1(2) items_one.hyps(3) by (simp add: ws_drop not_ws)
  obtain i2 where i2: "expect CHR '','' i1 = (False, i2)" "rest_of i2 = CHR '']'' # r"
    using expect_no [of i1 "CHR '',''"] d1 by auto
  obtain i3 where "expect CHR '']'' i2 = (True, i3)" "rest_of i3 = r"
    using expect_ok [of i2 "CHR '']''" r] i2 by (auto simp: not_ws)
  then show ?case using f i1 i2 by simp
next
  case (items_more w1 s v w2 r' vs fuel a i r)
  then obtain f where f: "fuel = Suc f" by (cases fuel) auto
  have d: "dropWhile is_ws (rest_of i) = s @ w2 @ CHR '','' # r' @ CHR '']'' # r"
    using items_more.prems(1) json_text_drop [OF items_more.hyps(2,1)] by simp
  obtain i1 where i1: "parse_value f JNull i = Some (Inr (True, v, i1))" "rest_of i1 = w2 @ CHR '','' # r' @ CHR '']'' # r"
    using items_more.IH(1) [OF d, of f JNull] items_more.hyps(3) items_more.prems(2) f number_ends_ws not_ws by auto
  have d1: "dropWhile is_ws (rest_of i1) = CHR '','' # r' @ CHR '']'' # r"
    using i1(2) items_more.hyps(3) by (simp add: ws_drop not_ws)
  obtain i2 where i2: "expect CHR '','' i1 = (True, i2)" "rest_of i2 = r' @ CHR '']'' # r"
    using expect_ok [OF d1] by auto
  have "2 * length (rest_of i2) + 1 < f"
    using i2(2) length_dropWhile_eq [OF d] items_more.prems(2) f by simp
  then obtain i3 where "parse_items f (a @ [v]) i2 = Some (Inr (True, JArray ((a @ [v]) @ vs), i3))" "rest_of i3 = r"
    using items_more.IH(2) [of i2 r f "a @ [v]"] i2(2) by auto
  then show ?case using f i1 i2 by simp
next
  case (members_one w1 k key w2 w3 s v w4 fuel ob i r)
  then obtain f where f: "fuel = Suc f" by (cases fuel) auto
  have d: "dropWhile is_ws (rest_of i) = CHR 0x22 # k @ CHR 0x22 # w2 @ CHR '':'' # w3 @ s @ w4 @ CHR ''}'' # r"
    using members_one.prems(1) members_one.hyps(1) by (simp add: ws_drop not_ws)
  obtain i1 where i1: "expect CHR 0x22 i = (True, i1)" "rest_of i1 = k @ CHR 0x22 # w2 @ CHR '':'' # w3 @ s @ w4 @ CHR ''}'' # r"
    using expect_ok [OF d] by auto
  obtain i2 where i2: "parse_string [] i1 = (True, key, i2)" "rest_of i2 = w2 @ CHR '':'' # w3 @ s @ w4 @ CHR ''}'' # r"
    using string_complete [OF members_one.hyps(2) i1(2), of "[]"] by auto
  obtain i3 where i3: "expect CHR '':'' i2 = (True, i3)" "rest_of i3 = w3 @ s @ w4 @ CHR ''}'' # r"
    using expect_ok [of i2 "CHR '':''"] i2(2) members_one.hyps(3) by (auto simp: ws_drop not_ws)
  have d3: "dropWhile is_ws (rest_of i3) = s @ w4 @ CHR ''}'' # r"
    unfolding i3(2) by (rule json_text_drop [OF members_one.hyps(5,4)])
  have "2 * length (rest_of i3) < f" using i3(2) length_dropWhile_eq [OF d] members_one.prems(2) f by simp
  then obtain i4 where i4: "parse_value f (obj_at key ob) i3 = Some (Inr (True, v, i4))"
      "rest_of i4 = w4 @ CHR ''}'' # r"
    using members_one.IH [OF d3, of f] number_ends_ws [OF members_one.hyps(6) not_ws(8)] by blast
  obtain i5 where i5: "expect CHR '','' i4 = (False, i5)" "rest_of i5 = CHR ''}'' # r"
    using expect_no [of i4 "CHR '',''"] i4(2) members_one.hyps(6) by (auto simp: ws_drop not_ws)
  obtain i6 where "expect CHR ''}'' i5 = (True, i6)" "rest_of i6 = r"
    using expect_ok [of i5 "CHR ''}''" r] i5 by (auto simp: not_ws)
  then show ?case using f i1 i2 i3 i4 i5 by (simp add: put_members_def)
next
  case (members_more w1 k key w2 w3 s v w4 r' kvs fuel ob i r)
  then obtain f where f: "fuel = Suc f" by (cases fuel) auto
  let ?t = "r' @ CHR ''}'' # r"
  have d: "dropWhile is_ws (rest_of i) = CHR 0x22 # k @ CHR 0x22 # w2 @ CHR '':'' # w3 @ s @ w4 @ CHR '','' # ?t"
    using members_more.prems(1) members_more.hyps(1) by (simp add: ws_drop not_ws)
  obtain i1 where i1: "expect CHR 0x22 i = (True, i1)" "rest_of i1 = k @ CHR 0x22 # w2 @ CHR '':'' # w3 @ s @ w4 @ CHR '','' # ?t"
    using expect_ok [OF d] by auto
  obtain i2 where i2: "parse_string [] i1 = (True, key, i2)" "rest_of i2 = w2 @ CHR '':'' # w3 @ s @ w4 @ CHR '','' # ?t"
    using string_complete [OF members_more.hyps(2) i1(2), of "[]"] by auto
  obtain i3 where i3: "expect CHR '':'' i2 = (True, i3)" "rest_of i3 = w3 @ s @ w4 @ CHR '','' # ?t"
    using expect_ok [of i2 "CHR '':''"] i2(2) members_more.hyps(3) by (auto simp: ws_drop not_ws)
  have d3: "dropWhile is_ws (rest_of i3) = s @ w4 @ CHR '','' # ?t"
    unfolding i3(2) by (rule json_text_drop [OF members_more.hyps(5,4)])
  have "2 * length (rest_of i3) < f" using i3(2) length_dropWhile_eq [OF d] members_more.prems(2) f by simp
  then obtain i4 where i4: "parse_value f (obj_at key ob) i3 = Some (Inr (True, v, i4))"
      "rest_of i4 = w4 @ CHR '','' # ?t"
    using members_more.IH(1) [OF d3, of f] number_ends_ws [OF members_more.hyps(6) not_ws(6)] by blast
  obtain i5 where i5: "expect CHR '','' i4 = (True, i5)" "rest_of i5 = ?t"
    using expect_ok [of i4 "CHR '',''" ?t] i4(2) members_more.hyps(6) by (auto simp: ws_drop not_ws)
  have "2 * length (rest_of i5) + 1 < f" using i5(2) length_dropWhile_eq [OF d] members_more.prems(2) f by simp
  then obtain i6 where "parse_members f (AList.update key v ob) i5
      = Some (Inr (True, JObject (put_members (AList.update key v ob) kvs), i6))" "rest_of i6 = r"
    using members_more.IH(2) [of i5 r f "AList.update key v ob"] i5(2) by auto
  then show ?case using f i1 i2 i3 i4 i5 by (simp add: put_members_def)
qed

lemma parse_value_none: "dropWhile is_ws (rest_of i) = [] \<Longrightarrow> \<exists>i'. parse_value (Suc fuel) out i = Some (Inr (False, out, i'))"
proof -
  assume "dropWhile is_ws (rest_of i) = []"
  then obtain i1 where "getc (skip_ws i) = (- 1, i1)"
    using getc_Nil [of "skip_ws i"] rest_skip_ws [of i] by (cases "getc (skip_ws i)") auto
  then show ?thesis by (simp add: code_numerals)
qed

lemma expect_sound: "expect c i = (True, i') \<Longrightarrow> \<exists>w. ws w \<and> rest_of i = w @ c # rest_of i'"
  using expect_iff [of c i True i'] ws_split [of "rest_of i"] by auto

lemma expect_refused: "expect c i = (False, i') \<Longrightarrow> \<exists>w. ws w \<and> rest_of i = w @ rest_of i'"
  using expect_iff [of c i False i'] ws_split [of "rest_of i"] by auto

lemma ws_append: "ws (x @ y) \<longleftrightarrow> ws x \<and> ws y"
  by (simp add: ws_def)

lemma ws_items: "ws w \<Longrightarrow> items_text s vs \<Longrightarrow> items_text (w @ s) vs"
proof (erule items_text.cases)
  fix w1 s' v w2
  assume "ws w" "s = w1 @ s' @ w2" "vs = [v]" "ws w1" "json_text s' v" "ws w2"
  then show ?thesis using items_one [of "w @ w1" s' v w2] by (simp add: ws_append)
next
  fix w1 s' v w2 r vs'
  assume "ws w" "s = w1 @ s' @ w2 @ CHR '','' # r" "vs = v # vs'" "ws w1" "json_text s' v" "ws w2" "items_text r vs'"
  then show ?thesis using items_more [of "w @ w1" s' v w2 r vs'] by (simp add: ws_append)
qed

lemma ws_members: "ws w \<Longrightarrow> members_text s kvs \<Longrightarrow> members_text (w @ s) kvs"
proof (erule members_text.cases)
  fix w1 k key w2 w3 s' v w4
  assume "ws w" "s = w1 @ CHR 0x22 # k @ CHR 0x22 # w2 @ CHR '':'' # w3 @ s' @ w4" "kvs = [(key, v)]"
    "ws w1" "str_text k key" "ws w2" "ws w3" "json_text s' v" "ws w4"
  then show ?thesis using members_one [of "w @ w1" k key w2 w3 s' v w4] by (simp add: ws_append)
next
  fix w1 k key w2 w3 s' v w4 r kvs'
  assume "ws w" "s = w1 @ CHR 0x22 # k @ CHR 0x22 # w2 @ CHR '':'' # w3 @ s' @ w4 @ CHR '','' # r" "kvs = (key, v) # kvs'"
    "ws w1" "str_text k key" "ws w2" "ws w3" "json_text s' v" "ws w4" "members_text r kvs'"
  then show ?thesis using members_more [of "w @ w1" k key w2 w3 s' v w4 r kvs'] by (simp add: ws_append)
qed

lemma parse_sound:
  "parse_value fuel out i = Some (Inr (True, v, i')) \<Longrightarrow>
     \<exists>w s. ws w \<and> json_text s v \<and> rest_of i = w @ s @ rest_of i' \<and> (is_double v \<longrightarrow> number_ends (rest_of i'))"
  "parse_items fuel a i = Some (Inr (True, v, i')) \<Longrightarrow>
     \<exists>s vs. items_text s vs \<and> v = JArray (a @ vs) \<and> rest_of i = s @ CHR '']'' # rest_of i'"
  "parse_members fuel ob i = Some (Inr (True, v, i')) \<Longrightarrow>
     \<exists>s kvs. members_text s kvs \<and> v = JObject (put_members ob kvs) \<and> rest_of i = s @ CHR ''}'' # rest_of i'"
proof (induction fuel out i and fuel a i and fuel ob i arbitrary: v i' and v i' and v i'
    rule: parse_value_parse_items_parse_members.induct)
  case (2 fuel out i)
  show ?case
  proof (cases "dropWhile is_ws (rest_of i)")
    case Nil
    then show ?thesis using parse_value_none [OF Nil, of fuel out] "2.prems" by auto
  next
    case (Cons c x)
    obtain w where w: "ws w" "rest_of i = w @ c # x" using ws_split [of "rest_of i"] Cons by metis
    have goal: ?thesis if "\<exists>s. json_text s v \<and> c # x = s @ rest_of i' \<and> (is_double v \<longrightarrow> number_ends (rest_of i'))"
      using that w by auto
    obtain i1 where i1: "getc (skip_ws i) = (code c, i1)" "rest_of i1 = x" "rest_of (ungetc i1) = c # x"
      using value_start [OF Cons] by blast
    note run = "2.prems" [unfolded parse_value.simps i1 prod.case code_eq_iff]
    consider "c = CHR ''n''" | "c = CHR ''f''" | "c = CHR ''t''" | "c = CHR 0x22" | "c = CHR ''[''" | "c = CHR ''{''"
      | "c \<notin> {CHR ''n'', CHR ''f'', CHR ''t'', CHR 0x22, CHR ''['', CHR ''{''}" by blast
    then show ?thesis
    proof cases
      case 1
      then have "literal ''ull'' JNull out i1 = (True, v, i')" using run by simp
      from literal_sound [OF this] show ?thesis using 1 i1(2) json_null by (intro goal exI [of _ "''null''"]) simp
    next
      case 2
      then have "literal ''alse'' (JBool False) out i1 = (True, v, i')" using run by simp
      from literal_sound [OF this] show ?thesis using 2 i1(2) json_false by (intro goal exI [of _ "''false''"]) simp
    next
      case 3
      then have "literal ''rue'' (JBool True) out i1 = (True, v, i')" using run by simp
      from literal_sound [OF this] show ?thesis using 3 i1(2) json_true by (intro goal exI [of _ "''true''"]) simp
    next
      case 4
      then obtain t where t: "parse_string [] i1 = (True, t, i')" "v = JString t" using run by (auto split: prod.splits)
      obtain s where "str_text s t" "x = s @ CHR 0x22 # rest_of i'" using string_sound [OF t(1)] i1(2) by auto
      then show ?thesis using 4 t json_string by (intro goal exI [of _ "CHR 0x22 # s @ [CHR 0x22]"]) simp
    next
      case 5
      obtain b i2 where e: "expect CHR '']'' i1 = (b, i2)" by fastforce
      show ?thesis
      proof (cases b)
        case True
        then have "v = JArray []" "i' = i2" using run 5 e by simp_all
        moreover obtain u where "ws u" "x = u @ CHR '']'' # rest_of i2"
          using expect_sound [of "CHR '']''" i1 i2] e True i1(2) by auto
        ultimately show ?thesis using 5 json_empty_array by (intro goal exI [of _ "CHR ''['' # u @ '']''"]) simp
      next
        case False
        then have "parse_items fuel [] i2 = Some (Inr (True, v, i'))" using run 5 e by simp
        then obtain s vs where s: "items_text s vs" "v = JArray vs" "rest_of i2 = s @ CHR '']'' # rest_of i'"
          using "2.IH"(1) [OF i1(1) [symmetric], of b i2] 5 e False by (auto simp: code_def)
        moreover obtain u where "ws u" "x = u @ rest_of i2" 
          using expect_refused [of "CHR '']''" i1 i2] e False i1(2) by auto
        ultimately show ?thesis
          using 5 json_array [OF ws_items, of u s vs] by (intro goal exI [of _ "CHR ''['' # (u @ s) @ '']''"]) simp
      qed
    next
      case 6
      obtain b i2 where e: "expect CHR ''}'' i1 = (b, i2)" by fastforce
      show ?thesis
      proof (cases b)
        case True
        then have "v = JObject []" "i' = i2" using run 6 e by simp_all
        moreover obtain u where "ws u" "x = u @ CHR ''}'' # rest_of i2"
          using expect_sound [of "CHR ''}''" i1 i2] e True i1(2) by auto
        ultimately show ?thesis using 6 json_empty_object by (intro goal exI [of _ "CHR ''{'' # u @ ''}''"]) simp
      next
        case False
        then have "parse_members fuel [] i2 = Some (Inr (True, v, i'))" using run 6 e by simp
        then obtain s kvs where s: "members_text s kvs" "v = JObject (put_members [] kvs)" "rest_of i2 = s @ CHR ''}'' # rest_of i'"
          using "2.IH"(2) [OF i1(1) [symmetric], of b i2] 6 e False by (auto simp: code_def)
        moreover obtain u where "ws u" "x = u @ rest_of i2" 
          using expect_refused [of "CHR ''}''" i1 i2] e False i1(2) by auto
        ultimately show ?thesis
          using 6 json_object [OF ws_members, of u s kvs] by (intro goal exI [of _ "CHR ''{'' # (u @ s) @ ''}''"]) simp
      qed
    next
      case 7
      have d: "(code CHR ''0'' \<le> code c \<and> code c \<le> code CHR ''9'') = is_digit c"
        by (auto simp: is_digit_def code_numerals code_def)
      from 7 have digit: "is_digit c \<or> c = CHR ''-''" and n: "number_text out i1 = Inr (True, v, i')"
        using run unfolding d by (simp_all split: if_splits)
      then show ?thesis
        using number_sound [OF n i1(3) digit] json_number by (intro goal) auto
    qed
  qed
next
  case (4 fuel a i)
  obtain ok u i1 where v: "parse_value fuel JNull i = Some (Inr (ok, u, i1))"
    using "4.prems" by (auto split: option.splits sum.splits)
  then have ok: "ok = True" using "4.prems" by (auto split: if_splits)
  obtain w1 s where s: "ws w1" "json_text s u" "rest_of i = w1 @ s @ rest_of i1"
    using "4.IH"(1) v ok by blast
  obtain b i2 where e: "expect CHR '','' i1 = (b, i2)" by fastforce
  show ?case
  proof (cases b)
    case True
    then have "parse_items fuel (a @ [u]) i2 = Some (Inr (True, v, i'))" using "4.prems" v ok e by simp
    then obtain t vs where t: "items_text t vs" "v = JArray ((a @ [u]) @ vs)" "rest_of i2 = t @ CHR '']'' # rest_of i'"
      using "4.IH"(2) [OF v refl refl] ok e True by fastforce
    obtain w2 where "ws w2" "rest_of i1 = w2 @ CHR '','' # rest_of i2"
      using expect_sound [of "CHR '',''" i1 i2] e True by auto
    then show ?thesis
      using s t items_more [of w1 s u w2 t vs]
      by (intro exI [of _ "w1 @ s @ w2 @ CHR '','' # t"] exI [of _ "u # vs"]) simp
  next
    case False
    then obtain i3 where e3: "expect CHR '']'' i2 = (True, i3)" "v = JArray (a @ [u])" "i' = i3"
      using "4.prems" v ok e by (auto split: prod.splits)
    obtain w2 w3 where "ws w2" "rest_of i1 = w2 @ rest_of i2" "ws w3" "rest_of i2 = w3 @ CHR '']'' # rest_of i3"
      using expect_refused [of "CHR '',''" i1 i2] e False expect_sound [OF e3(1)] by auto
    then show ?thesis
      using s e3 items_one [of w1 s u "w2 @ w3"] by (intro exI [of _ "w1 @ s @ w2 @ w3"] exI [of _ "[u]"]) (simp add: ws_append)
  qed
next
  case (6 fuel ob i)
  obtain i1 where e1: "expect CHR 0x22 i = (True, i1)" using "6.prems" by (auto split: prod.splits if_splits)
  obtain key i2 where k: "parse_string [] i1 = (True, key, i2)" using "6.prems" e1 by (auto split: prod.splits if_splits)
  obtain i3 where e3: "expect CHR '':'' i2 = (True, i3)" using "6.prems" e1 k by (auto split: prod.splits if_splits)
  let ?o = "obj_at key ob"
  obtain ok u i4 where v: "parse_value fuel ?o i3 = Some (Inr (ok, u, i4))"
    using "6.prems" e1 k e3 by (auto split: option.splits sum.splits)
  then have ok: "ok = True" using "6.prems" e1 k e3 by (auto split: if_splits)
  obtain w3 s where s: "ws w3" "json_text s u" "rest_of i3 = w3 @ s @ rest_of i4"
    using "6.IH"(1) [OF e1 [symmetric] _ k [symmetric] refl _ e3 [symmetric]] v ok by auto
  obtain w1 where w1: "ws w1" "rest_of i = w1 @ CHR 0x22 # rest_of i1" using expect_sound [OF e1] by blast
  obtain x where x: "str_text x key" "rest_of i1 = x @ CHR 0x22 # rest_of i2" using string_sound [OF k] by auto
  obtain w2 where w2: "ws w2" "rest_of i2 = w2 @ CHR '':'' # rest_of i3" using expect_sound [OF e3] by blast
  obtain b i5 where e: "expect CHR '','' i4 = (b, i5)" by fastforce
  show ?case
  proof (cases b)
    case True
    then have "parse_members fuel (AList.update key u ob) i5 = Some (Inr (True, v, i'))" using "6.prems" e1 k e3 v ok e by simp
    then obtain t kvs where t: "members_text t kvs" "v = JObject (put_members (AList.update key u ob) kvs)"
        "rest_of i5 = t @ CHR ''}'' # rest_of i'"
      using "6.IH"(2) [OF e1 [symmetric] _ k [symmetric] refl _ e3 [symmetric] _ v] ok e True by fastforce
    obtain w4 where "ws w4" "rest_of i4 = w4 @ CHR '','' # rest_of i5"
      using expect_sound [of "CHR '',''" i4 i5] e True by auto
    then show ?thesis
      using s t w1 x w2 members_more [of w1 x key w2 w3 s u w4 t kvs]
      by (intro exI [of _ "w1 @ CHR 0x22 # x @ CHR 0x22 # w2 @ CHR '':'' # w3 @ s @ w4 @ CHR '','' # t"]
          exI [of _ "(key, u) # kvs"]) (simp add: put_members_def)
  next
    case False
    then obtain i6 where e6: "expect CHR ''}'' i5 = (True, i6)" "v = JObject (AList.update key u ob)" "i' = i6"
      using "6.prems" e1 k e3 v ok e by (auto split: prod.splits)
    obtain w4 w5 where "ws w4" "rest_of i4 = w4 @ rest_of i5" "ws w5" "rest_of i5 = w5 @ CHR ''}'' # rest_of i6"
      using expect_refused [of "CHR '',''" i4 i5] e False expect_sound [OF e6(1)] by auto
    then show ?thesis
      using s w1 x w2 e6 members_one [of w1 x key w2 w3 s u "w4 @ w5"]
      by (intro exI [of _ "w1 @ CHR 0x22 # x @ CHR 0x22 # w2 @ CHR '':'' # w3 @ s @ w4 @ w5"]
          exI [of _ "[(key, u)]"]) (simp add: put_members_def ws_append)
  qed
qed simp_all

text \<open>The fuel is enough: every value, item and member takes at least one character.\<close>

lemma json_text_nonempty: "json_text s v \<Longrightarrow> s \<noteq> []"
  using json_text_head by blast

lemma parse_terminates:
  "2 * length (rest_of i) < fuel \<Longrightarrow> parse_value fuel out i \<noteq> None"
  "2 * length (rest_of i) + 1 < fuel \<Longrightarrow> parse_items fuel a i \<noteq> None"
  "2 * length (rest_of i) + 1 < fuel \<Longrightarrow> parse_members fuel ob i \<noteq> None"
proof (induction fuel out i and fuel a i and fuel ob i rule: parse_value_parse_items_parse_members.induct)
  case (2 fuel out i)
  show ?case
  proof (cases "dropWhile is_ws (rest_of i)")
    case Nil
    then show ?thesis using parse_value_none [OF Nil, of fuel out] by auto
  next
    case (Cons c x)
    obtain i1 where i1: "getc (skip_ws i) = (code c, i1)" "rest_of i1 = x" using value_start [OF Cons] by blast
    have len: "length (rest_of i1) < length (rest_of i)" using length_dropWhile_eq [OF Cons] i1(2) by simp
    have bound: "2 * length (rest_of i2) + 1 < fuel" if "expect d i1 = (b, i2)" "\<not> b" for d b i2
      using expect_refused [of d i1 i2] that len "2.prems" by auto
    have items: "parse_items fuel [] i2 \<noteq> None" if "c = CHR ''[''" "expect CHR '']'' i1 = (b, i2)" "\<not> b" for b i2
      using "2.IH"(1) [OF i1(1) [symmetric], of b i2] that bound [OF that(2,3)] by (simp add: code_def)
    have members: "parse_members fuel [] i2 \<noteq> None" if "c = CHR ''{''" "expect CHR ''}'' i1 = (b, i2)" "\<not> b" for b i2
      using "2.IH"(2) [OF i1(1) [symmetric], of b i2] that bound [OF that(2,3)] by (simp add: code_def)
    show ?thesis
      unfolding parse_value.simps i1 prod.case code_eq_iff
      using items members by (simp split: prod.splits)
  qed
next
  case (4 fuel a i)
  have v: "parse_value fuel JNull i \<noteq> None" using "4.prems" by (intro "4.IH"(1)) simp
  have m: "parse_items fuel (a @ [u]) i2 \<noteq> None"
    if p: "parse_value fuel JNull i = Some (Inr (True, u, i1))" "expect CHR '','' i1 = (True, i2)" for u i1 i2
  proof -
    obtain w s where "json_text s u" "rest_of i = w @ s @ rest_of i1" using parse_sound(1) [OF p(1)] by blast
    moreover obtain w' where "rest_of i1 = w' @ CHR '','' # rest_of i2" using expect_sound [OF p(2)] by blast
    ultimately have "2 * length (rest_of i2) + 1 < fuel" using json_text_nonempty [of s u] "4.prems" by (cases s) auto
    then show ?thesis using "4.IH"(2) [OF p(1) refl refl] p(2) by fastforce
  qed
  show ?case using v m by (auto split: option.splits sum.splits prod.splits)
next
  case (6 fuel ob i)
  let ?o = "\<lambda>key. obj_at key ob"
  have l: "length (rest_of i3) + 3 \<le> length (rest_of i)"
    if "expect CHR 0x22 i = (True, i1)" "parse_string [] i1 = (True, key, i2)" "expect CHR '':'' i2 = (True, i3)"
    for i1 key i2 i3
    using expect_sound [OF that(1)] string_sound [OF that(2)] expect_sound [OF that(3)] by auto
  have v: "parse_value fuel (?o key) i3 \<noteq> None"
    if p: "expect CHR 0x22 i = (True, i1)" "parse_string [] i1 = (True, key, i2)" "expect CHR '':'' i2 = (True, i3)"
    for i1 key i2 i3
    using "6.IH"(1) [OF p(1) [symmetric] _ p(2) [symmetric] refl _ p(3) [symmetric]] l [OF p] "6.prems" by simp
  have m: "parse_members fuel (AList.update key u ob) i5 \<noteq> None"
    if p: "expect CHR 0x22 i = (True, i1)" "parse_string [] i1 = (True, key, i2)" "expect CHR '':'' i2 = (True, i3)"
      and q: "parse_value fuel (?o key) i3 = Some (Inr (True, u, i4))" "expect CHR '','' i4 = (True, i5)"
    for i1 key i2 i3 u i4 i5
  proof -
    obtain w s where "rest_of i3 = w @ s @ rest_of i4" using parse_sound(1) [OF q(1)] by blast
    moreover obtain w' where "rest_of i4 = w' @ CHR '','' # rest_of i5" using expect_sound [OF q(2)] by blast
    ultimately have "2 * length (rest_of i5) + 1 < fuel" using l [OF p] "6.prems" by simp
    then show ?thesis
      using "6.IH"(2) [OF p(1) [symmetric] _ p(2) [symmetric] refl _ p(3) [symmetric] _ q(1)] q(2) by fastforce
  qed
  show ?case using v m by (auto split: option.splits sum.splits prod.splits) (metis option.distinct(1))
qed simp_all

text \<open>The only exception is the one for numbers that are not finite.\<close>

lemma number_text_fault: "number_text out i = Inl e \<Longrightarrow> e = Throw (Runtime_error [])"
  by (auto simp: number_text_def value_of_double_def bind_res_def split: prod.splits if_splits)

lemma parse_faults:
  "parse_value fuel out i = Some (Inl e) \<Longrightarrow> e = Throw (Runtime_error [])"
  "parse_items fuel a i = Some (Inl e) \<Longrightarrow> e = Throw (Runtime_error [])"
  "parse_members fuel ob i = Some (Inl e) \<Longrightarrow> e = Throw (Runtime_error [])"
proof (induction fuel out i and fuel a i and fuel ob i rule: parse_value_parse_items_parse_members.induct)
  case (2 fuel out i)
  show ?case
  proof (cases "dropWhile is_ws (rest_of i)")
    case Nil
    then show ?thesis using parse_value_none [OF Nil, of fuel out] "2.prems" by auto
  next
    case (Cons c x)
    obtain i1 where i1: "getc (skip_ws i) = (code c, i1)" using value_start [OF Cons] by blast
    have items: "e = Throw (Runtime_error [])"
      if "parse_items fuel [] i2 = Some (Inl e)" "c = CHR ''[''" "expect CHR '']'' i1 = (b, i2)" "\<not> b" for b i2
      using "2.IH"(1) [OF i1 [symmetric], of b i2] that by (simp add: code_def)
    have members: "e = Throw (Runtime_error [])"
      if "parse_members fuel [] i2 = Some (Inl e)" "c = CHR ''{''" "expect CHR ''}'' i1 = (b, i2)" "\<not> b" for b i2
      using "2.IH"(2) [OF i1 [symmetric], of b i2] that by (simp add: code_def)
    show ?thesis
      using "2.prems" number_text_fault [of out i1 e] items members
      unfolding parse_value.simps i1 prod.case code_eq_iff
      by (simp split: prod.splits if_splits)
  qed
next
  case (4 fuel a i)
  show ?case
  proof (cases "parse_value fuel JNull i = Some (Inl e)")
    case True
    then show ?thesis by (rule "4.IH"(1))
  next
    case False
    then obtain u i1 i2 where p: "parse_value fuel JNull i = Some (Inr (True, u, i1))" "expect CHR '','' i1 = (True, i2)"
        "parse_items fuel (a @ [u]) i2 = Some (Inl e)"
      using "4.prems" by (auto split: option.splits sum.splits prod.splits if_splits)
    then show ?thesis using "4.IH"(2) [OF p(1) refl refl] by fastforce
  qed
next
  case (6 fuel ob i)
  obtain i1 key i2 i3 where p: "expect CHR 0x22 i = (True, i1)" "parse_string [] i1 = (True, key, i2)" "expect CHR '':'' i2 = (True, i3)"
    using "6.prems" by (auto split: prod.splits if_splits)
  show ?case
  proof (cases "parse_value fuel (obj_at key ob) i3 = Some (Inl e)")
    case True
    then show ?thesis using "6.IH"(1) [OF p(1) [symmetric] _ p(2) [symmetric] refl _ p(3) [symmetric]] by simp
  next
    case False
    then obtain u i4 i5 where q: "parse_value fuel (obj_at key ob) i3 = Some (Inr (True, u, i4))" "expect CHR '','' i4 = (True, i5)"
        "parse_members fuel (AList.update key u ob) i5 = Some (Inl e)"
      using "6.prems" p by (auto split: option.splits sum.splits prod.splits if_splits)
    then show ?thesis
      using "6.IH"(2) [OF p(1) [symmetric] _ p(2) [symmetric] refl _ p(3) [symmetric] _ q(1)] by fastforce
  qed
qed simp_all

lemma error_tail_nonempty: "err \<noteq> [] \<Longrightarrow> error_tail err i \<noteq> []"
  by (induction err i rule: error_tail.induct) (subst error_tail.simps, auto split: prod.splits)

lemma json_parse_iff:
  "json_parse t = Inr ([], v) \<longleftrightarrow> (\<exists>i. parse_value (json_fuel t) JNull (input_of t) = Some (Inr (True, v, i)))"
  by (auto simp: json_parse_def error_tail_nonempty split: option.splits sum.splits if_splits)

lemma json_parse_exact:
  "json_parse t \<noteq> Inl UB
   \<and> (json_parse t = Inr ([], v) \<longleftrightarrow>
        (\<exists>w s r. ws w \<and> json_text s v \<and> t = w @ s @ r \<and> (is_double v \<longrightarrow> number_ends r)))"
proof
  have r: "rest_of (input_of t) = t" by (simp add: rest_of_def input_of_def)
  have n: "parse_value (json_fuel t) JNull (input_of t) \<noteq> None"
    by (rule parse_terminates) (simp add: r json_fuel_def)
  show "json_parse t \<noteq> Inl UB"
    using n parse_faults(1) [of "json_fuel t" JNull "input_of t"]
    by (auto simp: json_parse_def split: option.splits sum.splits)
  show "json_parse t = Inr ([], v) \<longleftrightarrow>
        (\<exists>w s r. ws w \<and> json_text s v \<and> t = w @ s @ r \<and> (is_double v \<longrightarrow> number_ends r))"
    unfolding json_parse_iff
  proof
    assume "\<exists>i. parse_value (json_fuel t) JNull (input_of t) = Some (Inr (True, v, i))"
    then show "\<exists>w s r. ws w \<and> json_text s v \<and> t = w @ s @ r \<and> (is_double v \<longrightarrow> number_ends r)"
      using parse_sound(1) [of "json_fuel t" JNull "input_of t" v] unfolding r by blast
  next
    assume "\<exists>w s r. ws w \<and> json_text s v \<and> t = w @ s @ r \<and> (is_double v \<longrightarrow> number_ends r)"
    then obtain w s q where "ws w" "json_text s v" "t = w @ s @ q" "is_double v \<longrightarrow> number_ends q" by blast
    then show "\<exists>i. parse_value (json_fuel t) JNull (input_of t) = Some (Inr (True, v, i))"
      using parse_complete(1) [of s v "input_of t" q "json_fuel t" JNull] r json_text_drop [of s v w q]
      by (auto simp: json_fuel_def)
  qed
qed

lemma json_parse_reads: "json_text s v \<Longrightarrow> \<not> is_double v \<Longrightarrow> json_parse s = Inr ([], v)"
proof -
  assume "json_text s v" "\<not> is_double v"
  then have "\<exists>w s' r. ws w \<and> json_text s' v \<and> s = w @ s' @ r \<and> (is_double v \<longrightarrow> number_ends r)"
    by (intro exI [of _ "[]"] exI [of _ s] conjI) (simp_all add: ws_def)
  then show "json_parse s = Inr ([], v)" using json_parse_exact by blast
qed

text \<open>Numerals in the texts of a page.\<close>

lemma number_numeral:
  assumes "n < 2 ^ 53"
  shows "\<exists>d. number_denotes (nat_digits n) d \<and> int_part d = Some (int n)"
proof -
  obtain m e where "strtod (nat_digits n) = (Finite False m e, [])" "int_part (Finite False m e) = Some (int n)"
    using strtod_numeral [OF assms, of "[]"] by (auto simp: numeral_ends_def simp del: int_part.simps)
  moreover have "list_all number_char (nat_digits n)"
    using nat_digits_all [of n] by (auto simp: list_all_iff number_char_def)
  moreover have "is_digit (hd (nat_digits n))"
    using nat_digits_all [of n] nat_digits_nonempty [of n] by (cases "nat_digits n") auto
  ultimately show ?thesis
    using nat_digits_nonempty [of n] by (intro exI [of _ "Finite False m e"]) (simp add: number_denotes_def)
qed

lemma plain_text: "list_all plain_char s \<Longrightarrow> str_text s s"
  by (induction s) (auto intro: str_nil str_plain)

section \<open>Property\<close>

text \<open>C9: JSON is read exactly.  The parser always returns, and it succeeds on a text precisely when the
  text begins, after white space, with a JSON text; the value is then the one the text denotes: the
  escapes and surrogate pairs of its strings resolved to UTF-8, the last of several members with
  the same name, the numbers as \<open>strtod\<close> reads them.  What follows the value is not looked at.\<close>

theorem json_parse_grammar:
  "json_parse t \<noteq> Inl UB
   \<and> (json_parse t = Inr ([], v) \<longleftrightarrow>
        (\<exists>w s r. ws w \<and> json_text s v \<and> t = w @ s @ r \<and> (if is_double v then number_ends r else True)))"
proof -
  have "(if is_double v then number_ends r else True) \<longleftrightarrow> (is_double v \<longrightarrow> number_ends r)" for r by simp
  then show ?thesis using json_parse_exact [of t v] by presburger
qed

end
