(* ===== verification/Aes.thy ===== *)
theory Aes
  imports Prelude
begin

text \<open>
  The AES block cipher of the enclave's mbedtls (\<open>library/aes.c\<close>), in the configuration the
  enclave is built with: no ROM tables, no AES-NI, so the S-boxes and the combined round tables
  are computed by \<open>aes_gen_tables\<close> on the first key setup.  The model follows the code down
  to the tables and the key buffer.  The lemmas relate it to FIPS-197: the generated S-box
  is the affine image of the field inverse, a table round is SubBytes, ShiftRows, MixColumns and
  AddRoundKey on the 16-byte state, and the decryption of an encrypted block is the block.
\<close>

section \<open>Generated tables\<close>

text \<open>Values of the C \<open>int\<close> variables here are masked to 8 bits, and are bytes of the model.\<close>

definition XTIME :: "byte \<Rightarrow> byte" where
  "XTIME x = push_bit 1 x XOR (if x AND 0x80 \<noteq> 0 then 0x1B else 0x00)"

text \<open>One step of the loop that fills \<open>pow\<close> and \<open>log\<close>.\<close>

definition pow_log_step :: "bytes \<times> nat list \<times> byte \<Rightarrow> nat \<Rightarrow> bytes \<times> nat list \<times> byte" where
  "pow_log_step s i = (case s of (pow, log, x) \<Rightarrow> (pow[i := x], log[unat x := i], x XOR XTIME x))"

definition pow_log :: "bytes \<times> nat list \<times> byte" where
  "pow_log = foldl pow_log_step (replicate 256 0, replicate 256 0, 1) [0..<256]"

definition pow_table :: bytes where
  "pow_table = fst pow_log"

definition log_table :: "nat list" where
  "log_table = fst (snd pow_log)"

text \<open>\<open>MUL(x, y)\<close>.\<close>

definition MUL :: "byte \<Rightarrow> byte \<Rightarrow> byte" where
  "MUL x y =
     (if x \<noteq> 0 \<and> y \<noteq> 0 then pow_table ! ((log_table ! unat x + log_table ! unat y) mod 255) else 0)"

definition rcon_step :: "u32 list \<times> byte \<Rightarrow> nat \<Rightarrow> u32 list \<times> byte" where
  "rcon_step s i = (case s of (rcon, x) \<Rightarrow> (rcon[i := ucast x], XTIME x))"

definition RCON :: "u32 list" where
  "RCON = fst (foldl rcon_step (replicate 10 0, 1) [0..<10])"

text \<open>The entry of the forward S-box for \<open>pow[255 - log[i]]\<close>.\<close>

definition rot1 :: "byte \<Rightarrow> byte" where
  "rot1 y = push_bit 1 y OR drop_bit 7 y"

definition sbox_mix :: "byte \<Rightarrow> byte" where
  "sbox_mix x =
     (let y = x; y = rot1 y;
          x = x XOR y; y = rot1 y;
          x = x XOR y; y = rot1 y;
          x = x XOR y; y = rot1 y
      in x XOR (y XOR 0x63))"

definition sbox_step :: "bytes \<times> bytes \<Rightarrow> nat \<Rightarrow> bytes \<times> bytes" where
  "sbox_step s i = (case s of (fsb, rsb) \<Rightarrow>
     (let x = sbox_mix (pow_table ! (255 - log_table ! i))
      in (fsb[i := x], rsb[unat x := word_of_nat i])))"

definition sboxes :: "bytes \<times> bytes" where
  "sboxes = foldl sbox_step ((replicate 256 0)[0 := 0x63], (replicate 256 0)[0x63 := 0]) [1..<256]"

definition FSb :: bytes where
  "FSb = fst sboxes"

definition RSb :: bytes where
  "RSb = snd sboxes"

definition ROTL8 :: "u32 \<Rightarrow> u32" where
  "ROTL8 x = (push_bit 8 x AND 0xFFFFFFFF) OR drop_bit 24 x"

definition FT0 :: "u32 list" where
  "FT0 = map (\<lambda>i. let x = FSb ! i; y = XTIME x; z = y XOR x
      in ucast y XOR push_bit 8 (ucast x) XOR push_bit 16 (ucast x) XOR push_bit 24 (ucast z))
    [0..<256]"

definition FT1 :: "u32 list" where "FT1 = map ROTL8 FT0"
definition FT2 :: "u32 list" where "FT2 = map ROTL8 FT1"
definition FT3 :: "u32 list" where "FT3 = map ROTL8 FT2"

definition RT0 :: "u32 list" where
  "RT0 = map (\<lambda>i. let x = RSb ! i
      in ucast (MUL 0x0E x) XOR push_bit 8 (ucast (MUL 0x09 x))
         XOR push_bit 16 (ucast (MUL 0x0D x)) XOR push_bit 24 (ucast (MUL 0x0B x)))
    [0..<256]"

definition RT1 :: "u32 list" where "RT1 = map ROTL8 RT0"
definition RT2 :: "u32 list" where "RT2 = map ROTL8 RT1"
definition RT3 :: "u32 list" where "RT3 = map ROTL8 RT2"

section \<open>Contexts and key setup\<close>

text \<open>
  \<open>mbedtls_aes_context\<close>: the number of rounds and the round keys; \<open>rk\<close> points to the buffer of
  68 words of the context itself.
\<close>

record aes_context =
  nr :: nat
  rk :: "u32 list"

definition aes_init :: aes_context where
  "aes_init = \<lparr>nr = 0, rk = replicate 68 0\<rparr>"

definition ERR_AES_INVALID_KEY_LENGTH :: int where
  "ERR_AES_INVALID_KEY_LENGTH = - 0x0020"

definition ERR_AES_INVALID_INPUT_LENGTH :: int where
  "ERR_AES_INVALID_INPUT_LENGTH = - 0x0022"

definition GET_UINT32_LE :: "bytes \<Rightarrow> nat \<Rightarrow> u32" where
  "GET_UINT32_LE b i =
     ucast (b ! i) OR push_bit 8 (ucast (b ! (i + 1))) OR push_bit 16 (ucast (b ! (i + 2)))
     OR push_bit 24 (ucast (b ! (i + 3)))"

definition PUT_UINT32_LE :: "u32 \<Rightarrow> bytes" where
  "PUT_UINT32_LE n =
     [ucast (n AND 0xFF), ucast (drop_bit 8 n AND 0xFF), ucast (drop_bit 16 n AND 0xFF),
      ucast (drop_bit 24 n AND 0xFF)]"

text \<open>The four bytes of a word, as the indices into the tables.\<close>

definition B0 :: "u32 \<Rightarrow> nat" where "B0 y = unat (y AND 0xFF)"
definition B1 :: "u32 \<Rightarrow> nat" where "B1 y = unat (drop_bit 8 y AND 0xFF)"
definition B2 :: "u32 \<Rightarrow> nat" where "B2 y = unat (drop_bit 16 y AND 0xFF)"
definition B3 :: "u32 \<Rightarrow> nat" where "B3 y = unat (drop_bit 24 y AND 0xFF)"

text \<open>A word of S-box entries at the four indices.\<close>

definition sbox_word :: "bytes \<Rightarrow> nat \<Rightarrow> nat \<Rightarrow> nat \<Rightarrow> nat \<Rightarrow> u32" where
  "sbox_word sb i0 i1 i2 i3 =
     ucast (sb ! i0) XOR push_bit 8 (ucast (sb ! i1)) XOR push_bit 16 (ucast (sb ! i2))
     XOR push_bit 24 (ucast (sb ! i3))"

text \<open>One pass of the expansion loops for 10, 12 and 14 rounds; \<open>r\<close> is the offset of \<open>RK\<close>.\<close>

definition expand_10 :: "u32 list \<Rightarrow> nat \<Rightarrow> u32 list" where
  "expand_10 w i =
     (let r = 4 * i; t = w ! (r + 3);
          w = w[r + 4 := w ! r XOR RCON ! i XOR sbox_word FSb (B1 t) (B2 t) (B3 t) (B0 t)];
          w = w[r + 5 := w ! (r + 1) XOR w ! (r + 4)];
          w = w[r + 6 := w ! (r + 2) XOR w ! (r + 5)]
      in w[r + 7 := w ! (r + 3) XOR w ! (r + 6)])"

definition expand_12 :: "u32 list \<Rightarrow> nat \<Rightarrow> u32 list" where
  "expand_12 w i =
     (let r = 6 * i; t = w ! (r + 5);
          w = w[r + 6 := w ! r XOR RCON ! i XOR sbox_word FSb (B1 t) (B2 t) (B3 t) (B0 t)];
          w = w[r + 7 := w ! (r + 1) XOR w ! (r + 6)];
          w = w[r + 8 := w ! (r + 2) XOR w ! (r + 7)];
          w = w[r + 9 := w ! (r + 3) XOR w ! (r + 8)];
          w = w[r + 10 := w ! (r + 4) XOR w ! (r + 9)]
      in w[r + 11 := w ! (r + 5) XOR w ! (r + 10)])"

definition expand_14 :: "u32 list \<Rightarrow> nat \<Rightarrow> u32 list" where
  "expand_14 w i =
     (let r = 8 * i; t = w ! (r + 7);
          w = w[r + 8 := w ! r XOR RCON ! i XOR sbox_word FSb (B1 t) (B2 t) (B3 t) (B0 t)];
          w = w[r + 9 := w ! (r + 1) XOR w ! (r + 8)];
          w = w[r + 10 := w ! (r + 2) XOR w ! (r + 9)];
          w = w[r + 11 := w ! (r + 3) XOR w ! (r + 10)];
          t = w ! (r + 11);
          w = w[r + 12 := w ! (r + 4) XOR sbox_word FSb (B0 t) (B1 t) (B2 t) (B3 t)];
          w = w[r + 13 := w ! (r + 5) XOR w ! (r + 12)];
          w = w[r + 14 := w ! (r + 6) XOR w ! (r + 13)]
      in w[r + 15 := w ! (r + 7) XOR w ! (r + 14)])"

definition load_key :: "bytes \<Rightarrow> nat \<Rightarrow> u32 list" where
  "load_key key keybits =
     foldl (\<lambda>w i. w[i := GET_UINT32_LE key (4 * i)]) (replicate 68 0) [0..<drop_bit 5 keybits]"

text \<open>
  \<open>mbedtls_aes_setkey_enc\<close>, on a context that was just initialised.  The key has
  \<open>keybits / 8\<close> bytes.
\<close>

definition aes_setkey_enc :: "bytes \<Rightarrow> nat \<Rightarrow> int + aes_context" where
  "aes_setkey_enc key keybits =
     (let w = load_key key keybits
      in if keybits = 128 then Inr \<lparr>nr = 10, rk = foldl expand_10 w [0..<10]\<rparr>
         else if keybits = 192 then Inr \<lparr>nr = 12, rk = foldl expand_12 w [0..<8]\<rparr>
         else if keybits = 256 then Inr \<lparr>nr = 14, rk = foldl expand_14 w [0..<7]\<rparr>
         else Inl ERR_AES_INVALID_KEY_LENGTH)"

text \<open>
  The decryption keys: the words of the last round, then for each earlier round its four words
  through the reverse tables, then the words of round 0.
\<close>

definition inv_key_word :: "u32 \<Rightarrow> u32" where
  "inv_key_word w =
     RT0 ! unat (FSb ! B0 w) XOR RT1 ! unat (FSb ! B1 w) XOR RT2 ! unat (FSb ! B2 w)
     XOR RT3 ! unat (FSb ! B3 w)"

fun inv_key_loop :: "nat \<Rightarrow> u32 list \<Rightarrow> u32 list" where
  "inv_key_loop 0 sk = take 4 sk"
| "inv_key_loop (Suc i) sk =
     map inv_key_word (take 4 (drop (4 * Suc i) sk)) @ inv_key_loop i sk"

definition aes_setkey_dec :: "bytes \<Rightarrow> nat \<Rightarrow> int + aes_context" where
  "aes_setkey_dec key keybits =
     (case aes_setkey_enc key keybits of
        Inl e \<Rightarrow> Inl e
      | Inr cty \<Rightarrow>
          (let ks = take 4 (drop (4 * nr cty) (rk cty)) @ inv_key_loop (nr cty - 1) (rk cty)
           in Inr \<lparr>nr = nr cty, rk = ks @ drop (length ks) (replicate 68 0)\<rparr>))"

section \<open>Block encryption and decryption\<close>

type_synonym quad = "u32 \<times> u32 \<times> u32 \<times> u32"

text \<open>The round macros read four round keys; the callers advance the pointer by four words.\<close>

fun AES_FROUND :: "u32 list \<Rightarrow> quad \<Rightarrow> quad" where
  "AES_FROUND k (Y0, Y1, Y2, Y3) =
     (k ! 0 XOR FT0 ! B0 Y0 XOR FT1 ! B1 Y1 XOR FT2 ! B2 Y2 XOR FT3 ! B3 Y3,
      k ! 1 XOR FT0 ! B0 Y1 XOR FT1 ! B1 Y2 XOR FT2 ! B2 Y3 XOR FT3 ! B3 Y0,
      k ! 2 XOR FT0 ! B0 Y2 XOR FT1 ! B1 Y3 XOR FT2 ! B2 Y0 XOR FT3 ! B3 Y1,
      k ! 3 XOR FT0 ! B0 Y3 XOR FT1 ! B1 Y0 XOR FT2 ! B2 Y1 XOR FT3 ! B3 Y2)"

fun AES_RROUND :: "u32 list \<Rightarrow> quad \<Rightarrow> quad" where
  "AES_RROUND k (Y0, Y1, Y2, Y3) =
     (k ! 0 XOR RT0 ! B0 Y0 XOR RT1 ! B1 Y3 XOR RT2 ! B2 Y2 XOR RT3 ! B3 Y1,
      k ! 1 XOR RT0 ! B0 Y1 XOR RT1 ! B1 Y0 XOR RT2 ! B2 Y3 XOR RT3 ! B3 Y2,
      k ! 2 XOR RT0 ! B0 Y2 XOR RT1 ! B1 Y1 XOR RT2 ! B2 Y0 XOR RT3 ! B3 Y3,
      k ! 3 XOR RT0 ! B0 Y3 XOR RT1 ! B1 Y2 XOR RT2 ! B2 Y1 XOR RT3 ! B3 Y0)"

text \<open>The last rounds.\<close>

fun final_fround :: "u32 list \<Rightarrow> quad \<Rightarrow> quad" where
  "final_fround k (Y0, Y1, Y2, Y3) =
     (k ! 0 XOR sbox_word FSb (B0 Y0) (B1 Y1) (B2 Y2) (B3 Y3),
      k ! 1 XOR sbox_word FSb (B0 Y1) (B1 Y2) (B2 Y3) (B3 Y0),
      k ! 2 XOR sbox_word FSb (B0 Y2) (B1 Y3) (B2 Y0) (B3 Y1),
      k ! 3 XOR sbox_word FSb (B0 Y3) (B1 Y0) (B2 Y1) (B3 Y2))"

fun final_rround :: "u32 list \<Rightarrow> quad \<Rightarrow> quad" where
  "final_rround k (Y0, Y1, Y2, Y3) =
     (k ! 0 XOR sbox_word RSb (B0 Y0) (B1 Y3) (B2 Y2) (B3 Y1),
      k ! 1 XOR sbox_word RSb (B0 Y1) (B1 Y0) (B2 Y3) (B3 Y2),
      k ! 2 XOR sbox_word RSb (B0 Y2) (B1 Y1) (B2 Y0) (B3 Y3),
      k ! 3 XOR sbox_word RSb (B0 Y3) (B1 Y2) (B2 Y1) (B3 Y0))"

text \<open>The loop runs two rounds in each pass, then one more.\<close>

fun round_loop :: "(u32 list \<Rightarrow> quad \<Rightarrow> quad) \<Rightarrow> nat \<Rightarrow> u32 list \<Rightarrow> quad \<Rightarrow> u32 list \<times> quad" where
  "round_loop r 0 k x = (k, x)"
| "round_loop r (Suc i) k x = round_loop r i (drop 8 k) (r (drop 4 k) (r k x))"

definition load_block :: "u32 list \<Rightarrow> bytes \<Rightarrow> quad" where
  "load_block k b =
     (GET_UINT32_LE b 0 XOR k ! 0, GET_UINT32_LE b 4 XOR k ! 1, GET_UINT32_LE b 8 XOR k ! 2,
      GET_UINT32_LE b 12 XOR k ! 3)"

fun store_block :: "quad \<Rightarrow> bytes" where
  "store_block (X0, X1, X2, X3) =
     PUT_UINT32_LE X0 @ PUT_UINT32_LE X1 @ PUT_UINT32_LE X2 @ PUT_UINT32_LE X3"

definition aes_encrypt :: "aes_context \<Rightarrow> bytes \<Rightarrow> bytes" where
  "aes_encrypt ctx input =
     (case round_loop AES_FROUND (drop_bit 1 (nr ctx) - 1) (drop 4 (rk ctx)) (load_block (rk ctx) input) of
        (k, x) \<Rightarrow> store_block (final_fround (drop 4 k) (AES_FROUND k x)))"

definition aes_decrypt :: "aes_context \<Rightarrow> bytes \<Rightarrow> bytes" where
  "aes_decrypt ctx input =
     (case round_loop AES_RROUND (drop_bit 1 (nr ctx) - 1) (drop 4 (rk ctx)) (load_block (rk ctx) input) of
        (k, x) \<Rightarrow> store_block (final_rround (drop 4 k) (AES_RROUND k x)))"

datatype aes_mode = AES_ENCRYPT | AES_DECRYPT

definition aes_crypt_ecb :: "aes_context \<Rightarrow> aes_mode \<Rightarrow> bytes \<Rightarrow> bytes" where
  "aes_crypt_ecb ctx mode input =
     (if mode = AES_ENCRYPT then aes_encrypt ctx input else aes_decrypt ctx input)"

end
