(* ===== verification/Aes_Field.thy ===== *)
theory Aes_Field
  imports Aes
begin

text \<open>
  The field of AES and the tables the code generates over it: the powers of the generator, the
  logarithms, the product \<open>MUL\<close> and the two S-boxes, related to the definitions of FIPS-197
  (multiplication modulo \<open>0x11B\<close>, inverse, affine map).
\<close>

section \<open>The field\<close>

text \<open>FIPS-197, section 4: multiplication by \<open>x\<close> modulo the polynomial \<open>0x11B\<close>, and by any byte.\<close>

definition fips_xtime :: "byte \<Rightarrow> byte" where
  "fips_xtime b = (let y = push_bit 1 (ucast b :: 16 word) in ucast (if bit y 8 then y XOR 0x11B else y))"

definition gmul :: "byte \<Rightarrow> byte \<Rightarrow> byte" where
  "gmul x y = foldl (\<lambda>acc i. acc XOR (if bit y i then (fips_xtime ^^ i) x else 0)) 0 [0..<8]"

lemma bit_7: "b AND 0x80 \<noteq> 0 \<longleftrightarrow> bit b 7" for b :: byte
proof -
  have m: "(0x80 :: byte) = push_bit 7 1" by simp
  have "b AND push_bit 7 1 \<noteq> 0 \<longleftrightarrow> (\<exists>n. bit (b AND push_bit 7 1) n)"
    by (metis bit_eqI bit_0_eq bot_apply bot_bool_def)
  also have "\<dots> \<longleftrightarrow> bit b 7"
    unfolding bit_and_iff bit_push_bit_iff by (auto simp: bit_1_iff)
  finally show ?thesis by (simp only: m)
qed

lemma XTIME_eq: "XTIME b = push_bit 1 b XOR (if bit b 7 then 0x1B else 0)"
  unfolding XTIME_def bit_7 ..

lemma fips_xtime_eq: "fips_xtime b = XTIME b"
  unfolding XTIME_eq fips_xtime_def Let_def
  by (rule byte_eqI, elim insertE emptyE; simp add: bit_simps bit_times_2)

lemma XTIME_xor: "XTIME (a XOR b) = XTIME a XOR XTIME b"
  unfolding XTIME_eq by (rule byte_eqI, elim insertE emptyE; auto simp: bit_simps bit_times_2)

lemma XTIME_0 [simp]: "XTIME 0 = 0"
  by (simp add: XTIME_eq)

lemma bits_XTIME:
  "bit (XTIME b) 0 = bit b 7" "bit (XTIME b) 1 = (bit b 0 \<noteq> bit b 7)" "bit (XTIME b) 2 = bit b 1"
  "bit (XTIME b) 3 = (bit b 2 \<noteq> bit b 7)" "bit (XTIME b) 4 = (bit b 3 \<noteq> bit b 7)"
  "bit (XTIME b) 5 = bit b 4" "bit (XTIME b) 6 = bit b 5" "bit (XTIME b) 7 = bit b 6"
  unfolding XTIME_eq by (auto simp: bit_simps bit_times_2)


lemmas xor_ac = xor.assoc xor.commute xor.left_commute xor_cancel

definition scale :: "bool \<Rightarrow> byte \<Rightarrow> byte" where
  "scale c x = (if c then x else 0)"

lemma scale_simps:
  "scale False x = 0" "scale True x = x"
  "scale (c \<noteq> d) x = scale c x XOR scale d x"
  "scale c (x XOR y) = scale c x XOR scale c y"
  "XTIME (scale c x) = scale c (XTIME x)"
  by (auto simp: scale_def)

lemma XTIME_8:
  "XTIME (XTIME (XTIME (XTIME (XTIME (XTIME (XTIME (XTIME x)))))))
    = x XOR XTIME x XOR XTIME (XTIME (XTIME x)) XOR XTIME (XTIME (XTIME (XTIME x)))"
  by (rule byte_eqI, elim insertE emptyE) (simp_all only: bits_XTIME bit_xor_iff, argo+)

lemma gmul_eq:
  "gmul x y =
    scale (bit y 0) x XOR scale (bit y 1) (XTIME x) XOR scale (bit y 2) (XTIME (XTIME x))
    XOR scale (bit y 3) (XTIME (XTIME (XTIME x))) XOR scale (bit y 4) (XTIME (XTIME (XTIME (XTIME x))))
    XOR scale (bit y 5) (XTIME (XTIME (XTIME (XTIME (XTIME x)))))
    XOR scale (bit y 6) (XTIME (XTIME (XTIME (XTIME (XTIME (XTIME x))))))
    XOR scale (bit y 7) (XTIME (XTIME (XTIME (XTIME (XTIME (XTIME (XTIME x)))))))"
proof -
  have "[0..<8] = [0, 1, 2, 3, 4, 5, 6, 7]" by (simp add: upt_conv_Cons)
  moreover have "fips_xtime = XTIME" by (rule ext) (rule fips_xtime_eq)
  ultimately have "gmul x y = foldl (\<lambda>acc i. acc XOR scale (bit y i) ((XTIME ^^ i) x)) 0 [0, 1, 2, 3, 4, 5, 6, 7]"
    by (simp only: gmul_def scale_def)
  then show ?thesis by (simp add: eval_nat_numeral xor.assoc)
qed

lemma gmul_xor: "gmul x (y XOR z) = gmul x y XOR gmul x z"
  by (simp only: gmul_eq bit_xor_iff scale_simps xor_ac)

lemma gmul_XTIME: "gmul x (XTIME y) = XTIME (gmul x y)"
  by (simp only: gmul_eq bits_XTIME XTIME_xor scale_simps XTIME_8 xor_ac)

lemma gmul_1 [simp]: "gmul x 1 = x"
  by (simp add: gmul_eq bit_1_iff scale_def)

lemma gmul_0 [simp]: "gmul x 0 = 0" "gmul 0 y = 0"
  by (simp_all add: gmul_eq scale_def)

text \<open>Multiplication by the generator 3, and its powers.\<close>

definition g3 :: "byte \<Rightarrow> byte" where
  "g3 x = x XOR XTIME x"

lemma gmul_g3: "gmul x (g3 y) = g3 (gmul x y)"
  by (simp only: g3_def gmul_xor gmul_XTIME)

abbreviation gpow :: "nat \<Rightarrow> byte" where
  "gpow k \<equiv> (g3 ^^ k) 1"

lemma gmul_gpow: "gmul x (gpow k) = (g3 ^^ k) x"
  by (induction k) (simp_all add: gmul_g3)

lemma gmul_gpows: "gmul (gpow a) (gpow b) = gpow (b + a)"
  by (simp only: gmul_gpow funpow_add comp_def)

lemma g3_inj: "g3 x = g3 y \<longleftrightarrow> x = y"
proof
  assume "g3 x = g3 y"
  then have "bit (g3 x) n = bit (g3 y) n" for n by simp
  from this [of 0] this [of 1] this [of 2] this [of 3] this [of 4] this [of 5] this [of 6] this [of 7]
  have "bit x 7 = bit y 7 \<and> bit x 0 = bit y 0 \<and> bit x 1 = bit y 1 \<and> bit x 2 = bit y 2
      \<and> bit x 3 = bit y 3 \<and> bit x 4 = bit y 4 \<and> bit x 5 = bit y 5 \<and> bit x 6 = bit y 6"
    unfolding g3_def bit_xor_iff bits_XTIME by argo
  then show "x = y" by (intro byte_eqI) auto
qed simp

lemma gpow_small: "gpow 1 = 3" "gpow 2 = 5" "gpow 5 = 51"
  by code_simp+

lemma gmul_values:
  "gmul 51 51 = 114" "gmul 51 114 = 53" "gmul 53 5 = 225" "gmul 225 225 = 92" "gmul 92 225 = 12"
  "gmul 12 92 = 189" "gmul 189 189 = 188" "gmul 188 189 = 1"
  by code_simp+

lemma gpow_add: "gpow (a + b) = gmul (gpow a) (gpow b)"
  by (simp only: gmul_gpows add.commute)

lemma gpow_values: "gpow 15 = 53" "gpow 51 = 12" "gpow 85 = 189" "gpow 255 = 1"
proof -
  have "gpow 10 = 114" using gpow_add [of 5 5] by (simp add: gpow_small gmul_values)
  then show p15: "gpow 15 = 53" using gpow_add [of 5 10] by (simp add: gpow_small gmul_values)
  have p17: "gpow 17 = 225" using gpow_add [of 15 2] by (simp add: p15 gpow_small gmul_values)
  have p34: "gpow 34 = 92" using gpow_add [of 17 17] by (simp add: p17 gmul_values)
  show p51: "gpow 51 = 12" using gpow_add [of 34 17] by (simp add: p17 p34 gmul_values)
  show p85: "gpow 85 = 189" using gpow_add [of 51 34] by (simp add: p51 p34 gmul_values)
  have "gpow 170 = 188" using gpow_add [of 85 85] by (simp add: p85 gmul_values)
  then show "gpow 255 = 1" using gpow_add [of 170 85] by (simp add: p85 gmul_values)
qed

lemma gpow_mult: "gpow b = 1 \<Longrightarrow> gpow (q * b) = 1"
proof (induction q)
  case (Suc q)
  then show ?case using gpow_add [of b "q * b"] by (simp only: mult_Suc gmul_1)
qed simp

lemma gpow_mod: "gpow b = 1 \<Longrightarrow> gpow (a mod b) = gpow a"
  using gpow_add [of "a mod b" "a div b * b"] gpow_mult [of b "a div b"] by simp

lemma gpow_gcd: "gpow a = 1 \<Longrightarrow> gpow b = 1 \<Longrightarrow> gpow (gcd a b) = 1"
proof (induction a b rule: gcd_nat_induct)
  case (base m)
  then show ?case by (simp only: gcd_0_nat)
next
  case (step m n)
  then have "gpow (m mod n) = 1" by (simp only: gpow_mod)
  with step show ?case by (simp only: gcd_red_nat [symmetric])
qed

lemma gpow_order: "gpow k = 1 \<Longrightarrow> 255 dvd k"
proof -
  assume "gpow k = 1"
  define d where "d = gcd k 255"
  have d: "gpow d = 1" using gpow_gcd [of k 255] \<open>gpow k = 1\<close> gpow_values by (simp only: d_def)
  have "d dvd 255" by (simp add: d_def)
  moreover have "\<not> d dvd 15" "\<not> d dvd 51" "\<not> d dvd 85"
    using gpow_mult [OF d] gpow_values by (auto elim!: dvdE simp: mult.commute simp del: funpow_mult)
  moreover have "list_all (\<lambda>d. d dvd 255 \<longrightarrow> d dvd 15 \<or> d dvd 51 \<or> d dvd 85 \<or> d = 255) [0..<256]"
    by code_simp
  ultimately have "d = 255" using dvd_imp_le [of d 255] by (auto simp: list_all_iff)
  then show ?thesis using gcd_dvd1 [of k 255] by (simp only: d_def)
qed

lemma gpow_inj:
  assumes "gpow a = gpow b" "a < 255" "b < 255"
  shows "a = b"
proof -
  have *: "a = b" if "a \<le> b" "gpow a = gpow b" "a < 255" "b < 255" for a b
  proof -
    have inj: "(g3 ^^ n) x = (g3 ^^ n) y \<Longrightarrow> x = y" for n x y
      by (induction n) (auto simp: g3_inj)
    have "(g3 ^^ a) (gpow (b - a)) = (g3 ^^ a) 1"
      using that(1,2) by (metis comp_apply funpow_add le_add_diff_inverse)
    then have "gpow (b - a) = 1" by (rule inj)
    then have "255 dvd b - a" by (rule gpow_order)
    then show ?thesis using that(1,3,4) by (auto dest: dvd_imp_le)
  qed
  show ?thesis using * [of a b] * [of b a] assms by (cases "a \<le> b") auto
qed

lemma gpow_nonzero: "gpow k \<noteq> 0"
proof (induction k)
  case (Suc k)
  have "g3 (gpow k) \<noteq> g3 0" using Suc by (simp only: g3_inj not_False_eq_True)
  then show ?case unfolding funpow.simps comp_apply by (simp add: g3_def [of 0])
qed simp

lemma gpow_surj:
  assumes "x \<noteq> 0"
  shows "\<exists>k < 255. gpow k = x"
proof -
  have "card (gpow ` {..<255}) = 255"
    using gpow_inj by (subst card_image) (auto intro!: inj_onI)
  moreover have "gpow ` {..<255} \<subseteq> UNIV - {0}" using gpow_nonzero by auto
  moreover have "card (UNIV - {0 :: byte}) = 255" by (simp add: card_Diff_singleton card_word)
  ultimately have "gpow ` {..<255} = UNIV - {0}" by (intro card_subset_eq) auto
  then have "x \<in> gpow ` {..<255}" using assms by simp
  then show ?thesis by auto
qed

section \<open>What the table loops compute\<close>

lemma update_unat:
  "length l = 256 \<Longrightarrow> l[unat a := v] ! unat b = (if a = b then v else l ! unat b)" for a b :: byte
  using byte_lt_256 [of b] by (simp add: nth_list_update word_unat_eq_iff)

lemma pow_log_loop:
  assumes "n \<le> 256"
  shows "\<exists>l. foldl pow_log_step (replicate 256 0, replicate 256 0, 1) [0..<n]
      = (map gpow [0..<n] @ replicate (256 - n) 0, l, gpow n)
    \<and> length l = 256 \<and> (\<forall>i < n. l ! unat (gpow i) < n \<and> gpow (l ! unat (gpow i)) = gpow i)"
  using assms
proof (induction n)
  case (Suc n)
  then obtain l where l: "foldl pow_log_step (replicate 256 0, replicate 256 0, 1) [0..<n]
      = (map gpow [0..<n] @ replicate (256 - n) 0, l, gpow n)"
    "length l = 256" "\<forall>i < n. l ! unat (gpow i) < n \<and> gpow (l ! unat (gpow i)) = gpow i"
    by auto
  have "(map gpow [0..<n] @ replicate (256 - n) 0) [n := gpow n]
      = map gpow [0..<Suc n] @ replicate (256 - Suc n) 0"
  proof -
    have "256 - n = Suc (256 - Suc n)" using Suc.prems by simp
    then show ?thesis by (simp only: list_update_append) simp
  qed
  moreover have "g3 (gpow n) = gpow (Suc n)" by simp
  ultimately have step: "foldl pow_log_step (replicate 256 0, replicate 256 0, 1) [0..<Suc n]
      = (map gpow [0..<Suc n] @ replicate (256 - Suc n) 0, l[unat (gpow n) := n], gpow (Suc n))"
    using l(1) by (simp add: pow_log_step_def g3_def)
  have "\<forall>i < Suc n. l[unat (gpow n) := n] ! unat (gpow i) < Suc n
      \<and> gpow (l[unat (gpow n) := n] ! unat (gpow i)) = gpow i"
  proof (intro allI impI)
    fix i assume "i < Suc n"
    show "l[unat (gpow n) := n] ! unat (gpow i) < Suc n
      \<and> gpow (l[unat (gpow n) := n] ! unat (gpow i)) = gpow i"
    proof (cases "gpow i = gpow n")
      case True
      then show ?thesis unfolding update_unat [OF l(2)] by simp
    next
      case False
      then have "i < n" using \<open>i < Suc n\<close> less_Suc_eq by blast
      then have "l ! unat (gpow i) < n \<and> gpow (l ! unat (gpow i)) = gpow i" using l(3) by blast
      then show ?thesis unfolding update_unat [OF l(2)] using False less_SucI by presburger
    qed
  qed
  then show ?case unfolding step by (intro exI conjI) (rule refl, simp only: l(2) length_list_update)
qed simp

lemma pow_table_nth: "k < 256 \<Longrightarrow> pow_table ! k = gpow k"
  using pow_log_loop [of 256] by (auto simp: pow_table_def pow_log_def nth_append)

lemma log_table_nth:
  assumes "x \<noteq> 0"
  shows "gpow (log_table ! unat x) = x" "log_table ! unat x < 256"
proof -
  obtain k where "k < 255" "gpow k = x" using gpow_surj [OF assms] by auto
  then show "gpow (log_table ! unat x) = x" "log_table ! unat x < 256"
    using pow_log_loop [of 256] by (auto simp: log_table_def pow_log_def)
qed

lemma MUL_gmul: "MUL x y = gmul x y"
proof (cases "x = 0 \<or> y = 0")
  case False
  define a where "a = log_table ! unat x"
  define b where "b = log_table ! unat y"
  have "gpow a = x" "gpow b = y" using False log_table_nth by (auto simp: a_def b_def)
  moreover have "pow_table ! ((a + b) mod 255) = gpow ((a + b) mod 255)"
    using mod_less_divisor [of 255 "a + b"] by (intro pow_table_nth) linarith
  moreover have "gpow ((a + b) mod 255) = gmul (gpow a) (gpow b)"
    using gpow_mod [of 255 "a + b"] gpow_values gpow_add by simp
  ultimately show ?thesis using False by (simp add: MUL_def a_def b_def)
qed (auto simp: MUL_def)

lemma gmul_commute: "gmul x y = gmul y x"
proof (cases "x = 0 \<or> y = 0")
  case False
  then obtain a b where "gpow a = x" "gpow b = y" using gpow_surj by metis
  then show ?thesis using gpow_add [of a b] gpow_add [of b a] by (simp only: add.commute)
qed auto

text \<open>The inverse in the field, 0 for 0 (FIPS-197, 5.1.1), and the affine map.\<close>

definition fips_inverse :: "byte \<Rightarrow> byte" where
  "fips_inverse x =
     (case List.find (\<lambda>y. gmul x y = 1) (map word_of_nat [0..<256]) of None \<Rightarrow> 0 | Some y \<Rightarrow> y)"

definition fips_affine :: "byte \<Rightarrow> byte" where
  "fips_affine b =
     foldl (\<lambda>r i. if odd (length [j \<leftarrow> [i, (i + 4) mod 8, (i + 5) mod 8, (i + 6) mod 8, (i + 7) mod 8]. bit b j])
                 then set_bit i r else r) 0 [0..<8]
     XOR 0x63"

definition fips_sbox :: "byte \<Rightarrow> byte" where
  "fips_sbox b = fips_affine (fips_inverse b)"

lemma gmul_cancel: "x \<noteq> 0 \<Longrightarrow> gmul x y = gmul x z \<Longrightarrow> y = z"
proof -
  assume x: "x \<noteq> 0" and eq: "gmul x y = gmul x z"
  obtain k where k: "gpow k = x" using gpow_surj [OF x] by auto
  have inj: "(g3 ^^ n) u = (g3 ^^ n) v \<Longrightarrow> u = v" for n u v
    by (induction n) (auto simp: g3_inj)
  have "gmul y x = gmul z x" using eq by (simp only: gmul_commute)
  then show "y = z" unfolding k [symmetric] gmul_gpow by (rule inj)
qed

lemma code_inverse:
  assumes "x \<noteq> 0"
  shows "gmul x (pow_table ! (255 - log_table ! unat x)) = 1"
proof -
  define a where "a = log_table ! unat x"
  have a: "gpow a = x" "a < 256" using log_table_nth [OF assms] by (auto simp: a_def)
  then have "pow_table ! (255 - a) = gpow (255 - a)" by (intro pow_table_nth) simp
  then show ?thesis using gpow_add [of a "255 - a"] a gpow_values by (simp add: a_def)
qed

lemma fips_inverse_eq:
  "fips_inverse x = (if x = 0 then 0 else pow_table ! (255 - log_table ! unat x))"
proof -
  define ys :: bytes where "ys = map word_of_nat [0..<256]"
  have all: "y \<in> set ys" for y
    using byte_lt_256 [of y] unfolding ys_def set_map set_upt by (intro image_eqI [of _ _ "unat y"]) auto
  have inv: "fips_inverse x = (case List.find (\<lambda>y. gmul x y = 1) ys of None \<Rightarrow> 0 | Some y \<Rightarrow> y)"
    by (simp only: fips_inverse_def ys_def)
  show ?thesis
  proof (cases "List.find (\<lambda>y. gmul x y = 1) ys")
    case None
    then have "gmul x y \<noteq> 1" for y using all [of y] by (auto simp: find_None_iff)
    then have "x = 0" using code_inverse [of x] by blast
    then show ?thesis unfolding inv None by simp
  next
    case (Some y)
    then have y: "gmul x y = 1" unfolding find_Some_iff by blast
    then have x: "x \<noteq> 0" by auto
    have "gmul x y = gmul x (pow_table ! (255 - log_table ! unat x))"
      using y code_inverse [OF x] by (simp only:)
    then have "y = pow_table ! (255 - log_table ! unat x)" by (rule gmul_cancel [OF x])
    then show ?thesis using Some x by (simp add: inv)
  qed
qed

lemma rot1_bits:
  "bit (rot1 b) 0 = bit b 7" "bit (rot1 b) 1 = bit b 0" "bit (rot1 b) 2 = bit b 1" "bit (rot1 b) 3 = bit b 2"
  "bit (rot1 b) 4 = bit b 3" "bit (rot1 b) 5 = bit b 4" "bit (rot1 b) 6 = bit b 5" "bit (rot1 b) 7 = bit b 6"
  unfolding rot1_def by (auto simp: bit_simps bit_times_2 dest: bit_imp_le_length)

lemma bits_63:
  "\<not> bit (0x63 :: byte) 2" "\<not> bit (0x63 :: byte) 3" "\<not> bit (0x63 :: byte) 4" "\<not> bit (0x63 :: byte) 7"
  "bit (0x63 :: byte) 0" "bit (0x63 :: byte) 1" "bit (0x63 :: byte) 5" "bit (0x63 :: byte) 6"
  by simp_all

lemma sbox_mix_bits:
  assumes "i \<in> {0, 1, 2, 3, 4, 5, 6, 7}"
  shows "bit (sbox_mix b) i \<longleftrightarrow>
    (bit b i \<noteq> (bit b ((i + 4) mod 8) \<noteq> (bit b ((i + 5) mod 8) \<noteq> (bit b ((i + 6) mod 8)
      \<noteq> (bit b ((i + 7) mod 8) \<noteq> bit (0x63 :: byte) i)))))"
  using assms unfolding sbox_mix_def Let_def
  by (elim insertE emptyE) (simp_all only: bit_xor_iff rot1_bits, simp_all, blast+)

lemma odd_filter_bits:
  "odd (length [j \<leftarrow> [i, i4, i5, i6, i7]. bit b j]) \<longleftrightarrow>
    (bit b i \<noteq> (bit b i4 \<noteq> (bit b i5 \<noteq> (bit b i6 \<noteq> bit b i7))))"
  by simp

lemma fips_affine_eq: "fips_affine b = sbox_mix b"
proof -
  have loop: "n \<le> 8 \<Longrightarrow> bit (foldl (\<lambda>r i. if P i then set_bit i r else r) (0 :: byte) [0..<n]) k
      \<longleftrightarrow> k < n \<and> P k" for P n k
    by (induction n) (auto simp: bit_simps less_Suc_eq)
  have upt: "k < 8" if "k \<in> {0, 1, 2, 3, 4, 5, 6, 7 :: nat}" for k using that by auto
  show ?thesis
    unfolding fips_affine_def odd_filter_bits
    by (rule byte_eqI) (simp only: sbox_mix_bits bit_xor_iff loop upt order_refl, blast)
qed

lemma sbox_mix_inj: "sbox_mix x = sbox_mix y \<longleftrightarrow> x = y"
proof
  assume "sbox_mix x = sbox_mix y"
  then have "bit (sbox_mix x) n = bit (sbox_mix y) n" for n by simp
  from this [of 0] this [of 1] this [of 2] this [of 3] this [of 4] this [of 5] this [of 6] this [of 7]
  have "bit x 0 = bit y 0 \<and> bit x 1 = bit y 1 \<and> bit x 2 = bit y 2 \<and> bit x 3 = bit y 3
      \<and> bit x 4 = bit y 4 \<and> bit x 5 = bit y 5 \<and> bit x 6 = bit y 6 \<and> bit x 7 = bit y 7"
    unfolding sbox_mix_def Let_def bit_xor_iff rot1_bits by argo
  then show "x = y" by (intro byte_eqI) auto
qed simp

lemma fips_inverse_inj: "fips_inverse x = fips_inverse y \<Longrightarrow> x = y"
proof -
  have *: "gmul x (fips_inverse x) = (if x = 0 then 0 else 1)" for x
    using code_inverse [of x] by (simp add: fips_inverse_eq)
  assume eq: "fips_inverse x = fips_inverse y"
  show "x = y"
  proof (cases "x = 0 \<or> y = 0")
    case True
    then show ?thesis using * [of x] * [of y] eq by (auto simp: fips_inverse_eq split: if_splits)
  next
    case False
    then have "fips_inverse x \<noteq> 0" using * [of x] by auto
    moreover have "gmul (fips_inverse x) x = gmul (fips_inverse x) y"
      using * [of x] * [of y] False eq by (simp add: gmul_commute)
    ultimately show ?thesis by (rule gmul_cancel)
  qed
qed

lemma fips_sbox_inj: "fips_sbox x = fips_sbox y \<longleftrightarrow> x = y"
  by (auto simp: fips_sbox_def fips_affine_eq sbox_mix_inj dest: fips_inverse_inj)

lemma sbox_loop:
  assumes "1 \<le> n" "n \<le> 256"
  shows "\<exists>fsb rsb. foldl sbox_step ((replicate 256 0)[0 := 0x63], (replicate 256 0)[0x63 := 0]) [1..<n] = (fsb, rsb)
    \<and> length fsb = 256 \<and> length rsb = 256
    \<and> (\<forall>i < n. fsb ! i = fips_sbox (word_of_nat i) \<and> rsb ! unat (fips_sbox (word_of_nat i)) = word_of_nat i)"
  using assms
proof (induction n rule: nat_induct_at_least)
  case base
  have "fips_sbox 0 = 0x63"
    unfolding fips_sbox_def fips_affine_eq by (simp add: fips_inverse_eq sbox_mix_def rot1_def)
  then show ?case by simp
next
  case (Suc n)
  then obtain fsb rsb where l: "foldl sbox_step
        ((replicate 256 0)[0 := 0x63], (replicate 256 0)[0x63 := 0]) [1..<n] = (fsb, rsb)"
      "length fsb = 256" "length rsb = 256"
      "\<forall>i < n. fsb ! i = fips_sbox (word_of_nat i) \<and> rsb ! unat (fips_sbox (word_of_nat i)) = word_of_nat i"
    by auto
  have small: "(word_of_nat i :: byte) = word_of_nat n \<longleftrightarrow> i = n" if "i \<le> n" for i
  proof -
    have "unat (word_of_nat j :: byte) = j" if "j < 256" for j using that by (simp add: unat_of_nat)
    then show ?thesis using that Suc.prems by (metis le_less_trans less_eq_Suc_le)
  qed
  have un: "unat (word_of_nat n :: byte) = n" using Suc.prems by (simp add: unat_of_nat)
  have "(word_of_nat n :: byte) \<noteq> 0" using small [of 0] Suc.hyps by auto
  then have "sbox_mix (pow_table ! (255 - log_table ! n)) = fips_sbox (word_of_nat n)"
    using un by (simp add: fips_sbox_def fips_affine_eq fips_inverse_eq)
  then have step: "foldl sbox_step ((replicate 256 0)[0 := 0x63], (replicate 256 0)[0x63 := 0]) [1..<Suc n]
      = (fsb[n := fips_sbox (word_of_nat n)], rsb[unat (fips_sbox (word_of_nat n)) := word_of_nat n])"
    using l(1) Suc.hyps by (simp add: sbox_step_def Let_def)
  have upd: "fsb[n := fips_sbox (word_of_nat n)] ! i = fips_sbox (word_of_nat i)
      \<and> rsb[unat (fips_sbox (word_of_nat n)) := word_of_nat n] ! unat (fips_sbox (word_of_nat i)) = word_of_nat i"
    if "i < Suc n" for i
    using that l(2,4) Suc.prems small [of i]
    by (cases "i = n") (simp_all add: update_unat [OF l(3)] fips_sbox_inj)
  show ?case using step upd l(2,3) by auto
qed

lemma FSb_eq: "FSb ! unat b = fips_sbox b"
  and RSb_FSb: "RSb ! unat (FSb ! unat b) = b"
proof -
  have "word_of_nat (unat b) = b" by simp
  then show "FSb ! unat b = fips_sbox b" "RSb ! unat (FSb ! unat b) = b"
    using sbox_loop [of 256] byte_lt_256 [of b] by (auto simp: FSb_def RSb_def sboxes_def)
qed

end
