(* ===== verification/Aes_Rounds.thy ===== *)
theory Aes_Rounds
  imports Aes_Field
begin

text \<open>
  The AES rounds over the tables, related to the rounds of FIPS-197 on a state of 16 bytes; the
  key expansion, related to FIPS-197's; and decryption, the inverse of encryption.
\<close>

section \<open>FIPS-197\<close>

text \<open>The state \<open>s[r, c]\<close> is the byte \<open>r + 4c\<close>.\<close>

definition sub_bytes :: "bytes \<Rightarrow> bytes" where
  "sub_bytes s = map fips_sbox s"

definition shift_rows :: "bytes \<Rightarrow> bytes" where
  "shift_rows s = map (\<lambda>k. s ! (k mod 4 + 4 * ((k div 4 + k mod 4) mod 4))) [0..<16]"

definition mix_columns :: "bytes \<Rightarrow> bytes" where
  "mix_columns s = map (\<lambda>k. let r = k mod 4; c = k div 4; a = (\<lambda>i. s ! (4 * c + (r + i) mod 4))
     in gmul 2 (a 0) XOR gmul 3 (a 1) XOR a 2 XOR a 3) [0..<16]"

definition xor_bytes :: "bytes \<Rightarrow> bytes \<Rightarrow> bytes" where
  "xor_bytes s t = map2 (XOR) s t"

text \<open>Words are lists of four bytes; the key of a round is four words.\<close>

definition round_key :: "bytes list \<Rightarrow> nat \<Rightarrow> bytes" where
  "round_key w r = concat (take 4 (drop (4 * r) w))"

definition fips_cipher :: "nat \<Rightarrow> bytes list \<Rightarrow> bytes \<Rightarrow> bytes" where
  "fips_cipher n w s =
     (let s = foldl (\<lambda>s r. xor_bytes (mix_columns (shift_rows (sub_bytes s))) (round_key w r))
                (xor_bytes s (round_key w 0)) [1..<n]
      in xor_bytes (shift_rows (sub_bytes s)) (round_key w n))"

text \<open>Key expansion: word \<open>i\<close> for a key of \<open>nk\<close> words (FIPS-197, 5.2).\<close>

function fips_word :: "bytes \<Rightarrow> nat \<Rightarrow> nat \<Rightarrow> bytes" where
  "fips_word key nk i =
     (if nk = 0 \<or> i < nk then take 4 (drop (4 * i) key)
      else
        (let temp = fips_word key nk (i - 1);
             temp' = (if i mod nk = 0 then
                        xor_bytes (map fips_sbox (rotate1 temp)) [(fips_xtime ^^ (i div nk - 1)) 1, 0, 0, 0]
                      else if nk > 6 \<and> i mod nk = 4 then map fips_sbox temp else temp)
         in xor_bytes (fips_word key nk (i - nk)) temp'))"
  by pat_completeness auto
termination by (relation "measure (\<lambda>(key, nk, i). i)") auto

declare fips_word.simps [simp del]

text \<open>AES for a key of 16, 24 or 32 bytes.\<close>

definition fips_schedule :: "bytes \<Rightarrow> bytes list" where
  "fips_schedule key = map (fips_word key (length key div 4)) [0..<4 * (length key div 4 + 7)]"

definition fips_aes :: "bytes \<Rightarrow> bytes \<Rightarrow> bytes" where
  "fips_aes key b = fips_cipher (length key div 4 + 6) (fips_schedule key) b"

section \<open>Bytes of words\<close>

definition byt :: "nat \<Rightarrow> u32 \<Rightarrow> byte" where
  "byt k w = ucast (drop_bit (8 * k) w)"

definition wbytes :: "u32 \<Rightarrow> bytes" where
  "wbytes w = [byt 0 w, byt 1 w, byt 2 w, byt 3 w]"

lemma bit_byt: "bit (byt k w) n \<longleftrightarrow> n < 8 \<and> bit w (8 * k + n)"
  by (auto simp: byt_def bit_simps)

lemma byt_xor: "byt k (v XOR w) = byt k v XOR byt k w"
  by (rule bit_word_eqI) (auto simp: bit_byt bit_simps)

lemma unat_mask_byte: "unat (drop_bit (8 * k) w AND 0xFF) = unat (byt k w)" for w :: u32
proof -
  have m: "(0xFF :: u32) = mask 8" by (simp add: mask_eq_exp_minus_1)
  have "drop_bit (8 * k) w AND mask 8 = ucast (byt k w)"
    by (rule bit_word_eqI) (auto simp: bit_byt bit_simps)
  moreover have "take_bit 32 (unat (byt k w)) = unat (byt k w)"
    using byte_lt_256 [of "byt k w"] by (simp add: take_bit_eq_mod)
  ultimately show ?thesis by (simp only: m unsigned_ucast_eq) simp
qed

lemma B_eq: "B0 y = unat (byt 0 y)" "B1 y = unat (byt 1 y)" "B2 y = unat (byt 2 y)" "B3 y = unat (byt 3 y)"
  using unat_mask_byte [of 0 y] unat_mask_byte [of 1 y] unat_mask_byte [of 2 y] unat_mask_byte [of 3 y]
  by (simp_all add: B0_def B1_def B2_def B3_def)

lemma PUT_wbytes: "PUT_UINT32_LE n = wbytes n"
proof -
  have m: "(0xFF :: u32) = mask 8" by (simp add: mask_eq_exp_minus_1)
  have "(ucast (drop_bit (8 * k) n AND 0xFF) :: byte) = byt k n" for k
    unfolding m by (rule bit_word_eqI) (auto simp: bit_byt bit_simps)
  from this [of 0] this [of 1] this [of 2] this [of 3] show ?thesis
    by (simp add: PUT_UINT32_LE_def wbytes_def)
qed

text \<open>A word of four bytes.\<close>

lemma byt_word4:
  fixes b0 b1 b2 b3 :: byte
  assumes "w = ucast b0 XOR push_bit 8 (ucast b1) XOR push_bit 16 (ucast b2) XOR push_bit 24 (ucast b3)"
  shows "byt 0 w = b0" "byt 1 w = b1" "byt 2 w = b2" "byt 3 w = b3"
  unfolding assms
  by (rule bit_word_eqI, auto simp: bit_byt bit_simps dest: bit_imp_le_length)+

lemma wbytes_GET: "wbytes (GET_UINT32_LE b i) = [b ! i, b ! (i + 1), b ! (i + 2), b ! (i + 3)]"
  unfolding wbytes_def GET_UINT32_LE_def list.inject
  by (intro conjI bit_word_eqI refl) (auto simp: bit_byt bit_simps dest: bit_imp_le_length)

lemma wbytes_inj: "wbytes v = wbytes w \<longleftrightarrow> v = w"
proof
  assume "wbytes v = wbytes w"
  then have b: "byt k v = byt k w" if "k \<in> {0, 1, 2, 3}" for k using that by (auto simp: wbytes_def)
  show "v = w"
  proof (rule bit_word_eqI)
    fix n :: nat assume "n < LENGTH(32)"
    then have "n div 8 \<in> {0, 1, 2, 3}" by auto
    from b [OF this] have "bit (byt (n div 8) v) (n mod 8) = bit (byt (n div 8) w) (n mod 8)" by simp
    then show "bit v n = bit w n" by (simp add: bit_byt)
  qed
qed simp

lemma byt_ROTL8:
  "byt 0 (ROTL8 x) = byt 3 x" "byt 1 (ROTL8 x) = byt 0 x" "byt 2 (ROTL8 x) = byt 1 x"
  "byt 3 (ROTL8 x) = byt 2 x"
proof -
  have m: "(0xFFFFFFFF :: u32) = mask 32" by (simp add: mask_eq_exp_minus_1)
  show "byt 0 (ROTL8 x) = byt 3 x" "byt 1 (ROTL8 x) = byt 0 x" "byt 2 (ROTL8 x) = byt 1 x"
    "byt 3 (ROTL8 x) = byt 2 x"
    unfolding ROTL8_def m
    by (rule bit_word_eqI, auto simp: bit_byt bit_simps add.commute dest: bit_imp_le_length)+
qed

lemma byt_sbox_word:
  "byt 0 (sbox_word sb i0 i1 i2 i3) = sb ! i0" "byt 1 (sbox_word sb i0 i1 i2 i3) = sb ! i1"
  "byt 2 (sbox_word sb i0 i1 i2 i3) = sb ! i2" "byt 3 (sbox_word sb i0 i1 i2 i3) = sb ! i3"
  by (rule byt_word4, rule sbox_word_def)+

lemma gmul_const:
  "gmul x 2 = XTIME x"
  "gmul x 3 = XTIME x XOR x"
  "gmul x 0x09 = XTIME (XTIME (XTIME x)) XOR x"
  "gmul x 0x0B = XTIME (XTIME (XTIME x)) XOR XTIME x XOR x"
  "gmul x 0x0D = XTIME (XTIME (XTIME x)) XOR XTIME (XTIME x) XOR x"
  "gmul x 0x0E = XTIME (XTIME (XTIME x)) XOR XTIME (XTIME x) XOR XTIME x"
  by (simp_all add: gmul_eq scale_def xor_ac)

lemma gmul_small:
  "gmul 2 x = XTIME x"
  "gmul 3 x = XTIME x XOR x"
  "gmul 0x09 x = XTIME (XTIME (XTIME x)) XOR x"
  "gmul 0x0B x = XTIME (XTIME (XTIME x)) XOR XTIME x XOR x"
  "gmul 0x0D x = XTIME (XTIME (XTIME x)) XOR XTIME (XTIME x) XOR x"
  "gmul 0x0E x = XTIME (XTIME (XTIME x)) XOR XTIME (XTIME x) XOR XTIME x"
  using gmul_const [of x] by (simp_all only: gmul_commute)

lemma length_tables: "length FT0 = 256" "length FT1 = 256" "length FT2 = 256" "length RT0 = 256"
  "length RT1 = 256" "length RT2 = 256"
  by (simp_all add: FT0_def FT1_def FT2_def RT0_def RT1_def RT2_def)

lemma table_nth: "length t = 256 \<Longrightarrow> map f t ! unat (b :: byte) = f (t ! unat b)"
  using byte_lt_256 [of b] by simp

lemma FT0_bytes:
  "byt 0 (FT0 ! unat b) = gmul 2 (fips_sbox b)" "byt 1 (FT0 ! unat b) = fips_sbox b"
  "byt 2 (FT0 ! unat b) = fips_sbox b" "byt 3 (FT0 ! unat b) = gmul 3 (fips_sbox b)"
proof -
  have "FT0 ! unat b = ucast (gmul 2 (fips_sbox b)) XOR push_bit 8 (ucast (fips_sbox b))
      XOR push_bit 16 (ucast (fips_sbox b)) XOR push_bit 24 (ucast (gmul 3 (fips_sbox b)))"
    using byte_lt_256 [of b] by (simp add: FT0_def FSb_eq Let_def gmul_small)
  from byt_word4 [OF this]
  show "byt 0 (FT0 ! unat b) = gmul 2 (fips_sbox b)" "byt 1 (FT0 ! unat b) = fips_sbox b"
    "byt 2 (FT0 ! unat b) = fips_sbox b" "byt 3 (FT0 ! unat b) = gmul 3 (fips_sbox b)" .
qed

lemma RT0_bytes:
  fixes b :: byte
  defines "s \<equiv> RSb ! unat b"
  shows "byt 0 (RT0 ! unat b) = gmul 0x0E s" "byt 1 (RT0 ! unat b) = gmul 0x09 s"
    "byt 2 (RT0 ! unat b) = gmul 0x0D s" "byt 3 (RT0 ! unat b) = gmul 0x0B s"
proof -
  have "RT0 ! unat b = ucast (gmul 0x0E s) XOR push_bit 8 (ucast (gmul 0x09 s))
      XOR push_bit 16 (ucast (gmul 0x0D s)) XOR push_bit 24 (ucast (gmul 0x0B s))"
    using byte_lt_256 [of b] by (simp add: RT0_def MUL_gmul Let_def s_def)
  from byt_word4 [OF this]
  show "byt 0 (RT0 ! unat b) = gmul 0x0E s" "byt 1 (RT0 ! unat b) = gmul 0x09 s"
    "byt 2 (RT0 ! unat b) = gmul 0x0D s" "byt 3 (RT0 ! unat b) = gmul 0x0B s" .
qed

lemma rotated_tables:
  fixes b :: byte
  shows "FT1 ! unat b = ROTL8 (FT0 ! unat b)" "FT2 ! unat b = ROTL8 (FT1 ! unat b)"
    "FT3 ! unat b = ROTL8 (FT2 ! unat b)" "RT1 ! unat b = ROTL8 (RT0 ! unat b)"
    "RT2 ! unat b = ROTL8 (RT1 ! unat b)" "RT3 ! unat b = ROTL8 (RT2 ! unat b)"
  using table_nth [OF length_tables(1), of ROTL8 b] table_nth [OF length_tables(2), of ROTL8 b]
    table_nth [OF length_tables(3), of ROTL8 b] table_nth [OF length_tables(4), of ROTL8 b]
    table_nth [OF length_tables(5), of ROTL8 b] table_nth [OF length_tables(6), of ROTL8 b]
  unfolding FT1_def [symmetric] FT2_def [symmetric] FT3_def [symmetric]
    RT1_def [symmetric] RT2_def [symmetric] RT3_def [symmetric]
  by this

lemmas table_bytes = rotated_tables byt_ROTL8 FT0_bytes RT0_bytes

section \<open>A table round is a FIPS-197 round\<close>

fun qbytes :: "quad \<Rightarrow> bytes" where
  "qbytes (X0, X1, X2, X3) = wbytes X0 @ wbytes X1 @ wbytes X2 @ wbytes X3"

lemma length_qbytes [simp]: "length (qbytes q) = 16"
  by (cases q) (simp add: wbytes_def)

lemma store_block_qbytes: "store_block q = qbytes q"
  by (cases q) (simp add: PUT_wbytes)

lemma upt_16: "[0..<16] = [0, 1, 2, 3, 4, 5, 6, 7, 8, 9, 10, 11, 12, 13, 14, 15]"
  by (simp add: upt_conv_Cons)

definition key_bytes :: "u32 list \<Rightarrow> bytes" where
  "key_bytes k = concat (map wbytes (take 4 k))"

lemma list_4:
  assumes "4 \<le> length k"
  obtains a b c d r where "k = a # b # c # d # r"
  using assms by (auto simp: numeral_eq_Suc Suc_le_length_iff)

lemma AES_FROUND_bytes:
  assumes "4 \<le> length k"
  shows "qbytes (AES_FROUND k q)
    = xor_bytes (mix_columns (shift_rows (sub_bytes (qbytes q)))) (key_bytes k)"
proof -
  obtain X0 X1 X2 X3 where q: "q = (X0, X1, X2, X3)" by (cases q) auto
  obtain a b c d r where k: "k = a # b # c # d # r" using list_4 [OF assms] .
  show ?thesis
    unfolding q k
    by (simp add: xor_bytes_def mix_columns_def shift_rows_def sub_bytes_def upt_16 key_bytes_def
        wbytes_def B_eq byt_xor table_bytes xor_ac del: One_nat_def)
qed

lemma final_fround_bytes:
  assumes "4 \<le> length k"
  shows "qbytes (final_fround k q) = xor_bytes (shift_rows (sub_bytes (qbytes q))) (key_bytes k)"
proof -
  obtain X0 X1 X2 X3 where q: "q = (X0, X1, X2, X3)" by (cases q) auto
  obtain a b c d r where k: "k = a # b # c # d # r" using list_4 [OF assms] .
  show ?thesis
    unfolding q k
    by (simp add: xor_bytes_def shift_rows_def sub_bytes_def upt_16 key_bytes_def
        wbytes_def B_eq byt_xor byt_sbox_word FSb_eq xor_ac del: One_nat_def)
qed

lemma load_block_bytes:
  assumes "4 \<le> length k" "length b = 16"
  shows "qbytes (load_block k b) = xor_bytes b (key_bytes k)"
proof -
  obtain x y z u r where k: "k = x # y # z # u # r" using list_4 [OF assms(1)] .
  have "b = map ((!) b) [0..<16]" using assms(2) map_nth [of b] by simp
  then have b: "b = [b ! 0, b ! 1, b ! 2, b ! 3, b ! 4, b ! 5, b ! 6, b ! 7, b ! 8, b ! 9, b ! 10, b ! 11,
      b ! 12, b ! 13, b ! 14, b ! 15]" by (simp add: upt_16)
  have x: "wbytes (v XOR w) = xor_bytes (wbytes v) (wbytes w)" for v w
    by (simp add: wbytes_def byt_xor xor_bytes_def)
  have "xor_bytes b (key_bytes k) = xor_bytes [b ! 0, b ! 1, b ! 2, b ! 3, b ! 4, b ! 5, b ! 6, b ! 7, b ! 8,
      b ! 9, b ! 10, b ! 11, b ! 12, b ! 13, b ! 14, b ! 15] (key_bytes k)"
    by (rule arg_cong [OF b])
  then show ?thesis
    by (simp add: load_block_def k x wbytes_GET) (simp add: key_bytes_def xor_bytes_def wbytes_def eval_nat_numeral)
qed


section \<open>Encryption\<close>

text \<open>The quad after some rounds, one key of four words each.\<close>

lemma round_loop_eq:
  "round_loop r n k x = (drop (8 * n) k, foldl (\<lambda>x j. r (drop (4 * j) k) x) x [0..<2 * n])"
proof (induction n arbitrary: k x)
  case (Suc n)
  have up: "[0..<2 * Suc n] = 0 # 1 # map (\<lambda>j. j + 2) [0..<2 * n]"
    using map_add_upt [of 2 "2 * n"] by (simp add: upt_conv_Cons numeral_2_eq_2 del: upt_Suc)
  have "drop (4 * j) (drop 8 k) = drop (4 * (j + 2)) k" for j by (simp add: add.commute)
  then show ?case
    by (simp only: round_loop.simps Suc up foldl_Cons foldl_map) (simp add: add.commute)
qed simp

abbreviation key_words :: "u32 list \<Rightarrow> bytes list" where
  "key_words k \<equiv> map wbytes k"

lemma key_bytes_drop: "key_bytes (drop (4 * r) k) = round_key (key_words k) r"
  by (simp add: key_bytes_def round_key_def take_map drop_map)

abbreviation fips_round :: "bytes list \<Rightarrow> bytes \<Rightarrow> nat \<Rightarrow> bytes" where
  "fips_round w s r \<equiv> xor_bytes (mix_columns (shift_rows (sub_bytes s))) (round_key w r)"

lemma round_fold_bytes:
  assumes "4 * (m + n) \<le> length k"
  shows "qbytes (foldl (\<lambda>x j. AES_FROUND (drop (4 * j) (drop (4 * m) k)) x) x [0..<n])
    = foldl (fips_round (key_words k)) (qbytes x) [m..<m + n]"
  using assms
proof (induction n)
  case (Suc n)
  have "drop (4 * n) (drop (4 * m) k) = drop (4 * (m + n)) k" by (simp add: algebra_simps)
  with Suc show ?case
    using key_bytes_drop [of "m + n" k] by (simp add: AES_FROUND_bytes algebra_simps)
qed simp

lemma aes_encrypt_cipher:
  assumes "even (nr ctx)" "2 \<le> nr ctx" "4 * Suc (nr ctx) \<le> length (rk ctx)" "length input = 16"
  shows "aes_encrypt ctx input = fips_cipher (nr ctx) (key_words (rk ctx)) input"
proof -
  define k where "k = rk ctx"
  define m where "m = nr ctx div 2 - 1"
  have nr: "nr ctx = 2 * m + 2" using assms(1,2) unfolding m_def by auto
  have half: "drop_bit 1 (nr ctx) - 1 = m" by (simp add: drop_bit_Suc m_def drop_bit_eq_div)
  have len: "4 * (2 * m + 3) \<le> length k" using assms(3) by (simp add: k_def nr)
  define x where "x = foldl (\<lambda>x j. AES_FROUND (drop (4 * j) (drop 4 k)) x) (load_block k input) [0..<2 * m]"
  have x: "qbytes x = foldl (fips_round (key_words k)) (xor_bytes input (round_key (key_words k) 0)) [1..<1 + 2 * m]"
    using round_fold_bytes [of 1 "2 * m" k] len load_block_bytes [of k input] assms(4) key_bytes_drop [of 0 k]
    by (simp add: x_def)
  have d: "drop (8 * m) (drop 4 k) = drop (4 * (2 * m + 1)) k" "drop 4 (drop (4 * (2 * m + 1)) k) = drop (4 * (2 * m + 2)) k"
    by (simp_all add: algebra_simps)
  have "aes_encrypt ctx input
      = store_block (final_fround (drop (4 * (2 * m + 2)) k) (AES_FROUND (drop (4 * (2 * m + 1)) k) x))"
    unfolding aes_encrypt_def half round_loop_eq k_def [symmetric] x_def [symmetric] prod.case d ..
  also have "\<dots> = xor_bytes (shift_rows (sub_bytes (qbytes (AES_FROUND (drop (4 * (2 * m + 1)) k) x))))
      (round_key (key_words k) (2 * m + 2))"
    unfolding store_block_qbytes key_bytes_drop [symmetric] using len by (intro final_fround_bytes) simp
  also have "qbytes (AES_FROUND (drop (4 * (2 * m + 1)) k) x)
      = fips_round (key_words k) (qbytes x) (2 * m + 1)"
    unfolding key_bytes_drop [symmetric] using len by (intro AES_FROUND_bytes) simp
  finally show ?thesis
    unfolding fips_cipher_def Let_def nr x k_def by simp
qed

lemma length_aes_encrypt [simp]: "length (aes_encrypt ctx b) = 16"
  by (simp add: aes_encrypt_def store_block_qbytes split: prod.splits)

lemma length_aes_decrypt [simp]: "length (aes_decrypt ctx b) = 16"
  by (simp add: aes_decrypt_def store_block_qbytes split: prod.splits)


section \<open>Key expansion\<close>

lemma wbytes_xor: "wbytes (v XOR w) = xor_bytes (wbytes v) (wbytes w)"
  by (simp add: wbytes_def byt_xor xor_bytes_def)

lemma RCON_bytes: "i < 10 \<Longrightarrow> wbytes (RCON ! i) = [(fips_xtime ^^ i) 1, 0, 0, 0]"
proof -
  have "list_all (\<lambda>i. wbytes (RCON ! i) = [(fips_xtime ^^ i) 1, 0, 0, 0]) [0..<10]"
    by code_simp
  then show "i < 10 \<Longrightarrow> ?thesis" by (simp add: list_all_iff)
qed

lemma sub_word_bytes:
  "wbytes (sbox_word FSb (B0 t) (B1 t) (B2 t) (B3 t)) = map fips_sbox (wbytes t)"
  "wbytes (sbox_word FSb (B1 t) (B2 t) (B3 t) (B0 t)) = map fips_sbox (rotate1 (wbytes t))"
  by (simp_all add: wbytes_def byt_sbox_word B_eq FSb_eq del: One_nat_def)

definition expands :: "bytes \<Rightarrow> nat \<Rightarrow> nat \<Rightarrow> u32 list \<Rightarrow> bool" where
  "expands key nk n w \<longleftrightarrow> length w = 68 \<and> (\<forall>i < n. wbytes (w ! i) = fips_word key nk i)"

lemma expands_update:
  "expands key nk n w \<Longrightarrow> n < 68 \<Longrightarrow> wbytes v = fips_word key nk n \<Longrightarrow> expands key nk (Suc n) (w[n := v])"
  by (auto simp: expands_def nth_list_update less_Suc_eq)

lemma expands_plain:
  assumes "expands key nk n w" "n < 68" "n = m + nk" "0 < nk" "m mod nk \<noteq> 0" "\<not> (nk > 6 \<and> m mod nk = 4)"
  shows "expands key nk (Suc n) (w[n := w ! m XOR w ! (n - 1)])"
proof (rule expands_update [OF assms(1,2)])
  have "wbytes (w ! m) = fips_word key nk m" "wbytes (w ! (n - 1)) = fips_word key nk (n - 1)"
    using assms by (auto simp: expands_def)
  then show "wbytes (w ! m XOR w ! (n - 1)) = fips_word key nk n"
    using assms by (subst fips_word.simps) (auto simp: wbytes_xor Let_def)
qed

lemma xor_bytes_4: "xor_bytes (xor_bytes (wbytes a) (wbytes b)) (wbytes c) = xor_bytes (wbytes a) (xor_bytes (wbytes c) (wbytes b))"
  by (simp add: wbytes_def xor_bytes_def xor_ac)

lemma expands_rot:
  assumes "expands key nk n w" "n < 68" "n = m + nk" "0 < nk" "m = nk * i" "i < 10"
  shows "expands key nk (Suc n) (w[n := w ! m XOR RCON ! i
    XOR sbox_word FSb (B1 (w ! (n - 1))) (B2 (w ! (n - 1))) (B3 (w ! (n - 1))) (B0 (w ! (n - 1)))])"
proof (rule expands_update [OF assms(1,2)])
  have w: "wbytes (w ! m) = fips_word key nk m" "wbytes (w ! (n - 1)) = fips_word key nk (n - 1)"
    using assms by (auto simp: expands_def)
  have n: "n mod nk = 0" "n div nk - 1 = i" "\<not> n < nk" using assms(3-5) by auto
  have "fips_word key nk n
      = xor_bytes (wbytes (w ! m)) (xor_bytes (map fips_sbox (rotate1 (wbytes (w ! (n - 1))))) (wbytes (RCON ! i)))"
    using n w assms(3,4,6) by (subst fips_word.simps) (simp add: Let_def RCON_bytes)
  then show "wbytes (w ! m XOR RCON ! i
      XOR sbox_word FSb (B1 (w ! (n - 1))) (B2 (w ! (n - 1))) (B3 (w ! (n - 1))) (B0 (w ! (n - 1)))) = fips_word key nk n"
    by (simp only: wbytes_xor sub_word_bytes [symmetric] xor_bytes_4 xor.assoc [symmetric])
qed

lemma expands_sub:
  assumes "expands key nk n w" "n < 68" "n = m + nk" "6 < nk" "m mod nk = 4"
  shows "expands key nk (Suc n) (w[n := w ! m
    XOR sbox_word FSb (B0 (w ! (n - 1))) (B1 (w ! (n - 1))) (B2 (w ! (n - 1))) (B3 (w ! (n - 1)))])"
proof (rule expands_update [OF assms(1,2)])
  have "wbytes (w ! m) = fips_word key nk m" "wbytes (w ! (n - 1)) = fips_word key nk (n - 1)"
    using assms by (auto simp: expands_def)
  then show "wbytes (w ! m
      XOR sbox_word FSb (B0 (w ! (n - 1))) (B1 (w ! (n - 1))) (B2 (w ! (n - 1))) (B3 (w ! (n - 1)))) = fips_word key nk n"
    using assms by (subst fips_word.simps) (auto simp: wbytes_xor sub_word_bytes Let_def)
qed

text \<open>The passes of the loops as such steps.\<close>

definition rot_step :: "nat \<Rightarrow> u32 list \<Rightarrow> nat \<Rightarrow> nat \<Rightarrow> u32 list" where
  "rot_step nk w i n = w[n := w ! (n - nk) XOR RCON ! i
    XOR sbox_word FSb (B1 (w ! (n - 1))) (B2 (w ! (n - 1))) (B3 (w ! (n - 1))) (B0 (w ! (n - 1)))]"

definition sub_step :: "nat \<Rightarrow> u32 list \<Rightarrow> nat \<Rightarrow> u32 list" where
  "sub_step nk w n = w[n := w ! (n - nk)
    XOR sbox_word FSb (B0 (w ! (n - 1))) (B1 (w ! (n - 1))) (B2 (w ! (n - 1))) (B3 (w ! (n - 1)))]"

definition xor_step :: "nat \<Rightarrow> u32 list \<Rightarrow> nat \<Rightarrow> u32 list" where
  "xor_step nk w n = w[n := w ! (n - nk) XOR w ! (n - 1)]"

lemma expands_xor_steps:
  assumes "expands key nk n w" "n = nk * Suc i + r" "n + c \<le> 68"
    and r: "0 < r" "r + c \<le> nk" "nk \<le> 6 \<or> r + c \<le> 4 \<or> 4 < r"
  shows "expands key nk (n + c) (foldl (xor_step nk) w [n..<n + c])"
  using assms(3) r(2,3)
proof (induction c)
  case (Suc c)
  then have e: "expands key nk (n + c) (foldl (xor_step nk) w [n..<n + c])" by fastforce
  have "n + c - nk = nk * i + (r + c)" using assms(2) by simp
  then have m: "(n + c - nk) mod nk = r + c" using Suc.prems(2) by simp
  have "n + c < 68" "n + c = (n + c - nk) + nk" "0 < nk" using Suc.prems assms(2) r(1) by auto
  then have "expands key nk (Suc (n + c)) (xor_step nk (foldl (xor_step nk) w [n..<n + c]) (n + c))"
    using e r(1) Suc.prems(3) m by (subst xor_step_def) (intro expands_plain, auto)
  then show ?case by simp
qed (use assms(1) in simp)

lemma expand_10_expands:
  assumes "expands key 4 (4 * Suc i) w" "i < 10"
  shows "expands key 4 (4 * Suc (Suc i)) (expand_10 w i)"
proof -
  let ?n = "4 * Suc i"
  have "expands key 4 (Suc ?n) (rot_step 4 w i ?n)"
    unfolding rot_step_def using assms by (intro expands_rot) auto
  then have "expands key 4 (Suc ?n + 3) (foldl (xor_step 4) (rot_step 4 w i ?n) [Suc ?n..<Suc ?n + 3])"
    using assms(2) by (intro expands_xor_steps [where i = i and r = 1]) auto
  moreover have "expand_10 w i = foldl (xor_step 4) (rot_step 4 w i ?n) [Suc ?n..<Suc ?n + 3]"
    by (simp add: expand_10_def rot_step_def xor_step_def Let_def upt_conv_Cons numeral_2_eq_2
        add.commute [of "_ * i"])
  ultimately show ?thesis by (simp add: algebra_simps)
qed

lemma expand_12_expands:
  assumes "expands key 6 (6 * Suc i) w" "i < 8"
  shows "expands key 6 (6 * Suc (Suc i)) (expand_12 w i)"
proof -
  let ?n = "6 * Suc i"
  have "expands key 6 (Suc ?n) (rot_step 6 w i ?n)"
    unfolding rot_step_def using assms by (intro expands_rot) auto
  then have "expands key 6 (Suc ?n + 5) (foldl (xor_step 6) (rot_step 6 w i ?n) [Suc ?n..<Suc ?n + 5])"
    using assms(2) by (intro expands_xor_steps [where i = i and r = 1]) auto
  moreover have "expand_12 w i = foldl (xor_step 6) (rot_step 6 w i ?n) [Suc ?n..<Suc ?n + 5]"
    by (simp add: expand_12_def rot_step_def xor_step_def Let_def upt_conv_Cons numeral_2_eq_2
        add.commute [of "_ * i"])
  ultimately show ?thesis by (simp add: algebra_simps)
qed

lemma expand_14_expands:
  assumes "expands key 8 (8 * Suc i) w" "i < 7"
  shows "expands key 8 (8 * Suc (Suc i)) (expand_14 w i)"
proof -
  let ?n = "8 * Suc i"
  have "expands key 8 (Suc ?n) (rot_step 8 w i ?n)"
    unfolding rot_step_def using assms by (intro expands_rot) auto
  then have "expands key 8 (Suc ?n + 3) (foldl (xor_step 8) (rot_step 8 w i ?n) [Suc ?n..<Suc ?n + 3])"
    using assms(2) by (intro expands_xor_steps [where i = i and r = 1]) auto
  then have "expands key 8 (Suc (Suc ?n + 3))
      (sub_step 8 (foldl (xor_step 8) (rot_step 8 w i ?n) [Suc ?n..<Suc ?n + 3]) (Suc ?n + 3))"
    unfolding sub_step_def using assms(2) by (intro expands_sub) auto
  then have "expands key 8 (Suc (Suc ?n + 3) + 3) (foldl (xor_step 8)
      (sub_step 8 (foldl (xor_step 8) (rot_step 8 w i ?n) [Suc ?n..<Suc ?n + 3]) (Suc ?n + 3))
      [Suc (Suc ?n + 3)..<Suc (Suc ?n + 3) + 3])"
    using assms(2) by (intro expands_xor_steps [where i = i and r = 5]) auto
  moreover have "expand_14 w i = foldl (xor_step 8)
      (sub_step 8 (foldl (xor_step 8) (rot_step 8 w i ?n) [Suc ?n..<Suc ?n + 3]) (Suc ?n + 3))
      [Suc (Suc ?n + 3)..<Suc (Suc ?n + 3) + 3]"
    by (simp add: expand_14_def rot_step_def xor_step_def sub_step_def Let_def upt_conv_Cons numeral_2_eq_2
        add.commute [of "_ * i"])
  ultimately show ?thesis by (simp add: algebra_simps)
qed

lemma load_key_expands:
  assumes "length key = 4 * nk" "nk \<le> 68" "drop_bit 5 keybits = nk"
  shows "expands key nk nk (load_key key keybits)"
proof -
  have "m \<le> nk \<Longrightarrow> expands key nk m (foldl (\<lambda>w i. w[i := GET_UINT32_LE key (4 * i)]) (replicate 68 0) [0..<m])" for m
  proof (induction m)
    case (Suc m)
    have "4 * m + 3 < length key" using Suc.prems assms(1) by simp
    then have "take 4 (drop (4 * m) key) = [key ! (4 * m), key ! (4 * m + 1), key ! (4 * m + 2), key ! (4 * m + 3)]"
      by (simp add: numeral_eq_Suc take_Suc_conv_app_nth)
    then have "wbytes (GET_UINT32_LE key (4 * m)) = fips_word key nk m"
      using Suc.prems by (subst fips_word.simps) (simp add: wbytes_GET)
    then show ?case using Suc assms(2) by (simp add: expands_update)
  qed (simp add: expands_def)
  then show ?thesis by (simp add: load_key_def assms(3))
qed

lemma expands_passes:
  assumes "expands key nk nk w"
    and "\<And>w i. expands key nk (nk * Suc i) w \<Longrightarrow> i < n \<Longrightarrow> expands key nk (nk * Suc (Suc i)) (f w i)"
  shows "expands key nk (nk * Suc n) (foldl f w [0..<n])"
proof -
  have "m \<le> n \<Longrightarrow> expands key nk (nk * Suc m) (foldl f w [0..<m])" for m
    by (induction m) (use assms in simp_all)
  then show ?thesis by simp
qed

definition key_sizes :: "nat set" where
  "key_sizes = {128, 192, 256}"

lemma expands_mono: "expands key nk m w \<Longrightarrow> n \<le> m \<Longrightarrow> expands key nk n w"
  by (auto simp: expands_def)

lemma aes_setkey_enc_schedule:
  assumes "keybits \<in> key_sizes" "length key = keybits div 8"
  obtains ctx where "aes_setkey_enc key keybits = Inr ctx" "nr ctx = length key div 4 + 6"
    "expands key (length key div 4) (4 * (nr ctx + 1)) (rk ctx)"
proof -
  have l: "length key = 4 * (keybits div 32)" "drop_bit 5 keybits = keybits div 32"
    using assms by (auto simp: key_sizes_def drop_bit_eq_div)
  note load = load_key_expands [OF l(1) _ l(2)]
  consider "keybits = 128" | "keybits = 192" | "keybits = 256" using assms(1) by (auto simp: key_sizes_def)
  then show thesis
  proof cases
    case 1
    then have "expands key 4 (4 * Suc 10) (foldl expand_10 (load_key key keybits) [0..<10])"
      using load by (intro expands_passes expand_10_expands) simp_all
    then show thesis using 1 l(1)
      by (intro that [of "\<lparr>nr = 10, rk = foldl expand_10 (load_key key keybits) [0..<10]\<rparr>"])
        (simp_all add: aes_setkey_enc_def Let_def)
  next
    case 2
    then have "expands key 6 (6 * Suc 8) (foldl expand_12 (load_key key keybits) [0..<8])"
      using load by (intro expands_passes expand_12_expands) simp_all
    then show thesis using 2 l(1)
      by (intro that [of "\<lparr>nr = 12, rk = foldl expand_12 (load_key key keybits) [0..<8]\<rparr>"])
        (simp_all add: aes_setkey_enc_def Let_def expands_mono)
  next
    case 3
    then have "expands key 8 (8 * Suc 7) (foldl expand_14 (load_key key keybits) [0..<7])"
      using load by (intro expands_passes expand_14_expands) simp_all
    then show thesis using 3 l(1)
      by (intro that [of "\<lparr>nr = 14, rk = foldl expand_14 (load_key key keybits) [0..<7]\<rparr>"])
        (simp_all add: aes_setkey_enc_def Let_def expands_mono)
  qed
qed

lemma round_key_expands:
  assumes "expands key nk (4 * n) w" "r < n" "4 * n \<le> 68"
  shows "round_key (key_words w) r = round_key (map (fips_word key nk) [0..<4 * n]) r"
proof -
  have t: "take (4 * n) (key_words w) = map (fips_word key nk) [0..<4 * n]"
    using assms(1,3) by (intro nth_equalityI) (auto simp: expands_def)
  have "take 4 (drop (4 * r) (take (4 * n) ws)) = take 4 (drop (4 * r) ws)" for ws :: "bytes list"
    using assms(2) by (simp add: drop_take min_def)
  from this [of "key_words w"] show ?thesis unfolding t round_key_def by simp
qed

lemma fips_cipher_cong:
  assumes "\<And>r. r \<le> n \<Longrightarrow> round_key v r = round_key w r"
  shows "fips_cipher n v s = fips_cipher n w s"
proof -
  have "foldl (fips_round v) x [1..<n] = foldl (fips_round w) x [1..<n]" for x
    by (rule foldl_cong) (use assms in auto)
  then show ?thesis using assms by (simp add: fips_cipher_def Let_def)
qed

lemma aes_encrypt_fips:
  assumes "keybits \<in> key_sizes" "length key = keybits div 8" "length b = 16"
    and "aes_setkey_enc key keybits = Inr ctx"
  shows "aes_encrypt ctx b = fips_aes key b"
proof -
  obtain ctx' where "aes_setkey_enc key keybits = Inr ctx'" "nr ctx' = length key div 4 + 6"
      "expands key (length key div 4) (4 * (nr ctx' + 1)) (rk ctx')"
    using aes_setkey_enc_schedule [OF assms(1,2)] .
  then have nr: "nr ctx = length key div 4 + 6"
    and e: "expands key (length key div 4) (4 * (nr ctx + 1)) (rk ctx)"
    using assms(4) by simp_all
  have n: "even (nr ctx)" "2 \<le> nr ctx" "nr ctx \<le> 14"
    using nr assms(1,2) by (auto simp: key_sizes_def)
  have len: "length (rk ctx) = 68" using e by (simp add: expands_def)
  have "aes_encrypt ctx b = fips_cipher (nr ctx) (key_words (rk ctx)) b"
    using n len assms(3) by (intro aes_encrypt_cipher) auto
  also have "\<dots> = fips_cipher (nr ctx) (fips_schedule key) b"
  proof (rule fips_cipher_cong)
    fix r assume "r \<le> nr ctx"
    then have "round_key (key_words (rk ctx)) r
        = round_key (map (fips_word key (length key div 4)) [0..<4 * (nr ctx + 1)]) r"
      using e n by (intro round_key_expands) auto
    then show "round_key (key_words (rk ctx)) r = round_key (fips_schedule key) r"
      by (simp add: fips_schedule_def nr add.commute)
  qed
  finally show ?thesis by (simp add: fips_aes_def nr)
qed

section \<open>Decryption\<close>

definition inv_sub_bytes :: "bytes \<Rightarrow> bytes" where
  "inv_sub_bytes s = map (\<lambda>b. RSb ! unat b) s"

definition inv_shift_rows :: "bytes \<Rightarrow> bytes" where
  "inv_shift_rows s = map (\<lambda>k. s ! (k mod 4 + 4 * ((k div 4 + 4 - k mod 4) mod 4))) [0..<16]"

definition inv_mix_columns :: "bytes \<Rightarrow> bytes" where
  "inv_mix_columns s = map (\<lambda>k. let r = k mod 4; c = k div 4; a = (\<lambda>i. s ! (4 * c + (r + i) mod 4))
     in gmul 0x0E (a 0) XOR gmul 0x0B (a 1) XOR gmul 0x0D (a 2) XOR gmul 0x09 (a 3)) [0..<16]"

lemma AES_RROUND_bytes:
  assumes "4 \<le> length k"
  shows "qbytes (AES_RROUND k q)
    = xor_bytes (inv_mix_columns (inv_shift_rows (inv_sub_bytes (qbytes q)))) (key_bytes k)"
proof -
  obtain X0 X1 X2 X3 where q: "q = (X0, X1, X2, X3)" by (cases q) auto
  obtain a b c d r where k: "k = a # b # c # d # r" using list_4 [OF assms] .
  show ?thesis
    unfolding q k
    by (simp add: xor_bytes_def inv_mix_columns_def inv_shift_rows_def inv_sub_bytes_def upt_16 key_bytes_def
        wbytes_def B_eq byt_xor table_bytes xor_ac del: One_nat_def)
qed

lemma final_rround_bytes:
  assumes "4 \<le> length k"
  shows "qbytes (final_rround k q) = xor_bytes (inv_shift_rows (inv_sub_bytes (qbytes q))) (key_bytes k)"
proof -
  obtain X0 X1 X2 X3 where q: "q = (X0, X1, X2, X3)" by (cases q) auto
  obtain a b c d r where k: "k = a # b # c # d # r" using list_4 [OF assms] .
  show ?thesis
    unfolding q k
    by (simp add: xor_bytes_def inv_shift_rows_def inv_sub_bytes_def upt_16 key_bytes_def
        wbytes_def B_eq byt_xor byt_sbox_word xor_ac del: One_nat_def)
qed

lemma list_16:
  assumes "length s = 16"
  obtains a b c d e f g h i j k l m n p q where "s = [a, b, c, d, e, f, g, h, i, j, k, l, m, n, p, q]"
  using assms by (auto simp: numeral_eq_Suc length_Suc_conv)

lemma inv_shift_sub: "length s = 16 \<Longrightarrow> inv_shift_rows (inv_sub_bytes (shift_rows (sub_bytes s))) = s"
  by (erule list_16)
    (simp add: inv_shift_rows_def inv_sub_bytes_def shift_rows_def sub_bytes_def upt_16
      RSb_FSb [unfolded FSb_eq])

lemma mix_cancel:
  fixes a b c d :: byte
  shows "gmul 0x0E (gmul 2 a XOR gmul 3 b XOR c XOR d) XOR gmul 0x0B (gmul 2 b XOR gmul 3 c XOR d XOR a)
     XOR gmul 0x0D (gmul 2 c XOR gmul 3 d XOR a XOR b) XOR gmul 0x09 (gmul 2 d XOR gmul 3 a XOR b XOR c) = a"
  by (simp add: gmul_small XTIME_xor xor_ac)

lemma inv_mix: "length s = 16 \<Longrightarrow> inv_mix_columns (mix_columns s) = s"
  by (erule list_16) (simp add: inv_mix_columns_def mix_columns_def upt_16 mix_cancel)

lemma inv_mix_xor:
  "length s = 16 \<Longrightarrow> length t = 16 \<Longrightarrow>
    inv_mix_columns (xor_bytes s t) = xor_bytes (inv_mix_columns s) (inv_mix_columns t)"
  by (erule list_16, erule list_16)
    (simp add: inv_mix_columns_def xor_bytes_def upt_16 gmul_xor xor_ac)

text \<open>The rounds of decryption undo the rounds of encryption, last key first.\<close>

definition enc_round :: "bytes \<Rightarrow> bytes \<Rightarrow> bytes" where
  "enc_round s k = xor_bytes (mix_columns (shift_rows (sub_bytes s))) k"

definition dec_round :: "bytes \<Rightarrow> bytes \<Rightarrow> bytes" where
  "dec_round s k = xor_bytes (inv_mix_columns (inv_shift_rows (inv_sub_bytes s))) k"

lemma length_state [simp]:
  "length (shift_rows s) = 16" "length (mix_columns s) = 16" "length (inv_mix_columns s) = 16"
  "length (inv_shift_rows s) = 16" "length (sub_bytes s) = length s"
  "length (xor_bytes s t) = min (length s) (length t)"
  by (simp_all add: shift_rows_def mix_columns_def inv_mix_columns_def inv_shift_rows_def
      sub_bytes_def xor_bytes_def)

lemma xor_bytes_cancel: "length s = length t \<Longrightarrow> xor_bytes (xor_bytes s t) t = s"
  by (rule nth_equalityI) (auto simp: xor_bytes_def xor_ac)

lemma enc_rounds_length: "length s = 16 \<Longrightarrow> \<forall>k \<in> set ks. length k = 16 \<Longrightarrow> length (foldl enc_round s ks) = 16"
  by (induction ks arbitrary: s) (auto simp: enc_round_def)

lemma dec_enc_rounds:
  assumes "length s = 16" "\<forall>k \<in> set ks. length k = 16"
  shows "foldl dec_round (shift_rows (sub_bytes (foldl enc_round s ks))) (map inv_mix_columns (rev ks))
    = shift_rows (sub_bytes s)"
  using assms(2)
proof (induction ks rule: rev_induct)
  case (snoc k ks)
  define u where "u = foldl enc_round s ks"
  have u: "length u = 16" using snoc.prems assms(1) by (simp add: u_def enc_rounds_length)
  have "dec_round (shift_rows (sub_bytes (enc_round u k))) (inv_mix_columns k)
      = inv_mix_columns (xor_bytes (enc_round u k) k)"
    using u snoc.prems by (simp add: dec_round_def inv_shift_sub enc_round_def inv_mix_xor)
  also have "\<dots> = shift_rows (sub_bytes u)"
    using u snoc.prems by (simp add: enc_round_def xor_bytes_cancel inv_mix)
  finally show ?case using snoc by (simp add: u_def)
qed simp

text \<open>The keys the decryption context holds.\<close>

lemma inv_key_words:
  assumes "length k = 4"
  shows "concat (map wbytes (map inv_key_word k)) = inv_mix_columns (concat (map wbytes k))"
proof -
  obtain a b c d where "k = [a, b, c, d]" using assms by (auto simp: numeral_eq_Suc length_Suc_conv)
  then show ?thesis
    by (simp add: inv_mix_columns_def upt_16 wbytes_def inv_key_word_def byt_xor table_bytes RSb_FSb B_eq xor_ac
        del: One_nat_def)
qed

lemma inv_key_loop_keys:
  "4 * Suc n \<le> length w \<Longrightarrow> length (inv_key_loop n w) = 4 * Suc n
    \<and> (\<forall>j \<le> n. key_bytes (drop (4 * j) (inv_key_loop n w))
        = (if j = n then key_bytes w else inv_mix_columns (key_bytes (drop (4 * (n - j)) w))))"
proof (induction n)
  case (Suc n)
  let ?k = "take 4 (drop (4 * Suc n) w)"
  have k: "length ?k = 4" "length (map inv_key_word ?k) = 4" using Suc.prems by auto
  have IH: "length (inv_key_loop n w) = 4 * Suc n"
      "\<And>i. i \<le> n \<Longrightarrow> key_bytes (drop (4 * i) (inv_key_loop n w))
        = (if i = n then key_bytes w else inv_mix_columns (key_bytes (drop (4 * (n - i)) w)))"
    using Suc by auto
  have "key_bytes (drop (4 * j) (inv_key_loop (Suc n) w))
      = (if j = Suc n then key_bytes w else inv_mix_columns (key_bytes (drop (4 * (Suc n - j)) w)))"
    if "j \<le> Suc n" for j
  proof (cases j)
    case 0
    have "key_bytes (inv_key_loop (Suc n) w) = concat (map wbytes (map inv_key_word ?k))"
      using k by (simp add: key_bytes_def)
    then show ?thesis using 0 inv_key_words [OF k(1)] by (simp add: key_bytes_def)
  next
    case (Suc i)
    have "drop (4 * Suc i) (map inv_key_word ?k @ inv_key_loop n w) = drop (4 * i) (inv_key_loop n w)"
      using k(2) by (simp del: drop_map)
    then show ?thesis using IH(2) [of i] Suc that by simp
  qed
  then show ?case using IH(1) k(2) by simp
qed (simp add: key_bytes_def)

text \<open>Encryption and decryption as folds over the keys.\<close>

lemma enc_fold:
  "foldl (\<lambda>s r. enc_round s (round_key w r)) s rs = foldl enc_round s (map (round_key w) rs)"
  by (simp add: foldl_map)

lemma aes_decrypt_fold:
  assumes "even (nr ctx)" "2 \<le> nr ctx" "4 * Suc (nr ctx) \<le> length (rk ctx)" "length input = 16"
  shows "aes_decrypt ctx input =
    (let ks = map (\<lambda>r. key_bytes (drop (4 * r) (rk ctx))) [1..<nr ctx];
         s = foldl dec_round (xor_bytes input (key_bytes (rk ctx))) ks
     in xor_bytes (inv_shift_rows (inv_sub_bytes s)) (key_bytes (drop (4 * nr ctx) (rk ctx))))"
proof -
  define k where "k = rk ctx"
  define m where "m = nr ctx div 2 - 1"
  have nr: "nr ctx = 2 * m + 2" using assms(1,2) unfolding m_def by auto
  have half: "drop_bit 1 (nr ctx) - 1 = m" by (simp add: drop_bit_Suc m_def drop_bit_eq_div)
  have len: "4 * (2 * m + 3) \<le> length k" using assms(3) by (simp add: k_def nr)
  define x where "x = foldl (\<lambda>x j. AES_RROUND (drop (4 * j) (drop 4 k)) x) (load_block k input) [0..<2 * m]"
  have rounds: "4 * Suc n \<le> length k \<Longrightarrow>
      qbytes (foldl (\<lambda>x j. AES_RROUND (drop (4 * j) (drop 4 k)) x) x [0..<n])
      = foldl dec_round (qbytes x) (map (\<lambda>r. key_bytes (drop (4 * r) k)) [1..<Suc n])" for x n
    by (induction n) (simp_all add: AES_RROUND_bytes dec_round_def add.commute [of 4])
  have x: "qbytes x = foldl dec_round (xor_bytes input (key_bytes k)) (map (\<lambda>r. key_bytes (drop (4 * r) k)) [1..<Suc (2 * m)])"
    using rounds [of "2 * m"] len load_block_bytes [of k input] assms(4) by (simp add: x_def)
  have d: "drop (8 * m) (drop 4 k) = drop (4 * (2 * m + 1)) k" "drop 4 (drop (4 * (2 * m + 1)) k) = drop (4 * (2 * m + 2)) k"
    by (simp_all add: algebra_simps)
  have "aes_decrypt ctx input
      = store_block (final_rround (drop (4 * (2 * m + 2)) k) (AES_RROUND (drop (4 * (2 * m + 1)) k) x))"
    unfolding aes_decrypt_def half round_loop_eq k_def [symmetric] x_def [symmetric] prod.case d ..
  also have "\<dots> = xor_bytes (inv_shift_rows (inv_sub_bytes (qbytes (AES_RROUND (drop (4 * (2 * m + 1)) k) x))))
      (key_bytes (drop (4 * (2 * m + 2)) k))"
    unfolding store_block_qbytes using len by (intro final_rround_bytes) simp
  also have "qbytes (AES_RROUND (drop (4 * (2 * m + 1)) k) x)
      = dec_round (qbytes x) (key_bytes (drop (4 * (2 * m + 1)) k))"
    unfolding dec_round_def using len by (intro AES_RROUND_bytes) simp
  finally show ?thesis
    unfolding Let_def nr x k_def by simp
qed

lemma key_bytes_take: "key_bytes (take 4 w @ v) = key_bytes w" if "4 \<le> length w"
  using that by (simp add: key_bytes_def)

lemma key_bytes_append: "4 * Suc r \<le> length w \<Longrightarrow> key_bytes (drop (4 * r) (w @ v)) = key_bytes (drop (4 * r) w)"
  by (simp add: key_bytes_def)

lemma length_key_bytes: "4 \<le> length k \<Longrightarrow> length (key_bytes k) = 16"
  by (erule list_4) (simp add: key_bytes_def wbytes_def)

lemma setkey_dec_keys:
  assumes "aes_setkey_enc key keybits = Inr ectx" "2 \<le> nr ectx" "4 * Suc (nr ectx) \<le> length (rk ectx)"
    "nr ectx \<le> 16"
  obtains dctx where "aes_setkey_dec key keybits = Inr dctx" "nr dctx = nr ectx" "length (rk dctx) = 68"
    "\<And>r. r \<le> nr ectx \<Longrightarrow> key_bytes (drop (4 * r) (rk dctx)) =
      (if r = 0 \<or> r = nr ectx then key_bytes (drop (4 * (nr ectx - r)) (rk ectx))
       else inv_mix_columns (key_bytes (drop (4 * (nr ectx - r)) (rk ectx))))"
proof -
  define n where "n = nr ectx"
  define w where "w = rk ectx"
  define l where "l = inv_key_loop (n - 1) w"
  define ks where "ks = take 4 (drop (4 * n) w) @ l"
  have n: "2 \<le> n" "n \<le> 16" "4 * Suc n \<le> length w" using assms by (simp_all add: n_def w_def)
  then have len: "length l = 4 * n" and l: "\<And>j. j < n \<Longrightarrow> key_bytes (drop (4 * j) l)
      = (if j = n - 1 then key_bytes w else inv_mix_columns (key_bytes (drop (4 * (n - 1 - j)) w)))"
    using inv_key_loop_keys [of "n - 1" w] unfolding l_def by auto
  have lks: "length ks = 4 * Suc n" using n len by (simp add: ks_def)
  have keys: "key_bytes (drop (4 * r) (ks @ zs)) =
      (if r = 0 \<or> r = n then key_bytes (drop (4 * (n - r)) w)
       else inv_mix_columns (key_bytes (drop (4 * (n - r)) w)))" if "r \<le> n" for r zs
  proof (cases r)
    case 0
    then show ?thesis using n by (simp add: ks_def key_bytes_take)
  next
    case (Suc j)
    have "drop (4 * r) ks = drop (4 * j) l" using n Suc by (simp add: ks_def)
    moreover have "key_bytes (drop (4 * r) (ks @ zs)) = key_bytes (drop (4 * r) ks)"
      using that lks by (intro key_bytes_append) simp
    ultimately show ?thesis using l [of j] that Suc by auto
  qed
  have "aes_setkey_dec key keybits = Inr \<lparr>nr = n, rk = ks @ drop (length ks) (replicate 68 0)\<rparr>"
    using assms(1) by (simp add: aes_setkey_dec_def Let_def n_def w_def l_def ks_def)
  moreover have "length (ks @ drop (length ks) (replicate 68 (0 :: u32))) = 68" using lks n by simp
  ultimately show thesis
    using keys by (intro that [of "\<lparr>nr = n, rk = ks @ drop (length ks) (replicate 68 0)\<rparr>"])
      (simp_all only: aes_context.simps n_def w_def)
qed

lemma rev_upt: "rev [1..<n] = map (\<lambda>r. n - r) [1..<n]"
  by (rule nth_equalityI) (auto simp: rev_nth)

lemma aes_decrypt_encrypt:
  assumes "keybits \<in> key_sizes" "length key = keybits div 8" "length b = 16"
  shows "\<exists>ectx dctx. aes_setkey_enc key keybits = Inr ectx \<and> aes_setkey_dec key keybits = Inr dctx
    \<and> aes_decrypt dctx (aes_encrypt ectx b) = b"
proof -
  obtain ectx where e: "aes_setkey_enc key keybits = Inr ectx" "nr ectx = length key div 4 + 6"
      "expands key (length key div 4) (4 * (nr ectx + 1)) (rk ectx)"
    using aes_setkey_enc_schedule [OF assms(1,2)] .
  define n where "n = nr ectx"
  define w where "w = rk ectx"
  have n: "even n" "2 \<le> n" "n \<le> 14" using e(2) assms(1,2) by (auto simp: key_sizes_def n_def)
  have len: "length w = 68" using e(3) by (simp add: expands_def w_def)
  obtain dctx where d: "aes_setkey_dec key keybits = Inr dctx" "nr dctx = n" "length (rk dctx) = 68"
    "\<And>r. r \<le> n \<Longrightarrow> key_bytes (drop (4 * r) (rk dctx)) =
      (if r = 0 \<or> r = n then key_bytes (drop (4 * (n - r)) w)
       else inv_mix_columns (key_bytes (drop (4 * (n - r)) w)))"
    using setkey_dec_keys [OF e(1)] n len unfolding n_def [symmetric] w_def [symmetric] by auto
  define k where "k r = key_bytes (drop (4 * r) w)" for r
  have k: "round_key (key_words w) r = k r" for r by (simp add: k_def key_bytes_drop)
  have lk: "r \<le> n \<Longrightarrow> length (k r) = 16" for r using len n by (simp add: k_def length_key_bytes)
  define s0 where "s0 = xor_bytes b (k 0)"
  define s where "s = foldl enc_round s0 (map k [1..<n])"
  have ls: "length s0 = 16" "length s = 16"
    using lk assms(3) by (auto simp: s0_def s_def intro!: enc_rounds_length)
  have enc: "aes_encrypt ectx b = xor_bytes (shift_rows (sub_bytes s)) (k n)"
    using aes_encrypt_cipher [of ectx b] n len assms(3)
    by (simp add: fips_cipher_def Let_def n_def [symmetric] w_def [symmetric] k s_def s0_def
        enc_round_def [symmetric] foldl_map)
  have ks: "map (\<lambda>r. key_bytes (drop (4 * r) (rk dctx))) [1..<n] = map inv_mix_columns (rev (map k [1..<n]))"
    unfolding rev_map rev_upt using d(4) by (auto simp: k_def)
  have "foldl dec_round (shift_rows (sub_bytes s)) (map inv_mix_columns (rev (map k [1..<n]))) = shift_rows (sub_bytes s0)"
    unfolding s_def using ls(1) lk by (intro dec_enc_rounds) auto
  moreover have "xor_bytes (xor_bytes (shift_rows (sub_bytes s)) (k n)) (k n) = shift_rows (sub_bytes s)"
    using lk by (intro xor_bytes_cancel) simp
  moreover have "key_bytes (rk dctx) = k n" "key_bytes (drop (4 * n) (rk dctx)) = k 0"
    using d(4) [of 0] d(4) [of n] n by (simp_all add: k_def)
  ultimately have "aes_decrypt dctx (aes_encrypt ectx b) = xor_bytes (inv_shift_rows (inv_sub_bytes (shift_rows (sub_bytes s0)))) (k 0)"
    using aes_decrypt_fold [of dctx "aes_encrypt ectx b"] d(2,3) n ks lk [of n]
    by (simp add: Let_def enc del: rev_map)
  also have "\<dots> = b" using ls lk [of 0] assms(3) by (simp add: inv_shift_sub s0_def xor_bytes_cancel)
  finally show ?thesis using e(1) d(1) by blast
qed

section \<open>Properties\<close>

text \<open>C30: AES is FIPS-197.  For a key of 128, 192 or 256 bits, key setup succeeds and
  \<open>mbedtls_aes_encrypt\<close>, with the tables \<open>aes_gen_tables\<close> computes, is the cipher of
  FIPS-197 under the key schedule of FIPS-197: its S-box is the affine map of the inverse in
  GF(2^8), found by search, and its rounds are SubBytes, ShiftRows, MixColumns and AddRoundKey on
  the 16-byte state.  Any other key size is refused with the error of the header file.\<close>

theorem aes_is_fips197:
  assumes "length key = keybits div 8" and "length b = 16"
  shows "(case aes_setkey_enc key keybits of
      Inl e \<Rightarrow> keybits \<notin> {128, 192, 256} \<and> e = ERR_AES_INVALID_KEY_LENGTH
    | Inr ctx \<Rightarrow> keybits \<in> {128, 192, 256} \<and> aes_encrypt ctx b = fips_aes key b)"
proof (cases "keybits \<in> {128, 192, 256}")
  case True
  then have k: "keybits \<in> key_sizes" by (simp add: key_sizes_def)
  obtain ctx where "aes_setkey_enc key keybits = Inr ctx"
    using aes_setkey_enc_schedule [OF k assms(1)] by blast
  then show ?thesis using True aes_encrypt_fips [OF k assms] by simp
next
  case False
  then show ?thesis by (simp add: aes_setkey_enc_def Let_def)
qed

theorem aes_is_fips197_witness:
  "case aes_setkey_enc (replicate 16 7) 128 of
     Inl e \<Rightarrow> False
   | Inr ctx \<Rightarrow> aes_encrypt ctx (replicate 16 3) = fips_aes (replicate 16 7) (replicate 16 3)"
  using aes_is_fips197 [where key = "replicate 16 7" and keybits = 128 and b = "replicate 16 3"]
  by (cases "aes_setkey_enc (replicate 16 7) 128") simp_all

text \<open>C31: AES decryption.  For a key of 128, 192 or 256 bits, decrypting with the context
  \<open>mbedtls_aes_setkey_dec\<close> makes what was encrypted with the context of
  \<open>mbedtls_aes_setkey_enc\<close> gives the block back: the reverse S-box inverts the generated one, and
  the decryption keys are the encryption keys in reverse order with the inverse column mix, which the
  code computes by looking S-box entries up in the reverse tables.\<close>

theorem aes_decrypt_inverts:
  assumes "keybits \<in> {128, 192, 256}" and "length key = keybits div 8" and "length b = 16"
  shows "\<exists>ectx dctx. aes_setkey_enc key keybits = Inr ectx \<and> aes_setkey_dec key keybits = Inr dctx
    \<and> aes_crypt_ecb dctx AES_DECRYPT (aes_crypt_ecb ectx AES_ENCRYPT b) = b"
  using aes_decrypt_encrypt [of keybits key b] assms by (simp add: aes_crypt_ecb_def key_sizes_def)

theorem aes_decrypt_inverts_witness:
  "\<exists>ectx dctx. aes_setkey_enc (replicate 32 9) 256 = Inr ectx \<and> aes_setkey_dec (replicate 32 9) 256 = Inr dctx
    \<and> aes_crypt_ecb dctx AES_DECRYPT (aes_crypt_ecb ectx AES_ENCRYPT (replicate 16 5)) = replicate 16 5"
  using aes_decrypt_inverts [where keybits = 256 and key = "replicate 32 9" and b = "replicate 16 5"]
  by simp

end
