(* ===== verification/Aes_Modes.thy ===== *)
theory Aes_Modes
  imports Aes_Rounds
begin

text \<open>
  The modes of \<open>library/aes.c\<close>: CBC, CFB128, CFB8 and CTR, with the initialisation vector, the offset
  into it and the stream block as explicit state.  The round trips are proved once for any block
  cipher, in the locale \<open>block_cipher\<close>, and hold for AES by its interpretation.
\<close>

section \<open>Model\<close>

text \<open>Each loop takes the block function of the context: \<open>mbedtls_aes_crypt_ecb(ctx, mode, ...)\<close>.\<close>

definition xor_iv :: "bytes \<Rightarrow> bytes \<Rightarrow> bytes" where
  "xor_iv a b = map (\<lambda>i. a ! i XOR b ! i) [0..<16]"

function cbc_decrypt_loop :: "(bytes \<Rightarrow> bytes) \<Rightarrow> bytes \<Rightarrow> bytes \<Rightarrow> bytes \<Rightarrow> bytes \<times> bytes" where
  "cbc_decrypt_loop ecb iv input outp =
     (if input = [] then (iv, outp)
      else cbc_decrypt_loop ecb (take 16 input) (drop 16 input)
             (outp @ xor_iv (ecb (take 16 input)) iv))"
  by pat_completeness auto
termination by (relation "measure (\<lambda>(ecb, iv, input, outp). length input)") auto

function cbc_encrypt_loop :: "(bytes \<Rightarrow> bytes) \<Rightarrow> bytes \<Rightarrow> bytes \<Rightarrow> bytes \<Rightarrow> bytes \<times> bytes" where
  "cbc_encrypt_loop ecb iv input outp =
     (if input = [] then (iv, outp)
      else (let c = ecb (xor_iv (take 16 input) iv)
            in cbc_encrypt_loop ecb c (drop 16 input) (outp @ c)))"
  by pat_completeness auto
termination by (relation "measure (\<lambda>(ecb, iv, input, outp). length input)") auto

declare cbc_decrypt_loop.simps [simp del] cbc_encrypt_loop.simps [simp del]

text \<open>The new \<open>iv\<close> and the outp; the two buffers do not overlap.\<close>

definition aes_crypt_cbc :: "aes_context \<Rightarrow> aes_mode \<Rightarrow> bytes \<Rightarrow> bytes \<Rightarrow> int + bytes \<times> bytes" where
  "aes_crypt_cbc ctx mode iv input =
     (if length input mod 16 \<noteq> 0 then Inl ERR_AES_INVALID_INPUT_LENGTH
      else if mode = AES_DECRYPT then Inr (cbc_decrypt_loop (aes_crypt_ecb ctx mode) iv input [])
      else Inr (cbc_encrypt_loop (aes_crypt_ecb ctx mode) iv input []))"

text \<open>CFB128: the loops carry the offset \<open>n\<close> into \<open>iv\<close>.\<close>

fun cfb128_decrypt_loop :: "(bytes \<Rightarrow> bytes) \<Rightarrow> nat \<Rightarrow> bytes \<Rightarrow> bytes \<Rightarrow> nat \<times> bytes \<times> bytes" where
  "cfb128_decrypt_loop ecb n iv [] = (n, iv, [])"
| "cfb128_decrypt_loop ecb n iv (c # input) =
     (let iv = (if n = 0 then ecb iv else iv)
      in case cfb128_decrypt_loop ecb (n + 1 AND 0x0F) (iv[n := c]) input of
           (n', iv', outp) \<Rightarrow> (n', iv', (c XOR iv ! n) # outp))"

fun cfb128_encrypt_loop :: "(bytes \<Rightarrow> bytes) \<Rightarrow> nat \<Rightarrow> bytes \<Rightarrow> bytes \<Rightarrow> nat \<times> bytes \<times> bytes" where
  "cfb128_encrypt_loop ecb n iv [] = (n, iv, [])"
| "cfb128_encrypt_loop ecb n iv (p # input) =
     (let iv = (if n = 0 then ecb iv else iv);
          c = iv ! n XOR p
      in case cfb128_encrypt_loop ecb (n + 1 AND 0x0F) (iv[n := c]) input of
           (n', iv', outp) \<Rightarrow> (n', iv', c # outp))"

definition aes_crypt_cfb128 ::
  "aes_context \<Rightarrow> aes_mode \<Rightarrow> nat \<Rightarrow> bytes \<Rightarrow> bytes \<Rightarrow> nat \<times> bytes \<times> bytes" where
  "aes_crypt_cfb128 ctx mode iv_off iv input =
     (if mode = AES_DECRYPT then cfb128_decrypt_loop (aes_crypt_ecb ctx AES_ENCRYPT) iv_off iv input
      else cfb128_encrypt_loop (aes_crypt_ecb ctx AES_ENCRYPT) iv_off iv input)"

text \<open>CFB8: \<open>ov\<close> is the old \<open>iv\<close> and the byte of ciphertext.\<close>

fun cfb8_loop :: "(bytes \<Rightarrow> bytes) \<Rightarrow> aes_mode \<Rightarrow> bytes \<Rightarrow> bytes \<Rightarrow> bytes \<times> bytes" where
  "cfb8_loop ecb mode iv [] = (iv, [])"
| "cfb8_loop ecb mode iv (p # input) =
     (let c = ecb iv ! 0 XOR p;
          ov = iv @ [if mode = AES_DECRYPT then p else c]
      in case cfb8_loop ecb mode (take 16 (drop 1 ov)) input of
           (iv', outp) \<Rightarrow> (iv', c # outp))"

definition aes_crypt_cfb8 :: "aes_context \<Rightarrow> aes_mode \<Rightarrow> bytes \<Rightarrow> bytes \<Rightarrow> bytes \<times> bytes" where
  "aes_crypt_cfb8 ctx mode iv input = cfb8_loop (aes_crypt_ecb ctx AES_ENCRYPT) mode iv input"

text \<open>CTR: the counter is incremented from its last byte on.\<close>

fun ctr_increment :: "nat \<Rightarrow> bytes \<Rightarrow> bytes" where
  "ctr_increment 0 y = y"
| "ctr_increment (Suc i) y =
     (let y' = y[i := y ! i + 1] in if y' ! i \<noteq> 0 then y' else ctr_increment i y')"

fun ctr_loop :: "(bytes \<Rightarrow> bytes) \<Rightarrow> nat \<Rightarrow> bytes \<Rightarrow> bytes \<Rightarrow> bytes \<Rightarrow> nat \<times> bytes \<times> bytes \<times> bytes" where
  "ctr_loop ecb n counter block [] = (n, counter, block, [])"
| "ctr_loop ecb n counter block (c # input) =
     (let (counter, block) = (if n = 0 then (ctr_increment 16 counter, ecb counter) else (counter, block))
      in case ctr_loop ecb (n + 1 AND 0x0F) counter block input of
           (n', counter', block', outp) \<Rightarrow> (n', counter', block', (c XOR block ! n) # outp))"

definition aes_crypt_ctr ::
  "aes_context \<Rightarrow> nat \<Rightarrow> bytes \<Rightarrow> bytes \<Rightarrow> bytes \<Rightarrow> nat \<times> bytes \<times> bytes \<times> bytes" where
  "aes_crypt_ctr ctx nc_off nonce_counter stream_block input =
     ctr_loop (aes_crypt_ecb ctx AES_ENCRYPT) nc_off nonce_counter stream_block input"

section \<open>Modes over any block cipher\<close>

text \<open>The stream modes use the cipher in one direction only, as any function.\<close>

locale stream_cipher =
  fixes E :: "bytes \<Rightarrow> bytes"
begin

theorem cfb128_roundtrip:
  "cfb128_encrypt_loop E n iv input = (n', iv', outp) \<Longrightarrow>
    cfb128_decrypt_loop E n iv outp = (n', iv', input)"
  by (induction input arbitrary: n iv outp) (auto simp: Let_def xor_ac split: prod.splits)

theorem cfb8_roundtrip:
  "cfb8_loop E AES_ENCRYPT iv input = (iv', outp) \<Longrightarrow> cfb8_loop E AES_DECRYPT iv outp = (iv', input)"
  by (induction input arbitrary: iv outp) (auto simp: Let_def xor_ac split: prod.splits)

theorem ctr_involution:
  "ctr_loop E n counter block input = (n', counter', block', outp) \<Longrightarrow>
    ctr_loop E n counter block outp = (n', counter', block', input)"
  by (induction input arbitrary: n counter block outp)
    (auto simp: Let_def xor_ac split: prod.splits if_splits)

text \<open>A stream may be cut anywhere: the state left by the first part continues with the second.\<close>

theorem ctr_append:
  "ctr_loop E n counter block (xs @ ys) =
    (case ctr_loop E n counter block xs of
       (n, counter, block, out) \<Rightarrow>
         (case ctr_loop E n counter block ys of (n, counter, block, out') \<Rightarrow> (n, counter, block, out @ out')))"
  by (induction xs arbitrary: n counter block) (auto simp: Let_def split: prod.splits)

end

text \<open>CBC needs the inverse.\<close>

locale block_cipher = stream_cipher E for E :: "bytes \<Rightarrow> bytes" +
  fixes D :: "bytes \<Rightarrow> bytes"
  assumes length_E: "length (E b) = 16"
    and length_D: "length (D b) = 16"
    and D_E: "length b = 16 \<Longrightarrow> D (E b) = b"
begin

lemma length_xor_iv: "length (xor_iv a b) = 16"
  by (simp add: xor_iv_def)

lemma xor_iv_cancel: "length a = 16 \<Longrightarrow> xor_iv (xor_iv a b) b = a"
  by (rule nth_equalityI) (auto simp: xor_iv_def xor_ac)

text \<open>The loops append to their output.\<close>

lemma cbc_encrypt_output:
  "cbc_encrypt_loop E iv input outp
    = (fst (cbc_encrypt_loop E iv input []), outp @ snd (cbc_encrypt_loop E iv input []))"
proof (induction "length input" arbitrary: input iv outp rule: less_induct)
  case less
  show ?case
  proof (cases "input = []")
    case False
    let ?c = "E (xor_iv (take 16 input) iv)"
    have "length (drop 16 input) < length input" using False by simp
    from less [OF this, of ?c "outp @ ?c"] less [OF this, of ?c ?c]
    show ?thesis using False
      by (subst (1 2 3) cbc_encrypt_loop.simps) (simp add: Let_def)
  qed (simp add: cbc_encrypt_loop.simps)
qed

lemma cbc_encrypt_length:
  "length input mod 16 = 0 \<Longrightarrow> length (snd (cbc_encrypt_loop E iv input [])) = length input"
proof (induction "length input" arbitrary: input iv rule: less_induct)
  case less
  show ?case
  proof (cases "input = []")
    case False
    define c where "c = E (xor_iv (take 16 input) iv)"
    have in16: "16 \<le> length input" using False less.prems by (cases "length input < 16") auto
    then have "length (snd (cbc_encrypt_loop E c (drop 16 input) [])) = length input - 16"
      using less(1) [of "drop 16 input" c] less.prems False by (simp add: le_mod_geq)
    moreover have "snd (cbc_encrypt_loop E iv input []) = c @ snd (cbc_encrypt_loop E c (drop 16 input) [])"
      using False cbc_encrypt_output [of c "drop 16 input" c]
      by (subst cbc_encrypt_loop.simps) (simp add: Let_def c_def)
    ultimately show ?thesis using in16 length_E by (simp add: c_def)
  qed (simp add: cbc_encrypt_loop.simps)
qed

theorem cbc_roundtrip:
  assumes "length iv = 16" "length input mod 16 = 0"
  shows "cbc_decrypt_loop D iv (snd (cbc_encrypt_loop E iv input [])) outp
    = (fst (cbc_encrypt_loop E iv input []), outp @ input)"
  using assms
proof (induction "length input" arbitrary: input iv outp rule: less_induct)
  case less
  show ?case
  proof (cases "input = []")
    case True
    then show ?thesis by (simp add: cbc_encrypt_loop.simps cbc_decrypt_loop.simps)
  next
    case False
    define p where "p = take 16 input"
    define rest where "rest = drop 16 input"
    define c where "c = E (xor_iv p iv)"
    have in16: "16 \<le> length input" using False less.prems(2) by (cases "length input < 16") auto
    have p: "length p = 16" "input = p @ rest" using in16 by (auto simp: p_def rest_def)
    have c: "length c = 16" by (simp add: c_def length_E)
    have enc: "cbc_encrypt_loop E iv input [] = (fst (cbc_encrypt_loop E c rest []), c @ snd (cbc_encrypt_loop E c rest []))"
      using False cbc_encrypt_output [of c rest c]
      by (subst cbc_encrypt_loop.simps) (simp add: Let_def c_def p_def rest_def)
    have dec: "cbc_decrypt_loop D iv (c @ x) outp = cbc_decrypt_loop D c x (outp @ p)" for x
      using c p by (subst cbc_decrypt_loop.simps) (auto simp: c_def D_E length_xor_iv xor_iv_cancel)
    have "length rest < length input" "length rest mod 16 = 0"
      using False less.prems(2) in16 by (auto simp: rest_def le_mod_geq)
    from less(1) [OF this(1) c this(2), of "outp @ p"] show ?thesis
      unfolding enc snd_conv fst_conv dec using p(2) by simp
  qed
qed

end

section \<open>AES is a block cipher\<close>

text \<open>The keys of an accepted size, and the two contexts the code sets up for one.\<close>

typedef aes_key = "{k :: bytes. 8 * length k \<in> {128, 192, 256}}"
  by (rule exI [of _ "replicate 16 0"]) simp

definition enc_context :: "aes_key \<Rightarrow> aes_context" where
  "enc_context k = projr (aes_setkey_enc (Rep_aes_key k) (8 * length (Rep_aes_key k)))"

definition dec_context :: "aes_key \<Rightarrow> aes_context" where
  "dec_context k = projr (aes_setkey_dec (Rep_aes_key k) (8 * length (Rep_aes_key k)))"

interpretation aes: block_cipher
  "aes_crypt_ecb (enc_context k) AES_ENCRYPT" "aes_crypt_ecb (dec_context k) AES_DECRYPT" for k
proof
  fix b :: bytes
  show "length (aes_crypt_ecb (enc_context k) AES_ENCRYPT b) = 16"
    "length (aes_crypt_ecb (dec_context k) AES_DECRYPT b) = 16"
    by (simp_all add: aes_crypt_ecb_def)
  assume "length b = 16"
  then show "aes_crypt_ecb (dec_context k) AES_DECRYPT (aes_crypt_ecb (enc_context k) AES_ENCRYPT b) = b"
    using Rep_aes_key [of k] aes_decrypt_encrypt [of "8 * length (Rep_aes_key k)" "Rep_aes_key k" b]
    by (auto simp: aes_crypt_ecb_def enc_context_def dec_context_def key_sizes_def)
qed

lemma keyed_contexts:
  assumes "keybits \<in> {128, 192, 256}" "length key = keybits div 8"
    and "aes_setkey_enc key keybits = Inr e" "aes_setkey_dec key keybits = Inr d"
  obtains k where "e = enc_context k" "d = dec_context k"
proof -
  have "8 * length key = keybits" using assms(1,2) by auto
  then have "Rep_aes_key (Abs_aes_key key) = key" using assms(1) by (intro Abs_aes_key_inverse) auto
  then have "e = enc_context (Abs_aes_key key)" "d = dec_context (Abs_aes_key key)"
    using assms \<open>8 * length key = keybits\<close> by (simp_all add: enc_context_def dec_context_def)
  then show thesis by (rule that)
qed

interpretation aes_stream: stream_cipher "aes_crypt_ecb ctx AES_ENCRYPT" for ctx .

text \<open>CBC round trip.  With the contexts the code sets up for a key of an accepted size,
  \<open>mbedtls_aes_crypt_cbc\<close> encrypts every input of whole blocks, and decrypting the result from the
  same initialisation vector gives the input and leaves the same vector; an input that is not of
  whole blocks is refused in both directions.\<close>

theorem aes_cbc_roundtrip:
  assumes "keybits \<in> {128, 192, 256}" and "length key = keybits div 8" and "length iv = 16"
    and "aes_setkey_enc key keybits = Inr e" and "aes_setkey_dec key keybits = Inr d"
  shows "(case aes_crypt_cbc e AES_ENCRYPT iv input of
      Inl err \<Rightarrow> length input mod 16 \<noteq> 0 \<and> aes_crypt_cbc d AES_DECRYPT iv input = Inl err
    | Inr (iv', cipher) \<Rightarrow> length cipher = length input \<and> aes_crypt_cbc d AES_DECRYPT iv cipher = Inr (iv', input))"
proof -
  obtain k where k: "e = enc_context k" "d = dec_context k"
    using keyed_contexts [OF assms(1,2,4,5)] .
  show ?thesis
    using aes.cbc_roundtrip [OF assms(3), of input k "[]"] aes.cbc_encrypt_length [of input k iv]
    by (cases "length input mod 16 = 0") (auto simp: aes_crypt_cbc_def k split: prod.splits)
qed

theorem aes_cbc_roundtrip_witness:
  "\<exists>e d. aes_setkey_enc (replicate 16 1) 128 = Inr e \<and> aes_setkey_dec (replicate 16 1) 128 = Inr d
    \<and> (case aes_crypt_cbc e AES_ENCRYPT (replicate 16 2) (replicate 32 3) of
         Inl err \<Rightarrow> False
       | Inr (iv', cipher) \<Rightarrow> aes_crypt_cbc d AES_DECRYPT (replicate 16 2) cipher = Inr (iv', replicate 32 3))"
proof -
  obtain e d where ed: "aes_setkey_enc (replicate 16 1) 128 = Inr e" "aes_setkey_dec (replicate 16 1) 128 = Inr d"
    using aes_decrypt_encrypt [of 128 "replicate 16 1" "replicate 16 0"] by (auto simp: key_sizes_def)
  have "case aes_crypt_cbc e AES_ENCRYPT (replicate 16 2) (replicate 32 3) of
         Inl err \<Rightarrow> length (replicate 32 (3 :: byte)) mod 16 \<noteq> 0 \<and> aes_crypt_cbc d AES_DECRYPT (replicate 16 2) (replicate 32 3) = Inl err
       | Inr (iv', cipher) \<Rightarrow> length cipher = length (replicate 32 (3 :: byte))
           \<and> aes_crypt_cbc d AES_DECRYPT (replicate 16 2) cipher = Inr (iv', replicate 32 3)"
    using aes_cbc_roundtrip [where keybits = 128 and key = "replicate 16 1" and iv = "replicate 16 2"
        and input = "replicate 32 3" and e = e and d = d] ed by simp
  then have "case aes_crypt_cbc e AES_ENCRYPT (replicate 16 2) (replicate 32 3) of
         Inl err \<Rightarrow> False
       | Inr (iv', cipher) \<Rightarrow> aes_crypt_cbc d AES_DECRYPT (replicate 16 2) cipher = Inr (iv', replicate 32 3)"
    by (cases "aes_crypt_cbc e AES_ENCRYPT (replicate 16 2) (replicate 32 3)") (auto)
  then show ?thesis using ed by blast
qed

text \<open>C32: Stream modes.  In CFB128 and CFB8, decrypting what was encrypted from the same vector and offset
  gives the input and the same final state; in CTR, processing the output from the same counter
  gives the input, and a stream may be processed in two calls at any cut, the second call continuing
  with the offset, counter and stream block the first one left.  This holds for every context.\<close>

theorem aes_stream_modes:
  "(case aes_crypt_cfb128 ctx AES_ENCRYPT n iv input of
      (n', iv', cipher) \<Rightarrow> aes_crypt_cfb128 ctx AES_DECRYPT n iv cipher = (n', iv', input))
   \<and> (case aes_crypt_cfb8 ctx AES_ENCRYPT iv input of
      (iv', cipher) \<Rightarrow> aes_crypt_cfb8 ctx AES_DECRYPT iv cipher = (iv', input))
   \<and> (case aes_crypt_ctr ctx n counter block input of
      (n', counter', block', cipher) \<Rightarrow> aes_crypt_ctr ctx n counter block cipher = (n', counter', block', input))
   \<and> aes_crypt_ctr ctx n counter block (xs @ ys) =
      (case aes_crypt_ctr ctx n counter block xs of
         (n, counter, block, out) \<Rightarrow>
           (case aes_crypt_ctr ctx n counter block ys of
              (n, counter, block, out') \<Rightarrow> (n, counter, block, out @ out')))"
  unfolding aes_crypt_cfb128_def aes_crypt_cfb8_def aes_crypt_ctr_def
proof (intro conjI)
  show "case if AES_ENCRYPT = AES_DECRYPT then cfb128_decrypt_loop (aes_crypt_ecb ctx AES_ENCRYPT) n iv input
      else cfb128_encrypt_loop (aes_crypt_ecb ctx AES_ENCRYPT) n iv input of
      (n', iv', cipher) \<Rightarrow> (if AES_DECRYPT = AES_DECRYPT then cfb128_decrypt_loop (aes_crypt_ecb ctx AES_ENCRYPT) n iv cipher
        else cfb128_encrypt_loop (aes_crypt_ecb ctx AES_ENCRYPT) n iv cipher) = (n', iv', input)"
    by (auto dest: aes_stream.cfb128_roundtrip split: prod.split)
qed (auto dest: aes_stream.cfb8_roundtrip aes_stream.ctr_involution split: prod.split
    simp only: aes_stream.ctr_append)

end
