(* ===== verification/Gcm.thy ===== *)
theory Gcm
  imports Aes_Modes
begin

text \<open>
  Galois/counter mode (\<open>library/gcm.c\<close>) over AES, with the ECB path of the generic cipher layer
  (\<open>library/cipher.c\<close>) it calls.  The multiplication in GF(2^128) uses the table of sixteen
  multiples of the hash key that \<open>gcm_gen_table\<close> precomputes.  Buffers of input and output do not
  overlap in the calls of the enclave.
\<close>

section \<open>Contexts\<close>

record gcm_context =
  cipher_ctx :: aes_context
  HL :: "u64 list"
  HH :: "u64 list"
  gcm_len :: u64
  add_len :: u64
  base_ectr :: bytes
  gcm_y :: bytes
  gcm_buf :: bytes
  gcm_mode :: aes_mode

definition ERR_GCM_AUTH_FAILED :: int where
  "ERR_GCM_AUTH_FAILED = - 0x0012"

definition ERR_GCM_BAD_INPUT :: int where
  "ERR_GCM_BAD_INPUT = - 0x0014"

definition ERR_CIPHER_FULL_BLOCK_EXPECTED :: int where
  "ERR_CIPHER_FULL_BLOCK_EXPECTED = - 0x6280"

text \<open>\<open>mbedtls_cipher_update\<close> in ECB mode, on a context set up for encryption.\<close>

definition cipher_update :: "aes_context \<Rightarrow> bytes \<Rightarrow> int + bytes" where
  "cipher_update ctx input =
     (if length input \<noteq> 16 then Inl ERR_CIPHER_FULL_BLOCK_EXPECTED
      else Inr (aes_crypt_ecb ctx AES_ENCRYPT input))"

definition GET_UINT32_BE :: "bytes \<Rightarrow> nat \<Rightarrow> u64" where
  "GET_UINT32_BE b i =
     push_bit 24 (ucast (b ! i)) OR push_bit 16 (ucast (b ! (i + 1))) OR push_bit 8 (ucast (b ! (i + 2)))
     OR ucast (b ! (i + 3))"

definition PUT_UINT32_BE :: "u64 \<Rightarrow> bytes" where
  "PUT_UINT32_BE n = [ucast (drop_bit 24 n), ucast (drop_bit 16 n), ucast (drop_bit 8 n), ucast n]"

section \<open>The table of multiples of the hash key\<close>

text \<open>One pass of the loop over \<open>i = 4, 2, 1\<close>: \<open>vl\<close>, \<open>vh\<close> are shifted and reduced.\<close>

definition shift_step :: "(u64 \<times> u64) \<times> u64 list \<times> u64 list \<Rightarrow> nat \<Rightarrow> (u64 \<times> u64) \<times> u64 list \<times> u64 list" where
  "shift_step s i = (case s of ((vh, vl), hh, hl) \<Rightarrow>
     (let T = (if bit vl 0 then 0xe1000000 else 0) :: u64;
          vl' = push_bit 63 vh OR drop_bit 1 vl;
          vh' = drop_bit 1 vh XOR push_bit 32 T
      in ((vh', vl'), hh[i := vh'], hl[i := vl'])))"

text \<open>The inner loop over \<open>j\<close> for one \<open>i\<close>: the sums of the multiples.\<close>

definition sum_step :: "u64 list \<times> u64 list \<Rightarrow> nat \<Rightarrow> u64 list \<times> u64 list" where
  "sum_step s i = (case s of (hh, hl) \<Rightarrow>
     (let vh = hh ! i; vl = hl ! i
      in foldl (\<lambda>(hh, hl) j. (hh[i + j := vh XOR hh ! j], hl[i + j := vl XOR hl ! j])) (hh, hl) [1..<i]))"

definition gcm_tables :: "u64 \<Rightarrow> u64 \<Rightarrow> u64 list \<times> u64 list" where
  "gcm_tables vh vl =
     (let hl = (replicate 16 0)[8 := vl]; hh = (replicate 16 0)[8 := vh];
          hh = hh[0 := 0]; hl = hl[0 := 0];
          (v, hh, hl) = foldl shift_step ((vh, vl), hh, hl) [4, 2, 1]
      in foldl sum_step (hh, hl) [2, 4, 8])"

definition gcm_gen_table :: "aes_context \<Rightarrow> int + u64 list \<times> u64 list" where
  "gcm_gen_table ctx =
     (case cipher_update ctx (replicate 16 0) of
        Inl e \<Rightarrow> Inl e
      | Inr h \<Rightarrow>
          (let vh = push_bit 32 (GET_UINT32_BE h 0) OR GET_UINT32_BE h 4;
               vl = push_bit 32 (GET_UINT32_BE h 8) OR GET_UINT32_BE h 12
           in Inr (gcm_tables vh vl)))"

text \<open>
  \<open>mbedtls_gcm_setkey\<close> on an initialised context: the cipher layer knows AES in ECB mode for the three
  key sizes only.
\<close>

definition gcm_setkey :: "bytes \<Rightarrow> nat \<Rightarrow> int + gcm_context" where
  "gcm_setkey key keybits =
     (if keybits \<notin> {128, 192, 256} then Inl ERR_GCM_BAD_INPUT
      else case aes_setkey_enc key keybits of
             Inl e \<Rightarrow> Inl e
           | Inr ctx \<Rightarrow>
               (case gcm_gen_table ctx of
                  Inl e \<Rightarrow> Inl e
                | Inr (hh, hl) \<Rightarrow>
                    Inr \<lparr>cipher_ctx = ctx, HL = hl, HH = hh, gcm_len = 0, add_len = 0, base_ectr = replicate 16 0,
                         gcm_y = replicate 16 0, gcm_buf = replicate 16 0, gcm_mode = AES_DECRYPT\<rparr>))"

section \<open>Multiplication\<close>

definition last4 :: "u64 list" where
  "last4 = [0x0000, 0x1c20, 0x3840, 0x2460, 0x7080, 0x6ca0, 0x48c0, 0x54e0,
            0xe100, 0xfd20, 0xd940, 0xc560, 0x9180, 0x8da0, 0xa9c0, 0xb5e0]"

text \<open>Shift by a nibble, reduce with \<open>last4\<close> and add the multiple for the next nibble.\<close>

definition nibble_step :: "gcm_context \<Rightarrow> nat \<Rightarrow> u64 \<times> u64 \<Rightarrow> u64 \<times> u64" where
  "nibble_step ctx n z = (case z of (zh, zl) \<Rightarrow>
     (let rem = unat (zl AND 0xf);
          zl = push_bit 60 zh OR drop_bit 4 zl;
          zh = drop_bit 4 zh;
          zh = zh XOR push_bit 48 (last4 ! rem)
      in (zh XOR HH ctx ! n, zl XOR HL ctx ! n)))"

definition gcm_mult_step :: "gcm_context \<Rightarrow> bytes \<Rightarrow> u64 \<times> u64 \<Rightarrow> nat \<Rightarrow> u64 \<times> u64" where
  "gcm_mult_step ctx x z i =
     (let lo = unat (x ! i AND 0xf); hi = unat (drop_bit 4 (x ! i));
          z = (if i \<noteq> 15 then nibble_step ctx lo z else z)
      in nibble_step ctx hi z)"

definition gcm_mult :: "gcm_context \<Rightarrow> bytes \<Rightarrow> bytes" where
  "gcm_mult ctx x =
     (let lo = unat (x ! 15 AND 0xf)
      in case foldl (gcm_mult_step ctx x) (HH ctx ! lo, HL ctx ! lo) (rev [0..<16]) of
           (zh, zl) \<Rightarrow> PUT_UINT32_BE (drop_bit 32 zh) @ PUT_UINT32_BE zh
                       @ PUT_UINT32_BE (drop_bit 32 zl) @ PUT_UINT32_BE zl)"

section \<open>Authenticated encryption\<close>

text \<open>XOR at most sixteen bytes into a block.\<close>

definition xor_into :: "bytes \<Rightarrow> bytes \<Rightarrow> bytes" where
  "xor_into y p = map (\<lambda>i. if i < length p then y ! i XOR p ! i else y ! i) [0..<16]"

text \<open>The loops over the initialisation vector and the additional data.\<close>

function gcm_absorb :: "gcm_context \<Rightarrow> bytes \<Rightarrow> bytes \<Rightarrow> bytes" where
  "gcm_absorb ctx y p =
     (if p = [] then y else gcm_absorb ctx (gcm_mult ctx (xor_into y (take 16 p))) (drop 16 p))"
  by pat_completeness auto
termination by (relation "measure (\<lambda>(ctx, y, p). length p)") auto

declare gcm_absorb.simps [simp del]

definition gcm_starts :: "gcm_context \<Rightarrow> aes_mode \<Rightarrow> bytes \<Rightarrow> bytes \<Rightarrow> int + gcm_context" where
  "gcm_starts ctx mode iv add =
     (if drop_bit 61 (length iv) \<noteq> 0 \<or> drop_bit 61 (length add) \<noteq> 0 then Inl ERR_GCM_BAD_INPUT
      else
        (let ctx = ctx\<lparr>gcm_mode := mode, gcm_len := 0, add_len := 0\<rparr>;
             y = (if length iv = 12 then (iv @ replicate 4 0)[15 := 1]
                  else
                    (let work_buf = replicate 12 0 @ PUT_UINT32_BE (word_of_nat (length iv * 8))
                     in gcm_mult ctx (xor_into (gcm_absorb ctx (replicate 16 0) iv) work_buf)))
         in case cipher_update (cipher_ctx ctx) y of
              Inl e \<Rightarrow> Inl e
            | Inr ectr \<Rightarrow>
                Inr (ctx\<lparr>gcm_y := y, base_ectr := ectr, add_len := word_of_nat (length add),
                         gcm_buf := gcm_absorb ctx (replicate 16 0) add\<rparr>)))"

text \<open>The counter: the last four bytes, from the last one on.\<close>

fun gcm_increment :: "nat \<Rightarrow> bytes \<Rightarrow> bytes" where
  "gcm_increment 0 y = y"
| "gcm_increment (Suc i) y =
     (let y' = y[12 + i := y ! (12 + i) + 1]
      in if y' ! (12 + i) \<noteq> 0 then y' else gcm_increment i y')"

function gcm_update_loop :: "gcm_context \<Rightarrow> bytes \<Rightarrow> bytes \<Rightarrow> int + gcm_context \<times> bytes" where
  "gcm_update_loop ctx p outp =
     (if p = [] then Inr (ctx, outp)
      else
        (let blk = take 16 p; y = gcm_increment 4 (gcm_y ctx)
         in case cipher_update (cipher_ctx ctx) y of
              Inl e \<Rightarrow> Inl e
            | Inr ectr \<Rightarrow>
                (let blk' = map2 (XOR) (take (length blk) ectr) blk;
                     buf = xor_into (gcm_buf ctx) (if gcm_mode ctx = AES_DECRYPT then blk else blk')
                 in gcm_update_loop (ctx\<lparr>gcm_y := y, gcm_buf := gcm_mult ctx buf\<rparr>) (drop 16 p) (outp @ blk'))))"
  by pat_completeness auto
termination by (relation "measure (\<lambda>(ctx, p, outp). length p)") auto

declare gcm_update_loop.simps [simp del]

definition gcm_update :: "gcm_context \<Rightarrow> bytes \<Rightarrow> int + gcm_context \<times> bytes" where
  "gcm_update ctx input =
     (let len = word_of_nat (length input) :: u64
      in if gcm_len ctx + len < gcm_len ctx \<or> gcm_len ctx + len > 0xFFFFFFFE0 then Inl ERR_GCM_BAD_INPUT
         else gcm_update_loop (ctx\<lparr>gcm_len := gcm_len ctx + len\<rparr>) input [])"

definition gcm_finish :: "gcm_context \<Rightarrow> nat \<Rightarrow> int + bytes" where
  "gcm_finish ctx tag_len =
     (let orig_len = gcm_len ctx * 8; orig_add_len = add_len ctx * 8
      in if tag_len > 16 \<or> tag_len < 4 then Inl ERR_GCM_BAD_INPUT
         else
           (let tag = take tag_len (base_ectr ctx)
            in if orig_len \<noteq> 0 \<or> orig_add_len \<noteq> 0 then
                 (let work_buf = PUT_UINT32_BE (drop_bit 32 orig_add_len) @ PUT_UINT32_BE orig_add_len
                        @ PUT_UINT32_BE (drop_bit 32 orig_len) @ PUT_UINT32_BE orig_len;
                      buf = gcm_mult ctx (xor_into (gcm_buf ctx) work_buf)
                  in Inr (map2 (XOR) tag (take tag_len buf)))
               else Inr tag))"

text \<open>The output and the tag.\<close>

definition gcm_crypt_and_tag ::
  "gcm_context \<Rightarrow> aes_mode \<Rightarrow> bytes \<Rightarrow> bytes \<Rightarrow> bytes \<Rightarrow> nat \<Rightarrow> int + bytes \<times> bytes" where
  "gcm_crypt_and_tag ctx mode iv add input tag_len =
     (case gcm_starts ctx mode iv add of
        Inl e \<Rightarrow> Inl e
      | Inr ctx \<Rightarrow>
          (case gcm_update ctx input of
             Inl e \<Rightarrow> Inl e
           | Inr (ctx, outp) \<Rightarrow>
               (case gcm_finish ctx tag_len of
                  Inl e \<Rightarrow> Inl e
                | Inr tag \<Rightarrow> Inr (outp, tag))))"

text \<open>
  The plaintext; on a wrong tag the output buffer is zeroed and the error returned.  The tag has
  \<open>tag_len\<close> bytes.
\<close>

definition gcm_auth_decrypt ::
  "gcm_context \<Rightarrow> bytes \<Rightarrow> bytes \<Rightarrow> bytes \<Rightarrow> nat \<Rightarrow> bytes \<Rightarrow> int + bytes" where
  "gcm_auth_decrypt ctx iv add tag tag_len input =
     (case gcm_crypt_and_tag ctx AES_DECRYPT iv add input tag_len of
        Inl e \<Rightarrow> Inl e
      | Inr (outp, check_tag) \<Rightarrow>
          (let diff = foldl (\<lambda>d i. d OR (tag ! i XOR check_tag ! i)) 0 [0..<tag_len]
           in if diff \<noteq> 0 then Inl ERR_GCM_AUTH_FAILED else Inr outp))"

end
