(* ===== verification/Gcm_Aead.thy ===== *)
theory Gcm_Aead
  imports Gcm
begin

text \<open>
  What GCM promises whatever the block cipher and the multiplication are: decryption accepts exactly what
  encryption produces under the same key, vector and additional data, and returns its input.
\<close>

section \<open>The two directions\<close>

fun other_mode :: "aes_mode \<Rightarrow> aes_mode" where
  "other_mode AES_ENCRYPT = AES_DECRYPT"
| "other_mode AES_DECRYPT = AES_ENCRYPT"

abbreviation flip :: "gcm_context \<Rightarrow> gcm_context" where
  "flip ctx \<equiv> ctx\<lparr>gcm_mode := other_mode (gcm_mode ctx)\<rparr>"

lemma other_other [simp]: "other_mode (other_mode m) = m"
  by (cases m) auto

lemma flip_flip [simp]: "flip (flip ctx) = ctx"
  by simp

text \<open>The multiplication and the loops read the tables of the context only.\<close>

lemma gcm_mult_cong:
  "HH ctx' = HH ctx \<Longrightarrow> HL ctx' = HL ctx \<Longrightarrow> gcm_mult ctx' x = gcm_mult ctx x"
proof -
  assume "HH ctx' = HH ctx" "HL ctx' = HL ctx"
  then have "nibble_step ctx' = nibble_step ctx" by (intro ext) (simp add: nibble_step_def)
  then have "gcm_mult_step ctx' x = gcm_mult_step ctx x" by (intro ext) (simp add: gcm_mult_step_def)
  then show ?thesis
    using \<open>HH ctx' = HH ctx\<close> \<open>HL ctx' = HL ctx\<close> by (simp add: gcm_mult_def)
qed

lemma gcm_absorb_cong:
  "HH ctx' = HH ctx \<Longrightarrow> HL ctx' = HL ctx \<Longrightarrow> gcm_absorb ctx' y p = gcm_absorb ctx y p"
proof (induction ctx y p rule: gcm_absorb.induct)
  case (1 ctx y p)
  then show ?case
    using gcm_mult_cong [OF 1(2,3)] by (subst (1 2) gcm_absorb.simps) simp
qed

lemma length_gcm_mult [simp]: "length (gcm_mult ctx x) = 16"
  by (simp add: gcm_mult_def PUT_UINT32_BE_def Let_def split: prod.splits)

lemma length_xor_into [simp]: "length (xor_into y p) = 16"
  by (simp add: xor_into_def)

lemma length_gcm_absorb: "length y = 16 \<Longrightarrow> length (gcm_absorb ctx y p) = 16"
  by (induction ctx y p rule: gcm_absorb.induct) (subst gcm_absorb.simps, simp)

lemma length_gcm_increment [simp]: "length (gcm_increment i y) = length y"
  by (induction i y rule: gcm_increment.induct) (auto simp: Let_def)

lemma length_ecb [simp]: "length (aes_crypt_ecb ctx m b) = 16"
  by (simp add: aes_crypt_ecb_def)

text \<open>One block of the loop.\<close>

lemma update_loop_step:
  assumes "p \<noteq> []" "length (gcm_y ctx) = 16"
  defines "y \<equiv> gcm_increment 4 (gcm_y ctx)"
  defines "blk \<equiv> take 16 p"
  defines "out \<equiv> map2 (XOR) (take (length blk) (aes_crypt_ecb (cipher_ctx ctx) AES_ENCRYPT y)) blk"
  shows "gcm_update_loop ctx p outp =
    gcm_update_loop (ctx\<lparr>gcm_y := y, gcm_buf := gcm_mult ctx (xor_into (gcm_buf ctx)
      (if gcm_mode ctx = AES_DECRYPT then blk else out))\<rparr>) (drop 16 p) (outp @ out)"
  using assms by (subst gcm_update_loop.simps) (simp add: cipher_update_def Let_def)

lemma update_loop_append:
  assumes "length (gcm_y ctx) = 16"
  shows "gcm_update_loop ctx p outp =
    (case gcm_update_loop ctx p [] of Inl e \<Rightarrow> Inl e | Inr (ctx, o') \<Rightarrow> Inr (ctx, outp @ o'))"
  using assms
proof (induction "length p" arbitrary: ctx p outp rule: less_induct)
  case less
  show ?case
  proof (cases "p = []")
    case False
    define y where "y = gcm_increment 4 (gcm_y ctx)"
    define blk where "blk = take 16 p"
    define out where "out = map2 (XOR) (take (length blk) (aes_crypt_ecb (cipher_ctx ctx) AES_ENCRYPT y)) blk"
    define ctx' where "ctx' = ctx\<lparr>gcm_y := y, gcm_buf := gcm_mult ctx (xor_into (gcm_buf ctx)
      (if gcm_mode ctx = AES_DECRYPT then blk else out))\<rparr>"
    have s: "length (drop 16 p) < length p" "length (gcm_y ctx') = 16"
      using False less.prems by (simp_all add: ctx'_def y_def)
    have step: "gcm_update_loop ctx p x = gcm_update_loop ctx' (drop 16 p) (x @ out)" for x
      unfolding ctx'_def y_def blk_def out_def using update_loop_step [OF False less.prems] by simp
    show ?thesis
      unfolding step using less(1) [OF s, of "outp @ out"] less(1) [OF s, of out] by (simp split: sum.splits)
  qed (simp add: gcm_update_loop.simps)
qed

lemma xor_blocks_cancel:
  "length k = length p \<Longrightarrow> map2 (XOR) k (map2 (XOR) k p) = (p :: bytes)"
  by (rule nth_equalityI) (auto simp: xor_ac)

lemma update_loop_flip:
  assumes "length (gcm_y ctx) = 16" "gcm_update_loop ctx p [] = Inr (ctx', c)"
  shows "gcm_update_loop (flip ctx) c [] = Inr (flip ctx', p) \<and> length c = length p"
  using assms
proof (induction "length p" arbitrary: ctx p c rule: less_induct)
  case less
  show ?case
  proof (cases "p = []")
    case True
    then show ?thesis using less.prems by (simp add: gcm_update_loop.simps)
  next
    case False
    define y where "y = gcm_increment 4 (gcm_y ctx)"
    define blk where "blk = take 16 p"
    define k where "k = take (length blk) (aes_crypt_ecb (cipher_ctx ctx) AES_ENCRYPT y)"
    define out where "out = map2 (XOR) k blk"
    define ctx1 where "ctx1 = ctx\<lparr>gcm_y := y, gcm_buf := gcm_mult ctx (xor_into (gcm_buf ctx)
      (if gcm_mode ctx = AES_DECRYPT then blk else out))\<rparr>"
    have lk: "length k = length blk" "length out = length blk" by (auto simp: k_def out_def blk_def)
    have y1: "length (gcm_y ctx1) = 16" using less.prems(1) by (simp add: ctx1_def y_def)
    have "gcm_update_loop ctx p [] = gcm_update_loop ctx1 (drop 16 p) out"
      unfolding ctx1_def y_def blk_def out_def k_def
      using update_loop_step [OF False less.prems(1), of "[]"] by simp
    then obtain c' where c': "gcm_update_loop ctx1 (drop 16 p) [] = Inr (ctx', c')" "c = out @ c'"
      using update_loop_append [OF y1, of "drop 16 p" out] less.prems(2) by (auto split: sum.splits prod.splits)
    have IH: "gcm_update_loop (flip ctx1) c' [] = Inr (flip ctx', drop 16 p)" "length c' = length (drop 16 p)"
      using less(1) [OF _ y1 c'(1)] False by auto
    have t: "take 16 c = out" "drop 16 c = c'" "c \<noteq> []"
      using c'(2) IH(2) lk False by (cases "16 \<le> length p"; auto simp: blk_def min_def)+
    have k': "take (length out) (aes_crypt_ecb (cipher_ctx (flip ctx)) AES_ENCRYPT (gcm_increment 4 (gcm_y (flip ctx)))) = k"
      by (simp add: lk k_def y_def)
    have undo: "map2 (XOR) k out = blk" using lk by (simp add: out_def xor_blocks_cancel)
    have "gcm_mult (flip ctx) v = gcm_mult ctx v" for v by (rule gcm_mult_cong) simp_all
    moreover have f: "flip ctx1 = ctx\<lparr>gcm_mode := other_mode (gcm_mode ctx), gcm_y := y,
        gcm_buf := gcm_mult ctx (xor_into (gcm_buf ctx) (if gcm_mode ctx = AES_DECRYPT then blk else out))\<rparr>"
      by (cases ctx) (simp add: ctx1_def)
    ultimately have "gcm_update_loop (flip ctx) c [] = gcm_update_loop (flip ctx1) c' blk"
      unfolding f using update_loop_step [of c "flip ctx" "[]"] less.prems(1) t k' undo
      by (cases "gcm_mode ctx") (simp_all add: y_def)
    also have "\<dots> = Inr (flip ctx', p)"
      using update_loop_append [of "flip ctx1" c' blk] y1 IH(1) by (simp add: blk_def)
    finally show ?thesis using IH(2) c'(2) lk by (simp add: blk_def)
  qed
qed


lemma update_loop_keeps:
  "gcm_update_loop ctx p outp = Inr (ctx', c) \<Longrightarrow> base_ectr ctx' = base_ectr ctx \<and> gcm_len ctx' = gcm_len ctx
    \<and> add_len ctx' = add_len ctx \<and> HH ctx' = HH ctx \<and> HL ctx' = HL ctx"
proof (induction ctx p outp rule: gcm_update_loop.induct)
  case (1 ctx p outp)
  then show ?case
    by (subst (asm) (2) gcm_update_loop.simps) (auto simp: Let_def split: if_splits sum.splits)
qed

lemma gcm_crypt_flip:
  assumes "gcm_crypt_and_tag ctx m iv add p n = Inr (c, t)"
  shows "gcm_crypt_and_tag ctx (other_mode m) iv add c n = Inr (p, t) \<and> length c = length p \<and> length t = n"
proof -
  obtain ctx1 where start: "gcm_starts ctx m iv add = Inr ctx1"
    using assms by (auto simp: gcm_crypt_and_tag_def split: sum.splits)
  obtain ctx2 where upd: "gcm_update ctx1 p = Inr (ctx2, c)"
    using assms start by (auto simp: gcm_crypt_and_tag_def split: sum.splits prod.splits)
  have fin: "gcm_finish ctx2 n = Inr t"
    using assms start upd by (auto simp: gcm_crypt_and_tag_def split: sum.splits)
  have cong: "gcm_mult (ctx\<lparr>gcm_mode := a, gcm_len := 0, add_len := 0\<rparr>) x = gcm_mult ctx x"
    "gcm_absorb (ctx\<lparr>gcm_mode := a, gcm_len := 0, add_len := 0\<rparr>) y x = gcm_absorb ctx y x" for a x y
    by (rule gcm_mult_cong gcm_absorb_cong; simp)+
  have mode: "gcm_mode ctx1 = m" and y: "length (gcm_y ctx1) = 16"
    using start by (auto simp: gcm_starts_def Let_def split: if_splits sum.splits)
  have start': "gcm_starts ctx (other_mode m) iv add = Inr (flip ctx1)"
    using start by (auto simp: gcm_starts_def Let_def cong split: if_splits sum.splits)
  define l where "l = gcm_len ctx1 + word_of_nat (length p)"
  have ok: "\<not> (l < gcm_len ctx1 \<or> l > 0xFFFFFFFE0)"
    and loop: "gcm_update_loop (ctx1\<lparr>gcm_len := l\<rparr>) p [] = Inr (ctx2, c)"
    using upd by (auto simp: gcm_update_def Let_def l_def split: if_splits)
  have undo: "gcm_update_loop (flip (ctx1\<lparr>gcm_len := l\<rparr>)) c [] = Inr (flip ctx2, p)" "length c = length p"
    using update_loop_flip [OF _ loop] y by auto
  have "(flip ctx1)\<lparr>gcm_len := l\<rparr> = flip (ctx1\<lparr>gcm_len := l\<rparr>)" by (cases ctx1) simp
  moreover have "gcm_update (flip ctx1) c = gcm_update_loop ((flip ctx1)\<lparr>gcm_len := l\<rparr>) c []"
    using undo(2) ok by (simp add: gcm_update_def Let_def l_def)
  ultimately have upd': "gcm_update (flip ctx1) c = Inr (flip ctx2, p)"
    using undo(1) by (simp only:)
  have "gcm_mult (flip ctx2) x = gcm_mult ctx2 x" for x by (rule gcm_mult_cong) simp_all
  then have "gcm_finish (flip ctx2) n = gcm_finish ctx2 n" by (simp add: gcm_finish_def Let_def)
  then have fin': "gcm_finish (flip ctx2) n = Inr t" using fin by (simp only:)
  have same: "length (base_ectr ctx2) = 16"
    using update_loop_keeps [OF loop] start by (auto simp: gcm_starts_def cipher_update_def Let_def split: if_splits)
  have "length t = n" using fin same by (auto simp: gcm_finish_def Let_def split: if_splits)
  then show ?thesis using start' upd' fin' undo(2) by (simp add: gcm_crypt_and_tag_def)
qed

text \<open>The comparison of the tags.\<close>

lemma or_loop_zero:
  "foldl (\<lambda>d i. d OR f i) (0 :: byte) [0..<n] = 0 \<longleftrightarrow> (\<forall>i < n. f i = 0)"
proof (induction n)
  case (Suc n)
  have "a OR b = 0 \<longleftrightarrow> a = 0 \<and> b = 0" for a b :: byte
    by (auto simp: bit_eq_iff bit_simps)
  then show ?case using Suc by (auto simp: less_Suc_eq)
qed simp

lemma tags_equal:
  assumes "length t = n" "length t' = n"
  shows "foldl (\<lambda>d i. d OR (t ! i XOR t' ! i)) (0 :: byte) [0..<n] = 0 \<longleftrightarrow> t = t'"
proof -
  have "a XOR b = 0 \<longleftrightarrow> a = b" for a b :: byte
    by (metis xor_cancel xor.right_neutral xor_self_eq)
  then show ?thesis unfolding or_loop_zero using assms by (auto intro: nth_equalityI)
qed

lemma gcm_auth_decrypt_iff:
  assumes "length tag = n"
  shows "gcm_auth_decrypt ctx iv add tag n cipher = Inr plain
    \<longleftrightarrow> gcm_crypt_and_tag ctx AES_ENCRYPT iv add plain n = Inr (cipher, tag)"
proof
  assume "gcm_auth_decrypt ctx iv add tag n cipher = Inr plain"
  then obtain t where t: "gcm_crypt_and_tag ctx AES_DECRYPT iv add cipher n = Inr (plain, t)"
      "foldl (\<lambda>d i. d OR (tag ! i XOR t ! i)) 0 [0..<n] = 0"
    by (auto simp: gcm_auth_decrypt_def Let_def split: sum.splits prod.splits if_splits)
  from gcm_crypt_flip [OF t(1)] t(2) show "gcm_crypt_and_tag ctx AES_ENCRYPT iv add plain n = Inr (cipher, tag)"
    using tags_equal [OF assms, of t] by simp
next
  assume "gcm_crypt_and_tag ctx AES_ENCRYPT iv add plain n = Inr (cipher, tag)"
  from gcm_crypt_flip [OF this] show "gcm_auth_decrypt ctx iv add tag n cipher = Inr plain"
    using tags_equal [OF assms assms] by (simp add: gcm_auth_decrypt_def)
qed

text \<open>When the calls succeed.\<close>

lemma update_loop_ok:
  "length (gcm_y ctx) = 16 \<Longrightarrow> \<exists>r. gcm_update_loop ctx p outp = Inr r"
proof (induction "length p" arbitrary: ctx p outp rule: less_induct)
  case less
  show ?case
  proof (cases "p = []")
    case False
    then show ?thesis
      using update_loop_step [OF False less.prems, of outp] less(1) [of "drop 16 p"] less.prems by simp
  qed (simp add: gcm_update_loop.simps)
qed

definition gcm_lengths_ok :: "bytes \<Rightarrow> bytes \<Rightarrow> bytes \<Rightarrow> nat \<Rightarrow> bool" where
  "gcm_lengths_ok iv add p n \<longleftrightarrow> length iv < 2 ^ 61 \<and> length add < 2 ^ 61 \<and> 4 \<le> n \<and> n \<le> 16
     \<and> (word_of_nat (length p) :: u64) \<le> 0xFFFFFFFE0"

lemma gcm_starts_ok:
  "length iv < 2 ^ 61 \<and> length add < 2 ^ 61 \<Longrightarrow>
    \<exists>c. gcm_starts ctx m iv add = Inr c \<and> gcm_len c = 0 \<and> length (gcm_y c) = 16 \<and> length (base_ectr c) = 16"
  "\<not> (length iv < 2 ^ 61 \<and> length add < 2 ^ 61) \<Longrightarrow> gcm_starts ctx m iv add = Inl ERR_GCM_BAD_INPUT"
  by (auto simp: gcm_starts_def cipher_update_def drop_bit_eq_div Let_def div_eq_0_iff not_less)

lemma gcm_crypt_cases:
  "if gcm_lengths_ok iv add p n then \<exists>r. gcm_crypt_and_tag ctx m iv add p n = Inr r
   else gcm_crypt_and_tag ctx m iv add p n = Inl ERR_GCM_BAD_INPUT"
proof (cases "length iv < 2 ^ 61 \<and> length add < 2 ^ 61")
  case True
  then obtain c where c: "gcm_starts ctx m iv add = Inr c" "gcm_len c = 0" "length (gcm_y c) = 16"
    using gcm_starts_ok(1) by blast
  obtain c' o' where "gcm_update_loop (c\<lparr>gcm_len := word_of_nat (length p)\<rparr>) p [] = Inr (c', o')"
    using update_loop_ok [of "c\<lparr>gcm_len := word_of_nat (length p)\<rparr>" p "[]"] c(3) by auto
  then show ?thesis
    using c True by (auto simp: gcm_crypt_and_tag_def gcm_lengths_ok_def gcm_update_def gcm_finish_def Let_def
        not_le not_less)
next
  case False
  then show ?thesis using gcm_starts_ok(2) [OF False] by (auto simp: gcm_crypt_and_tag_def gcm_lengths_ok_def)
qed


definition zero_context :: gcm_context where
  "zero_context = \<lparr>cipher_ctx = \<lparr>nr = 10, rk = replicate 68 0\<rparr>, HL = replicate 16 0, HH = replicate 16 0,
     gcm_len = 0, add_len = 0, base_ectr = [], gcm_y = [], gcm_buf = [], gcm_mode = AES_DECRYPT\<rparr>"


end
