(* ===== verification/Hybrid_Cipher.thy ===== *)
theory Hybrid_Cipher
  imports Eth_Ecdsa Base64 Gcm_Aead
begin

text \<open>
  Encrypted requests (\<open>hybrid_cipher.cpp\<close>): ECDH on secp256k1 with an ephemeral key, AES-256-GCM under
  the shared coordinate, and the base64 text of header and ciphertext.  The global
  \<open>g_secret_hybrid_key\<close> is \<open>None\<close> until it is provisioned.  Parameters: the curve with its two
  arithmetic routines, the random generator and its seeding, the unsealing of the SGX SDK, and
  \<open>strerror\<close>, the texts of \<open>mbedtls_strerror\<close>.  Log output and the debug dumps are left out.
\<close>

section \<open>Keys\<close>

definition PUBLIC_KEY_SIZE :: nat where "PUBLIC_KEY_SIZE = 65"
definition AES_IV_LEN :: nat where "AES_IV_LEN = 32"
definition GCM_TAG_LEN :: nat where "GCM_TAG_LEN = 16"
definition HEADER_LEN :: nat where "HEADER_LEN = PUBLIC_KEY_SIZE + AES_IV_LEN + GCM_TAG_LEN"

definition tc_provision_hybrid_key ::
  "(bytes \<Rightarrow> int + bytes) \<Rightarrow> bytes \<Rightarrow> g_key \<Rightarrow> int \<times> g_key" where
  "tc_provision_hybrid_key unseal secret g =
     (case unseal secret of
        Inl st \<Rightarrow> (- 1, g)
      | Inr y \<Rightarrow> (0, Some (mpi_read_binary y)))"

text \<open>
  \<open>secretToPubkey\<close> on a key that exists; the result is the 65 bytes copied to the caller.  A
  serialisation of another length is only logged, and the copy takes uninitialised bytes.
\<close>

definition secretToPubkey :: "ecp_curve \<Rightarrow> int \<Rightarrow> (int + bytes) res" where
  "secretToPubkey C seckey =
     (case ecp_mul C None seckey (gG C) () of
        Some (Inr Q, _) \<Rightarrow>
          (case ecp_point_write_binary C Q 65 of
             Inl e \<Rightarrow>
               if e = ERR_ECP_BUFFER_TOO_SMALL \<or> e = ERR_ECP_BAD_INPUT_DATA then Inr (Inl (- 1))
               else Inl UB
           | Inr pk \<Rightarrow> if length pk \<noteq> 65 then Inl UB else Inr (Inr pk))
      | _ \<Rightarrow> Inr (Inl (- 1)))"

definition tc_get_hybrid_pubkey :: "ecp_curve \<Rightarrow> g_key \<Rightarrow> (int + bytes) res" where
  "tc_get_hybrid_pubkey C key =
     (case key of
        None \<Rightarrow> Inr (Inl TC_KEY_NOT_PROVISIONED)
      | Some seckey \<Rightarrow> secretToPubkey C seckey)"

text \<open>\<open>queryPubkey\<close> does not look at the result of \<open>secretToPubkey\<close>.\<close>

definition queryPubkey :: "ecp_curve \<Rightarrow> g_key \<Rightarrow> (int + bytes) res" where
  "queryPubkey C key =
     (case key of
        None \<Rightarrow> Inl (Throw (Runtime_error ''key not provisioned yet''))
      | Some seckey \<Rightarrow> secretToPubkey C seckey)"

definition storePubkey :: "ecp_curve \<Rightarrow> ecp_point \<Rightarrow> bytes res" where
  "storePubkey C P =
     (case ecp_point_write_binary C P PUBLIC_KEY_SIZE of
        Inl e \<Rightarrow> Inl (Throw (Runtime_error ''mbedtls_ecp_point_write_binary failed''))
      | Inr buf \<Rightarrow>
          if length buf \<noteq> PUBLIC_KEY_SIZE
          then Inl (Throw (Runtime_error ''mbedtls_ecp_point_write_binary failed'')) else Inr buf)"

definition loadPubkey :: "ecp_curve \<Rightarrow> bytes \<Rightarrow> ecp_point res" where
  "loadPubkey C buf =
     (case ecp_point_read_binary C buf of
        Inl e \<Rightarrow> Inl (Throw (Runtime_error ''mbedtls_ecp_point_read_binary failed''))
      | Inr P \<Rightarrow> Inr P)"

section \<open>Ciphertexts and their text\<close>

record hybrid_ciphertext =
  user_pubkey :: bytes
  aes_iv :: bytes
  gcm_tag :: bytes
  hc_data :: bytes

text \<open>
  The result of the encoder is not looked at: when it fails, the text is an uninitialised buffer.
\<close>

definition hybrid_encode :: "hybrid_ciphertext \<Rightarrow> string res" where
  "hybrid_encode c =
     (let tmp_buf = user_pubkey c @ aes_iv c @ gcm_tag c @ hc_data c
      in case b64_ntop tmp_buf (length tmp_buf * 2) of
           None \<Rightarrow> Inl UB
         | Some b64 \<Rightarrow> Inr b64)"

text \<open>
  The three copies read the first \<open>HEADER_LEN\<close> bytes of a buffer as long as the text, whatever the
  number of bytes decoded: a text shorter than the header is read past its end, and for fewer
  decoded bytes than the header the range of the data has a negative length, for which
  \<open>vector::insert\<close> throws.  The buffer is not initialised; every byte of a result has been
  written by the decoder, so its first contents (here zeros) do not matter.
\<close>

definition hybrid_decode :: "string \<Rightarrow> hybrid_ciphertext res" where
  "hybrid_decode cipher_b64 =
     (case b64_pton (c_str cipher_b64) (replicate (length cipher_b64) 0) of
        None \<Rightarrow> Inl (Throw (Runtime_error ''failed to base64 encode''))
      | Some (o_len, cipher) \<Rightarrow>
          if length cipher < HEADER_LEN then Inl UB
          else if o_len < HEADER_LEN then Inl (Throw (Std_exception ''vector::_M_range_insert''))
          else Inr \<lparr>user_pubkey = take PUBLIC_KEY_SIZE cipher,
                    aes_iv = take AES_IV_LEN (drop PUBLIC_KEY_SIZE cipher),
                    gcm_tag = take GCM_TAG_LEN (drop (PUBLIC_KEY_SIZE + AES_IV_LEN) cipher),
                    hc_data = take (o_len - HEADER_LEN) (drop HEADER_LEN cipher)\<rparr>)"

section \<open>AES-256-GCM\<close>

definition aes_gcm_256_enc :: "(int \<Rightarrow> string) \<Rightarrow> bytes \<Rightarrow> bytes \<Rightarrow> bytes \<Rightarrow> (bytes \<times> bytes) res" where
  "aes_gcm_256_enc strerror key iv input =
     (case gcm_setkey key 256 of
        Inl e \<Rightarrow> Inl UB
      | Inr ctx \<Rightarrow>
          (case gcm_crypt_and_tag ctx AES_ENCRYPT iv [] input GCM_TAG_LEN of
             Inl e \<Rightarrow> Inl (Throw (Runtime_error (strerror e)))
           | Inr r \<Rightarrow> Inr r))"

definition aes_gcm_256_dec :: "(int \<Rightarrow> string) \<Rightarrow> bytes \<Rightarrow> bytes \<Rightarrow> bytes \<Rightarrow> bytes \<Rightarrow> bytes res" where
  "aes_gcm_256_dec strerror key iv ciphertext tag =
     (case gcm_setkey key 256 of
        Inl e \<Rightarrow> Inl UB
      | Inr ctx \<Rightarrow>
          (case gcm_auth_decrypt ctx iv [] tag GCM_TAG_LEN ciphertext of
             Inl e \<Rightarrow> Inl (Throw (Runtime_error (strerror e)))
           | Inr r \<Rightarrow> Inr r))"

section \<open>Encryption and decryption\<close>

type_synonym ('g, 'a) run = "('a res \<times> 'g) option"

text \<open>Go on after a computation with random numbers; a failing one throws its error text.\<close>

definition or_throw ::
  "(int \<Rightarrow> string) \<Rightarrow> ((int + 'a) \<times> 'g) option \<Rightarrow> ('a \<Rightarrow> 'g \<Rightarrow> ('g, 'b) run) \<Rightarrow> ('g, 'b) run" where
  "or_throw strerror m k =
     (case m of
        None \<Rightarrow> None
      | Some (Inl e, g) \<Rightarrow> Some (Inl (Throw (Runtime_error (strerror e))), g)
      | Some (Inr x, g) \<Rightarrow> k x g)"

text \<open>The result of \<open>mbedtls_mpi_write_binary\<close> is not looked at.\<close>

definition derived_key :: "int \<Rightarrow> bytes res" where
  "derived_key z = (case mpi_write_binary z 32 of Inl e \<Rightarrow> Inl UB | Inr key \<Rightarrow> Inr key)"

definition hybridDecrypt_with ::
  "ecp_curve \<Rightarrow> 'g rng \<Rightarrow> (int \<Rightarrow> string) \<Rightarrow> hybrid_ciphertext \<Rightarrow> int \<Rightarrow> 'g \<Rightarrow> ('g, bytes) run" where
  "hybridDecrypt_with C f_rng strerror c secret_key g =
     (case loadPubkey C (user_pubkey c) of
        Inl e \<Rightarrow> Some (Inl e, g)
      | Inr Qp \<Rightarrow>
          or_throw strerror (ecdh_compute_shared C (Some f_rng) Qp secret_key g) (\<lambda>z g.
            Some (bind_res (derived_key z) (\<lambda>key.
                    aes_gcm_256_dec strerror key (aes_iv c) (hc_data c) (gcm_tag c)), g)))"

definition hybridDecrypt ::
  "ecp_curve \<Rightarrow> 'g rng \<Rightarrow> (int \<Rightarrow> string) \<Rightarrow> hybrid_ciphertext \<Rightarrow> g_key \<Rightarrow> 'g \<Rightarrow> ('g, bytes) run" where
  "hybridDecrypt C f_rng strerror c key g =
     (case key of
        None \<Rightarrow> Some (Inl (Throw (Runtime_error ''hybrid key not provisioned yet. Run queryPubkey() first'')), g)
      | Some secret_key \<Rightarrow> hybridDecrypt_with C f_rng strerror c secret_key g)"

definition hybrid_iv :: bytes where
  "hybrid_iv = 0x99 # replicate 31 0"

definition hybridEncrypt_with ::
  "ecp_curve \<Rightarrow> 'g rng \<Rightarrow> (int \<Rightarrow> string) \<Rightarrow> bytes \<Rightarrow> bytes \<Rightarrow> bytes \<Rightarrow> 'g \<Rightarrow> ('g, hybrid_ciphertext) run" where
  "hybridEncrypt_with C f_rng strerror tc_pubkey iv input g =
     or_throw strerror (ecdh_gen_public C f_rng g) (\<lambda>(d, Q) g.
       case storePubkey C Q of
         Inl e \<Rightarrow> Some (Inl e, g)
       | Inr user \<Rightarrow>
           (case loadPubkey C tc_pubkey of
              Inl e \<Rightarrow> Some (Inl e, g)
            | Inr Qp \<Rightarrow>
                or_throw strerror (ecdh_compute_shared C None Qp d g) (\<lambda>z g.
                  Some (bind_res (derived_key z) (\<lambda>key.
                        bind_res (aes_gcm_256_enc strerror key iv input) (\<lambda>(cipher, tag).
                        Inr \<lparr>user_pubkey = user, aes_iv = iv, gcm_tag = tag, hc_data = cipher\<rparr>)), g))))"

definition hybridEncrypt ::
  "ecp_curve \<Rightarrow> 'g rng \<Rightarrow> (int \<Rightarrow> string) \<Rightarrow> bytes \<Rightarrow> bytes \<Rightarrow> 'g \<Rightarrow> ('g, string) run" where
  "hybridEncrypt C f_rng strerror tc_pubkey input g =
     (case hybridEncrypt_with C f_rng strerror tc_pubkey hybrid_iv input g of
        None \<Rightarrow> None
      | Some (r, g) \<Rightarrow> Some (bind_res r hybrid_encode, g))"

text \<open>The constructor seeds the generator: \<open>seed\<close> is its error code or its first state.\<close>

definition hybridEncryption :: "(int \<Rightarrow> string) \<Rightarrow> int + 'g \<Rightarrow> 'g res" where
  "hybridEncryption strerror seed =
     (case seed of Inl ret \<Rightarrow> Inl (Throw (Runtime_error (strerror ret))) | Inr g \<Rightarrow> Inr g)"

text \<open>What the handlers of \<open>decrypt_query\<close> make of an exception of its \<open>try\<close> block.\<close>

fun what :: "exn \<Rightarrow> string" where
  "what (Invalid_argument s) = s"
| "what (Runtime_error s) = s"
| "what (Decryption_exception s) = s"
| "what (Std_exception s) = s"
| "what Unknown_exception = ''unknown exception''"

definition as_decryption_exception :: "'a res \<Rightarrow> 'a res" where
  "as_decryption_exception m = catch_exn m (\<lambda>e. Inl (Throw (Decryption_exception (what e))))"

definition decrypt_query ::
  "ecp_curve \<Rightarrow> 'g rng \<Rightarrow> (int \<Rightarrow> string) \<Rightarrow> int + 'g \<Rightarrow> g_key \<Rightarrow> bytes \<Rightarrow> string res option" where
  "decrypt_query C f_rng strerror seed key input =
     (case hybridEncryption strerror seed of
        Inl e \<Rightarrow> Some (Inl e)
      | Inr g \<Rightarrow>
          (case queryPubkey C key of
             Inl e \<Rightarrow> Some (Inl e)
           | Inr _ \<Rightarrow>
               (case hybrid_decode (c_str (str_of input)) of
                  Inl e \<Rightarrow> Some (as_decryption_exception (Inl e))
                | Inr cipher \<Rightarrow>
                    (case hybridDecrypt C f_rng strerror cipher key g of
                       None \<Rightarrow> None
                     | Some (r, g) \<Rightarrow> Some (as_decryption_exception (bind_res r (\<lambda>m. Inr (str_of m))))))))"

section \<open>Points and shared secrets\<close>

lemma point_roundtrip:
  assumes "ecp_check_pubkey C P = 0" and "mpi_size (gP C) = 32"
  shows "\<exists>buf. storePubkey C P = Inr buf \<and> ecp_point_write_binary C P 65 = Inr buf \<and> length buf = 65
    \<and> loadPubkey C buf = Inr P"
proof (cases P)
  case Zero
  then show ?thesis using assms(1) by (simp add: ERR_ECP_INVALID_KEY_def)
next
  case (Affine x y)
  have b: "0 \<le> x" "0 \<le> y" "x < gP C" "y < gP C"
    using assms(1) Affine by (auto simp: ecp_check_pubkey_sw_def ERR_ECP_INVALID_KEY_def split: if_splits)
  moreover have "gP C < 256 ^ 32" using assms(2) mpi_size_le_iff [of "gP C" 32] by simp
  ultimately have "x < 256 ^ 32" "y < 256 ^ 32" by linarith+
  then obtain bx by' where w: "mpi_write_binary x 32 = Inr bx" "mpi_write_binary y 32 = Inr by'"
    using mpi_write_binary_ok b by blast
  have v: "mpi_read_binary bx = x" "length bx = 32" "mpi_read_binary by' = y" "length by' = 32"
    using mpi_write_binary_val [OF w(1) b(1)] mpi_write_binary_val [OF w(2) b(2)] by auto
  have p: "ecp_point_write_binary C P 65 = Inr (0x04 # bx @ by')"
    using w assms(2) Affine by simp
  have "loadPubkey C (0x04 # bx @ by') = Inr P"
    using v assms(2) Affine by (simp add: loadPubkey_def ecp_point_read_binary_def)
  with p v show ?thesis by (simp add: storePubkey_def PUBLIC_KEY_SIZE_def)
qed

lemma mul_base:
  assumes "curve_laws C mult" and "1 \<le> d" "d < gN C"
  shows "ecp_mul C None d (gG C) g = Some (Inr (mult d), g)" and "comb C d (gG C) = mult d"
proof -
  have G: "mult 1 = gG C" and o: "odd (gN C)" and m: "(1 :: int) \<in> {1..<gN C}" "d \<in> {1..<gN C}"
    using assms by (auto simp: curve_laws_def)
  have "comb C d (mult 1) = mult (d * 1 mod gN C)" and v: "ecp_check_pubkey C (mult 1) = 0"
    using assms(1) m unfolding curve_laws_def by blast+
  then show c: "comb C d (gG C) = mult d" using assms G by simp
  show "ecp_mul C None d (gG C) g = Some (Inr (mult d), g)"
    using c v o G assms check_pubkey_not_Zero [OF v] by (simp add: ecp_mul_def ecp_check_privkey_def eff_ret_def)
qed

text \<open>The coordinate both sides compute.\<close>

lemma compute_shared_mult:
  assumes "curve_laws C mult" and "1 \<le> d" "d < gN C" "1 \<le> e" "e < gN C"
    and "rng = None \<or> (\<exists>f. rng = Some f \<and> ecp_randomize_jac C f 0 0 g = Some (Inr (), g'))"
  defines "S \<equiv> mult (d * e mod gN C)"
  shows "ecdh_compute_shared C rng (mult e) d g
    = Some (if S = Zero then Inl ERR_ECP_BAD_INPUT_DATA else Inr (ecp_X S), if rng = None then g else g')"
proof -
  have "comb C d (mult e) = S" and v: "ecp_check_pubkey C (mult e) = 0" and "odd (gN C)"
    using assms by (auto simp: curve_laws_def)
  then show ?thesis
    using assms(2,3,6) check_pubkey_not_Zero [OF v]
    by (auto simp: ecdh_compute_shared_def eff_bind_def ecp_mul_def ecp_check_privkey_def eff_ret_def
        eff_err_def ecp_is_zero_def)
qed

section \<open>The text of a ciphertext\<close>

lemma b64_enc_chars: "set (b64_enc src) \<subseteq> insert Pad64 (set Base64_alphabet)"
proof -
  have l: "length Base64_alphabet = 64" by (simp add: Base64_alphabet_def)
  have c: "b64_char v \<in> set Base64_alphabet" if "unat v < 64" for v
    using that l by (simp add: b64_char_def)
  show ?thesis
    by (induction src rule: b64_enc.induct) (use c digit_bounds in auto)
qed

lemma text_plain: "b64_ntop src n = Some s \<Longrightarrow> NUL \<notin> set s"
proof -
  assume "b64_ntop src n = Some s"
  then have "set s \<subseteq> insert Pad64 (set Base64_alphabet)"
    using b64_enc_chars [of src] by (auto simp: b64_ntop_eq split: if_splits)
  moreover have "NUL \<notin> insert Pad64 (set Base64_alphabet)" by code_simp
  ultimately show "NUL \<notin> set s" by blast
qed

definition hc_wf :: "hybrid_ciphertext \<Rightarrow> bool" where
  "hc_wf c \<longleftrightarrow> length (user_pubkey c) = 65 \<and> length (aes_iv c) = 32 \<and> length (gcm_tag c) = 16"

lemma list_plain: "\<forall>c \<in> set (b64_enc src). \<not> isspace c"
proof -
  have "list_all (\<lambda>c. \<not> isspace c) (Pad64 # Base64_alphabet)" by code_simp
  then have "\<not> isspace c" if "c \<in> insert Pad64 (set Base64_alphabet)" for c
    using that unfolding list_all_iff list.set(2) by blast
  then show ?thesis using b64_enc_chars [of src] by blast
qed

lemma hybrid_encode_plain: "hybrid_encode c = Inr s \<Longrightarrow> squeeze s = s"
  using list_plain by (auto simp: hybrid_encode_def Let_def b64_ntop_eq filter_id_conv split: if_splits)

lemma hybrid_encode_total: "hc_wf c \<Longrightarrow> \<exists>s. hybrid_encode c = Inr s"
  by (auto simp: hybrid_encode_def hc_wf_def b64_ntop_eq length_b64_enc Let_def)

lemma hybrid_decode_encode:
  assumes "hc_wf c" and "hybrid_encode c = Inr text" and "squeeze s = text"
  shows "hybrid_decode s = Inr c \<and> c_str s = s"
proof -
  define buf where "buf = user_pubkey c @ aes_iv c @ gcm_tag c @ hc_data c"
  have n: "b64_ntop buf (length buf * 2) = Some text"
    using assms(2) by (auto simp: hybrid_encode_def buf_def Let_def split: option.splits)
  have b: "length buf = 113 + length (hc_data c)" using assms(1) by (simp add: buf_def hc_wf_def)
  have t: "text = b64_enc buf" using n by (simp add: b64_ntop_eq split: if_splits)
  have "length text \<le> length s" using assms(3) by (auto simp: length_filter_le)
  moreover have "length buf \<le> length text" using t length_b64_enc [of buf] by simp
  ultimately have "length buf \<le> length (replicate (length s) (0 :: byte))" by simp
  from b64_pton_ntop [OF n assms(3) this] obtain t' where
    t': "b64_pton s (replicate (length s) 0) = Some (length buf, t')" "take (length buf) t' = buf"
      "length t' = length s" by auto
  have "NUL \<notin> set s"
  proof
    assume "NUL \<in> set s"
    moreover have "\<not> isspace NUL" by (simp add: isspace_def)
    ultimately have "NUL \<in> set text" using assms(3) by auto
    then show False using text_plain [OF n] by blast
  qed
  then have cs: "c_str s = s" by simp
  obtain rest where r: "t' = buf @ rest" using t'(2) append_take_drop_id [of "length buf" t'] by metis
  have "hybrid_decode s = Inr \<lparr>user_pubkey = user_pubkey c, aes_iv = aes_iv c, gcm_tag = gcm_tag c, hc_data = hc_data c\<rparr>"
    unfolding hybrid_decode_def cs t'(1)
    using b assms(1) unfolding r buf_def hc_wf_def
    by (simp add: HEADER_LEN_def PUBLIC_KEY_SIZE_def AES_IV_LEN_def GCM_TAG_LEN_def del: drop_append)
      (simp add: numeral_eq_Suc)
  with cs show ?thesis by simp
qed

section \<open>Round trip and errors\<close>

lemma key_32: "\<exists>ctx. gcm_setkey key 256 = Inr ctx"
  by (simp add: gcm_setkey_def aes_setkey_enc_def gcm_gen_table_def cipher_update_def Let_def split: prod.splits)

lemma gcm_dec_enc:
  assumes "aes_gcm_256_enc strerror key iv msg = Inr (cipher, tag)"
  shows "aes_gcm_256_dec strerror key iv cipher tag = Inr msg \<and> length tag = 16"
proof -
  obtain ctx where k: "gcm_setkey key 256 = Inr ctx" using key_32 by blast
  then have e: "gcm_crypt_and_tag ctx AES_ENCRYPT iv [] msg 16 = Inr (cipher, tag)"
    using assms by (auto simp: aes_gcm_256_enc_def GCM_TAG_LEN_def split: sum.splits)
  have t: "length tag = 16" using gcm_crypt_flip [OF e] by simp
  with e k show ?thesis using gcm_auth_decrypt_iff [OF t, of ctx iv "[]" cipher msg]
    by (simp add: aes_gcm_256_dec_def GCM_TAG_LEN_def)
qed

lemma or_throw_Inr:
  "or_throw strerror m k = Some (Inr y, g') \<longleftrightarrow> (\<exists>x g. m = Some (Inr x, g) \<and> k x g = Some (Inr y, g'))"
  by (auto simp: or_throw_def split: option.splits sum.splits)

lemma pubkey_of:
  assumes "curve_laws C mult" and "mpi_size (gP C) = 32" and "1 \<le> d" "d < gN C"
    and "tc_get_hybrid_pubkey C (Some d) = Inr (Inr buf)"
  shows "loadPubkey C buf = Inr (mult d)"
proof -
  have "ecp_check_pubkey C (mult d) = 0" using assms by (auto simp: curve_laws_def)
  from point_roundtrip [OF this assms(2)] show ?thesis
    using mul_base(1) [OF assms(1,3,4), of "()"] assms(5)
    by (auto simp: tc_get_hybrid_pubkey_def secretToPubkey_def)
qed

lemma hybrid_decrypts:
  assumes laws: "curve_laws C mult" and size: "mpi_size (gP C) = 32" and d: "1 \<le> d" "d < gN C"
    and pub: "tc_get_hybrid_pubkey C (Some d) = Inr (Inr tc_pubkey)" and iv: "length iv = 32"
    and enc: "hybridEncrypt_with C f_rng strerror tc_pubkey iv msg g = Some (Inr c, g1)"
    and rng: "ecp_randomize_jac C f_rng' 0 0 g2 = Some (Inr (), gz)"
  shows "hc_wf c \<and> hybridDecrypt C f_rng' strerror c (Some d) g2 = Some (Inr msg, gz)"
proof -
  obtain e Q ga where kp: "ecdh_gen_public C f_rng g = Some (Inr (e, Q), ga)"
    and rest: "(case storePubkey C Q of
         Inl err \<Rightarrow> Some (Inl err, ga)
       | Inr user \<Rightarrow>
           (case loadPubkey C tc_pubkey of
              Inl err \<Rightarrow> Some (Inl err, ga)
            | Inr Qp \<Rightarrow>
                or_throw strerror (ecdh_compute_shared C None Qp e ga) (\<lambda>z g.
                  Some (bind_res (derived_key z) (\<lambda>key.
                        bind_res (aes_gcm_256_enc strerror key iv msg) (\<lambda>(cipher, tag).
                        Inr \<lparr>user_pubkey = user, aes_iv = iv, gcm_tag = tag, hc_data = cipher\<rparr>)), g))))
       = Some (Inr c, g1)"
    using enc unfolding hybridEncrypt_with_def or_throw_Inr by auto
  have eQ: "1 \<le> e" "e < gN C" "Q = comb C e (gG C)"
    using ecp_gen_keypair_result [of C f_rng g e Q ga] kp by (auto simp: ecdh_gen_public_def)
  then have Qe: "Q = mult e" using mul_base(2) [OF laws] by simp
  then have vQ: "ecp_check_pubkey C Q = 0" using laws eQ by (auto simp: curve_laws_def)
  obtain user where user: "storePubkey C Q = Inr user" "length user = 65" "loadPubkey C user = Inr Q"
    using point_roundtrip [OF vQ size] by blast
  have ld: "loadPubkey C tc_pubkey = Inr (mult d)" by (rule pubkey_of [OF laws size d pub])
  define S where "S = mult (e * d mod gN C)"
  have z: "ecdh_compute_shared C None (mult d) e ga
      = Some (if S = Zero then Inl ERR_ECP_BAD_INPUT_DATA else Inr (ecp_X S), ga)"
    using compute_shared_mult [OF laws eQ(1,2) d, of None ga ga] by (simp add: S_def)
  have z': "ecdh_compute_shared C (Some f_rng') Q d g2
      = Some (if S = Zero then Inl ERR_ECP_BAD_INPUT_DATA else Inr (ecp_X S), gz)"
    using compute_shared_mult [OF laws d eQ(1,2), of "Some f_rng'" g2 gz] rng Qe by (simp add: S_def mult.commute)
  have nz: "S \<noteq> Zero"
    using rest user(1) ld z by (auto simp: or_throw_def)
  obtain key cipher tag where k: "derived_key (ecp_X S) = Inr key"
      "aes_gcm_256_enc strerror key iv msg = Inr (cipher, tag)"
      "c = \<lparr>user_pubkey = user, aes_iv = iv, gcm_tag = tag, hc_data = cipher\<rparr>"
    using rest user(1) ld z nz by (auto simp: or_throw_def bind_res_Inr_iff)
  from gcm_dec_enc [OF k(2)] show ?thesis
    using k user(2,3) z' nz iv
    by (simp add: hc_wf_def hybridDecrypt_def hybridDecrypt_with_def or_throw_def)
qed

lemma query_roundtrip:
  assumes "curve_laws C mult" and "mpi_size (gP C) = 32" and "1 \<le> d" "d < gN C"
    and "tc_get_hybrid_pubkey C (Some d) = Inr (Inr tc_pubkey)"
    and "hybridEncrypt C f_rng strerror tc_pubkey msg g = Some (Inr text, g1)"
    and "squeeze (str_of sent) = text"
    and "ecp_randomize_jac C f_rng' 0 0 g2 = Some (Inr (), gz)"
  shows "decrypt_query C f_rng' strerror (Inr g2) (Some d) sent = Some (Inr (str_of msg))"
proof -
  obtain c where c: "hybridEncrypt_with C f_rng strerror tc_pubkey hybrid_iv msg g = Some (Inr c, g1)"
    and t: "hybrid_encode c = Inr text"
    using assms(6) by (auto simp: hybridEncrypt_def bind_res_Inr_iff split: option.splits)
  have iv: "length hybrid_iv = 32" by (simp add: hybrid_iv_def)
  from hybrid_decrypts [OF assms(1-5) iv c assms(8)]
  have w: "hc_wf c" and dec: "hybridDecrypt C f_rng' strerror c (Some d) g2 = Some (Inr msg, gz)" by auto
  have "queryPubkey C (Some d) = Inr (Inr tc_pubkey)"
    using assms(5) by (simp add: queryPubkey_def tc_get_hybrid_pubkey_def)
  then show ?thesis
    using hybrid_decode_encode [OF w t assms(7)] dec
    by (simp add: decrypt_query_def hybridEncryption_def as_decryption_exception_def)
qed

text \<open>A curve of three points over the field of secp256k1.\<close>

definition three_mult :: "int \<Rightarrow> ecp_point" where
  "three_mult a = (if a mod 3 = 0 then Zero
     else Affine 0 (if a mod 3 = 1 then 1 else 0xFFFFFFFFFFFFFFFFFFFFFFFFFFFFFFFFFFFFFFFFFFFFFFFFFFFFFFFEFFFFFC2E))"

fun three_log :: "ecp_point \<Rightarrow> int" where
  "three_log Zero = 0"
| "three_log (Affine x y) = (if y = 1 then 1 else 2)"

definition three_curve :: ecp_curve where
  "three_curve = \<lparr>gP = 0xFFFFFFFFFFFFFFFFFFFFFFFFFFFFFFFFFFFFFFFFFFFFFFFFFFFFFFFEFFFFFC2F, gA = Some 0, gB = 1,
     gG = Affine 0 1, gN = 3, pbits = 256, nbits = 8,
     comb = (\<lambda>m P. three_mult (m * three_log P)), padd = (\<lambda>P Q. three_mult (three_log P + three_log Q))\<rparr>"

definition three_rng :: "nat rng" where
  "three_rng g n = (Inr (replicate (n - 1) 0 @ [if even g then 1 else 2]), g + 1)"

lemma three_log_mult: "three_log (three_mult a) = a mod 3"
proof -
  have "a mod 3 = 0 \<or> a mod 3 = 1 \<or> a mod 3 = 2" by presburger
  then show ?thesis by (auto simp: three_mult_def)
qed

lemma three_mult_mod: "three_mult (a mod 3) = three_mult a"
  by (simp add: three_mult_def)

lemma three_laws: "curve_laws three_curve three_mult"
proof -
  have n: "gN three_curve = 3" by (simp add: three_curve_def)
  have i: "{1..<3 :: int} = set [1, 2]" by (auto simp: atLeastLessThan_iff)
  have pub: "\<forall>a \<in> set [1, 2]. ecp_check_pubkey three_curve (three_mult a) = 0"
    by (simp add: three_mult_def three_curve_def ecp_check_pubkey_sw_def)
  have g: "\<forall>a \<in> set [1, 2 :: int]. gcd a 3 = 1" by code_simp
  have m: "comb three_curve a (three_mult b) = three_mult (a * b mod 3)" for a b
    using three_mult_mod [of "a * b"] three_mult_mod [of "a * (b mod 3)"]
    by (simp add: three_curve_def three_log_mult mod_mult_right_eq)
  have a: "padd three_curve (three_mult a) (three_mult b) = three_mult ((a + b) mod 3)" for a b
    using three_mult_mod [of "a + b"] three_mult_mod [of "a mod 3 + b mod 3"]
    by (simp add: three_curve_def three_log_mult mod_add_eq)
  have x: "\<forall>a \<in> set [1, 2 :: int]. ecp_X (three_mult (3 - a)) = ecp_X (three_mult a)"
    by (simp add: three_mult_def)
  have o: "three_mult 1 = gG three_curve" by (simp add: three_mult_def three_curve_def)
  show ?thesis
    unfolding curve_laws_def n i by (intro conjI ballI o m a) (use g pub x in \<open>(blast | simp)+\<close>)
qed

lemma three_size: "mpi_size (gP three_curve) = 32"
proof -
  have "mpi_size (gP three_curve) \<le> 32" "\<not> mpi_size (gP three_curve) \<le> 31"
    unfolding mpi_size_le_iff by (simp_all add: three_curve_def)
  then show ?thesis by simp
qed

lemma hybridEncrypt_ok:
  assumes "ecdh_gen_public C f_rng g = Some (Inr (e, Q), g1)" and "storePubkey C Q = Inr user" "length user = 65"
    and "loadPubkey C tc_pubkey = Inr Qp" and "ecdh_compute_shared C None Qp e g1 = Some (Inr z, g1)"
    and "derived_key z = Inr key" and "length msg < 2 ^ 16"
  shows "\<exists>text. hybridEncrypt C f_rng strerror tc_pubkey msg g = Some (Inr text, g1)"
proof -
  obtain ctx where k: "gcm_setkey key 256 = Inr ctx" using key_32 by blast
  have "unat (word_of_nat (length msg) :: u64) = length msg"
    using assms(7) by (simp add: unsigned_of_nat take_bit_nat_eq_self)
  then have "gcm_lengths_ok hybrid_iv [] msg 16"
    using assms(7) by (simp add: gcm_lengths_ok_def hybrid_iv_def word_le_nat_alt)
  then obtain ct where ct: "gcm_crypt_and_tag ctx AES_ENCRYPT hybrid_iv [] msg 16 = Inr ct"
    using gcm_crypt_cases [of hybrid_iv "[]" msg 16 ctx AES_ENCRYPT] by auto
  obtain cipher tag where "ct = (cipher, tag)" by (cases ct)
  with ct gcm_crypt_flip [of ctx AES_ENCRYPT hybrid_iv "[]" msg 16 cipher tag] have t: "length tag = 16" by simp
  obtain s where "hybrid_encode \<lparr>user_pubkey = user, aes_iv = hybrid_iv, gcm_tag = tag, hc_data = cipher\<rparr> = Inr s"
    using hybrid_encode_total [of "\<lparr>user_pubkey = user, aes_iv = hybrid_iv, gcm_tag = tag, hc_data = cipher\<rparr>"]
      t assms(3) by (auto simp: hc_wf_def hybrid_iv_def)
  then show ?thesis
    using assms(1-6) ct k \<open>ct = _\<close>
    by (simp add: hybridEncrypt_def hybridEncrypt_with_def or_throw_def aes_gcm_256_enc_def GCM_TAG_LEN_def)
qed

lemma hybridEncrypt_plain:
  "hybridEncrypt C f_rng strerror pk msg g = Some (Inr s, g') \<Longrightarrow> squeeze s = s"
  by (auto simp: hybridEncrypt_def bind_res_Inr_iff hybrid_encode_plain split: option.splits)

lemma three_encrypts:
  assumes "length msg < 2 ^ 16"
  shows "\<exists>text. hybridEncrypt three_curve three_rng (\<lambda>e. []) (4 # replicate 63 0 @ [1]) msg 0 = Some (Inr text, 2)
    \<and> decrypt_query three_curve three_rng (\<lambda>e. []) (Inr 5) (Some 1) (bytes_of text) = Some (Inr (str_of msg))"
proof -
  let ?pk = "4 # replicate 63 0 @ [1] :: bytes"
  have "ecdh_gen_public three_curve three_rng 0 = Some (Inr (1, Affine 0 1), 2)" by code_simp
  moreover have "storePubkey three_curve (Affine 0 1) = Inr ?pk" by code_simp
  moreover have "loadPubkey three_curve ?pk = Inr (Affine 0 1)" by code_simp
  moreover have "ecdh_compute_shared three_curve None (Affine 0 1) 1 (2 :: nat) = Some (Inr 0, 2)" by code_simp
  moreover have "derived_key 0 = Inr (replicate 32 0)" by code_simp
  ultimately obtain s where e: "hybridEncrypt three_curve three_rng (\<lambda>e. []) ?pk msg 0 = Some (Inr s, 2)"
    using hybridEncrypt_ok [of three_curve three_rng 0 1 "Affine 0 1" 2 ?pk ?pk "Affine 0 1" 0
        "replicate 32 0" msg] assms by auto
  have pk: "tc_get_hybrid_pubkey three_curve (Some 1) = Inr (Inr ?pk)" by code_simp
  have r: "ecp_randomize_jac three_curve three_rng 0 0 5 = Some (Inr (), 6)" by code_simp
  have sp: "squeeze (str_of (bytes_of s)) = s" using hybridEncrypt_plain [OF e] by simp
  have "decrypt_query three_curve three_rng (\<lambda>e. []) (Inr 5) (Some 1) (bytes_of s) = Some (Inr (str_of msg))"
    by (rule query_roundtrip [OF three_laws three_size _ _ pk e _ r]) (use sp in \<open>auto simp: three_curve_def\<close>)
  then show ?thesis using e by auto
qed

lemma three_roundtrip:
  "\<exists>text. hybridEncrypt three_curve three_rng (\<lambda>e. []) (4 # replicate 63 0 @ [1]) [104, 105] 0 = Some (Inr text, 2)
    \<and> decrypt_query three_curve three_rng (\<lambda>e. []) (Inr 5) (Some 1) (bytes_of text) = Some (Inr ''hi'')"
proof -
  have "str_of [104, 105] = ''hi''" by code_simp
  then show ?thesis using three_encrypts [of "[104, 105]"] by simp
qed

text \<open>C34: An encrypted request reaches the enclave unchanged.  Whatever \<open>hybridEncrypt\<close> makes of a message
  for the public key that \<open>tc_get_hybrid_pubkey\<close> reports, \<open>decrypt_query\<close> on the provisioned key turns
  back into the message, also when white space was put into the text on the way; for any curve whose
  multiplication obeys \<open>curve_laws\<close> and whose coordinates take 32 bytes, provided only that the
  enclave's generator yields the blinding factor of its multiplication.\<close>

theorem hybrid_roundtrip:
  assumes "curve_laws C mult" and "mpi_size (gP C) = 32" and "1 \<le> d" "d < gN C"
    and "tc_get_hybrid_pubkey C (Some d) = Inr (Inr tc_pubkey)"
    and "hybridEncrypt C f_rng strerror tc_pubkey msg g = Some (Inr text, g1)"
    and "squeeze (str_of sent) = text"
    and "ecp_randomize_jac C f_rng' 0 0 g2 = Some (Inr (), gz)"
  shows "decrypt_query C f_rng' strerror (Inr g2) (Some d) sent = Some (Inr (str_of msg))"
  by (rule query_roundtrip [OF assms])

theorem hybrid_roundtrip_witness:
  "\<exists>text. hybridEncrypt three_curve three_rng (\<lambda>e. []) (4 # replicate 63 0 @ [1]) [104, 105] 0 = Some (Inr text, 2)
    \<and> decrypt_query three_curve three_rng (\<lambda>e. []) (Inr 5) (Some 1) (bytes_of text) = Some (Inr ''hi'')"
proof -
  obtain s where e: "hybridEncrypt three_curve three_rng (\<lambda>e. []) (4 # replicate 63 0 @ [1]) [104, 105] 0 = Some (Inr s, 2)"
    using three_encrypts [of "[104, 105]"] by auto
  have pk: "tc_get_hybrid_pubkey three_curve (Some 1) = Inr (Inr (4 # replicate 63 0 @ [1]))" by code_simp
  have r: "ecp_randomize_jac three_curve three_rng 0 0 5 = Some (Inr (), 6)" by code_simp
  have sp: "squeeze (str_of (bytes_of s)) = s" using hybridEncrypt_plain [OF e] by simp
  have "decrypt_query three_curve three_rng (\<lambda>e. []) (Inr 5) (Some 1) (bytes_of s) = Some (Inr (str_of [104, 105]))"
    by (rule hybrid_roundtrip [OF three_laws three_size _ _ pk e _ r]) (use sp in \<open>auto simp: three_curve_def\<close>)
  moreover have "str_of [104, 105] = ''hi''" by code_simp
  ultimately show ?thesis using e by auto
qed

text \<open>What a decrypted request is the encryption of, and what is thrown.\<close>

definition sealed_under :: "ecp_curve \<Rightarrow> int \<Rightarrow> hybrid_ciphertext \<Rightarrow> bytes \<Rightarrow> bool" where
  "sealed_under C d c m \<longleftrightarrow>
     (case loadPubkey C (user_pubkey c) of
        Inl e \<Rightarrow> False
      | Inr Q \<Rightarrow> ecp_check_pubkey C Q = 0 \<and> comb C d Q \<noteq> Zero \<and>
          (case mpi_write_binary (ecp_X (comb C d Q)) 32 of
             Inl e \<Rightarrow> False
           | Inr k \<Rightarrow>
               (case gcm_setkey k 256 of
                  Inl e \<Rightarrow> False
                | Inr ctx \<Rightarrow> gcm_crypt_and_tag ctx AES_ENCRYPT (aes_iv c) [] m 16 = Inr (hc_data c, gcm_tag c))))"

lemma hybrid_decode_wf: "hybrid_decode s = Inr c \<Longrightarrow> hc_wf c"
  by (auto simp: hybrid_decode_def hc_wf_def HEADER_LEN_def PUBLIC_KEY_SIZE_def AES_IV_LEN_def GCM_TAG_LEN_def
      split: option.splits if_splits)

lemma hybridDecrypt_sealed:
  assumes "hybridDecrypt C f_rng strerror c (Some d) g = Some (Inr m, g')" and "hc_wf c"
  shows "sealed_under C d c m"
proof -
  obtain Q z g1 key where l: "loadPubkey C (user_pubkey c) = Inr Q"
    and z: "ecdh_compute_shared C (Some f_rng) Q d g = Some (Inr z, g1)" and k: "derived_key z = Inr key"
    and m: "aes_gcm_256_dec strerror key (aes_iv c) (hc_data c) (gcm_tag c) = Inr m"
    using assms(1)
    by (auto simp: hybridDecrypt_def hybridDecrypt_with_def or_throw_Inr bind_res_Inr_iff split: sum.splits)
  obtain P g2 where v: "ecp_check_pubkey C Q = 0" and P: "ecp_mul C (Some f_rng) d Q g = Some (Inr P, g2)"
    and zP: "P \<noteq> Zero" "z = ecp_X P"
    using z by (auto simp: ecdh_compute_shared_def eff_bind_Some_Inr ecp_is_zero_def split: if_splits)
  obtain ctx where x: "gcm_setkey key 256 = Inr ctx" using key_32 by blast
  have "gcm_crypt_and_tag ctx AES_ENCRYPT (aes_iv c) [] m 16 = Inr (hc_data c, gcm_tag c)"
    using m x assms(2) gcm_auth_decrypt_iff [of "gcm_tag c" 16 ctx "aes_iv c" "[]" "hc_data c" m]
    by (auto simp: aes_gcm_256_dec_def GCM_TAG_LEN_def hc_wf_def split: sum.splits)
  then show ?thesis
    using l v zP k x ecp_mul_result [OF P] by (auto simp: sealed_under_def derived_key_def split: sum.splits)
qed

lemma as_decryption_exception_simps [simp]:
  "as_decryption_exception (Inr x) = Inr x"
  "as_decryption_exception (Inl UB) = Inl UB"
  "as_decryption_exception (Inl (Throw e)) = Inl (Throw (Decryption_exception (what e)))"
  by (simp_all add: as_decryption_exception_def)



text \<open>Requests without a full header.  A text that is the base64 form of fewer than 113 bytes is not
  rejected as such: when the text itself has fewer than 113 characters the decoder's buffer is read
  past its end, which is undefined; otherwise the negative length of the data is noticed by the
  vector, whose exception becomes a \<open>DecryptionException\<close>.\<close>

theorem decrypt_query_short:
  assumes "b64_ntop bs n = Some s" and "length bs < 113" and "queryPubkey C (Some d) = Inr pk"
  shows "decrypt_query C f_rng strerror (Inr g) (Some d) (bytes_of s)
    = Some (Inl (if length bs \<le> 84 then UB else Throw (Decryption_exception ''vector::_M_range_insert'')))"
proof -
  have s: "s = b64_enc bs" using assms(1) by (simp add: b64_ntop_eq split: if_splits)
  have sq: "squeeze s = s"
    using list_plain [of bs] s by (simp add: filter_id_conv)
  have len: "length s = 4 * ((length bs + 2) div 3)" using s by (simp add: length_b64_enc)
  then have le: "length bs \<le> length (replicate (length s) (0 :: byte))" by simp
  obtain t' where t': "b64_pton s (replicate (length s) 0) = Some (length bs, t')" "length t' = length s"
    using b64_pton_ntop [OF assms(1) sq le] by auto
  have cs: "c_str s = s" using text_plain [OF assms(1)] by simp
  have "length s < 113 \<longleftrightarrow> length bs \<le> 84" unfolding len by presburger
  then have "hybrid_decode s = Inl (if length bs \<le> 84 then UB else Throw (Std_exception ''vector::_M_range_insert''))"
    using t' assms(2) by (simp add: hybrid_decode_def cs HEADER_LEN_def PUBLIC_KEY_SIZE_def AES_IV_LEN_def GCM_TAG_LEN_def)
  then show ?thesis
    using assms(3) by (simp add: decrypt_query_def hybridEncryption_def cs)
qed

theorem decrypt_query_short_witness:
  "decrypt_query three_curve three_rng (\<lambda>e. []) (Inr 5) (Some 1) (bytes_of ''QUJD'') = Some (Inl UB)"
proof -
  have "b64_ntop [65, 66, 67] 8 = Some ''QUJD''" by code_simp
  moreover have "queryPubkey three_curve (Some 1) = Inr (Inr (4 # replicate 63 0 @ [1]))" by code_simp
  moreover have "length [65, 66, 67 :: byte] < 113" by simp
  ultimately show ?thesis
    using decrypt_query_short [of "[65, 66, 67]" 8 "''QUJD''" three_curve 1 _ three_rng "\<lambda>e. []" 5] by simp
qed

end
