(* ===== verification/Scraper_Base.thy ===== *)
theory Scraper_Base
  imports Picojson Hybrid_Cipher
begin

text \<open>
  What the scrapers share: their error codes, runs that may wait, throw or return, the pages fetched
  over HTTPS, the URL coding of \<open>scraper_utils.cpp\<close> and the query client of \<open>yahoo_yql.cpp\<close>.
\<close>

section \<open>Runs\<close>

text \<open>\<open>None\<close> is a run that does not return (a connection that stalls), as in \<^theory_text>\<open>Tls_Client\<close>.\<close>

type_synonym 'a run = "'a res option"

abbreviation return :: "'a \<Rightarrow> 'a run" where
  "return x \<equiv> Some (Inr x)"

abbreviation raise :: "exn \<Rightarrow> 'a run" where
  "raise e \<equiv> Some (Inl (Throw e))"

abbreviation undefined_run :: "'a run" where
  "undefined_run \<equiv> Some (Inl UB)"

definition bind_run :: "'a run \<Rightarrow> ('a \<Rightarrow> 'b run) \<Rightarrow> 'b run" where
  "bind_run m f = (case m of None \<Rightarrow> None | Some (Inl e) \<Rightarrow> Some (Inl e) | Some (Inr x) \<Rightarrow> f x)"

definition catch_run :: "'a run \<Rightarrow> (exn \<Rightarrow> 'a run) \<Rightarrow> 'a run" where
  "catch_run m h = (case m of Some (Inl (Throw e)) \<Rightarrow> h e | r \<Rightarrow> r)"

text \<open>The classes of exceptions the handlers name.\<close>

fun is_runtime_error :: "exn \<Rightarrow> bool" where
  "is_runtime_error (Runtime_error s) = True" | "is_runtime_error e = False"

fun is_invalid_argument :: "exn \<Rightarrow> bool" where
  "is_invalid_argument (Invalid_argument s) = True" | "is_invalid_argument e = False"

fun is_std_exception :: "exn \<Rightarrow> bool" where
  "is_std_exception Unknown_exception = False" | "is_std_exception e = True"

lemma bind_run_simps [simp]:
  "bind_run None f = None"
  "bind_run (Some (Inl e)) f = Some (Inl e)"
  "bind_run (return x) f = f x"
  by (simp_all add: bind_run_def)

lemma catch_run_simps [simp]:
  "catch_run None h = None"
  "catch_run undefined_run h = undefined_run"
  "catch_run (raise e) h = h e"
  "catch_run (return x) h = return x"
  by (simp_all add: catch_run_def)

lemma bind_run_return: "bind_run m f = return y \<longleftrightarrow> (\<exists>x. m = return x \<and> f x = return y)"
  by (auto simp: bind_run_def split: option.splits sum.splits)

section \<open>Error codes\<close>

datatype err_code = NO_ERROR | INVALID_PARAMS | WEB_ERROR | UNKNOWN_ERROR

section \<open>Pages\<close>

text \<open>
  What the TLS library does during a request: the results of seeding the generator and parsing the CA
  bundle in the constructor of the client, and those of the connection.
\<close>

type_synonym web = "HttpRequest \<Rightarrow> int \<times> int \<times> tls_results"

definition new_client :: "web \<Rightarrow> HttpRequest \<Rightarrow> unit run" where
  "new_client web req = (case web req of (seed, crt, tls) \<Rightarrow> Some (httpsClient seed crt))"

definition client_response :: "web \<Rightarrow> HttpRequest \<Rightarrow> HttpResponse run" where
  "client_response web req =
     (case web req of (seed, crt, tls) \<Rightarrow> bind_run (getResponse req tls) (\<lambda>(sent, r). return r))"

text \<open>The constructors of \<open>HttpRequest\<close>.\<close>

definition http_request :: "string \<Rightarrow> string \<Rightarrow> string list \<Rightarrow> bool \<Rightarrow> HttpRequest" where
  "http_request hst u hs http11 = \<lparr>host = hst, port = ''443'', url = u, headers = hs, isHttp11 = http11\<rparr>"

section \<open>Encrypted requests\<close>

text \<open>What \<open>decrypt_query\<close> depends on: the curve, the generator and its seeding, and the hybrid key.\<close>

record 'g query_keys =
  qk_curve :: ecp_curve
  qk_rng :: "'g rng"
  qk_strerror :: "int \<Rightarrow> string"
  qk_seed :: "int + 'g"
  qk_key :: g_key

definition query_text :: "'g query_keys \<Rightarrow> bytes \<Rightarrow> string run" where
  "query_text k data = decrypt_query (qk_curve k) (qk_rng k) (qk_strerror k) (qk_seed k) (qk_key k) data"

section \<open>URL coding\<close>

text \<open>\<open>isalnum\<close> of the C locale: the bytes above 127 are not alphanumeric.\<close>

definition isalnum :: "char \<Rightarrow> bool" where
  "isalnum c \<longleftrightarrow> is_digit c \<or> 65 \<le> (of_char c :: nat) \<and> of_char c \<le> (90 :: nat)
     \<or> 97 \<le> (of_char c :: nat) \<and> of_char c \<le> (122 :: nat)"

definition hex_upper :: string where
  "hex_upper = ''0123456789ABCDEF''"

definition url_from_hex :: "char \<Rightarrow> byte" where
  "url_from_hex ch = (if is_digit ch then byte_of_char ch - 48 else byte_of_char (lower ch) - 97 + 10)"

definition url_to_hex :: "nat \<Rightarrow> char" where
  "url_to_hex c = hex_upper ! (c mod 16)"

definition url_safe :: "char \<Rightarrow> bool" where
  "url_safe c \<longleftrightarrow> isalnum c \<or> c = CHR ''-'' \<or> c = CHR ''_'' \<or> c = CHR ''.'' \<or> c = CHR ''~'' \<or> c = CHR ''*''"

definition url_encode :: "string \<Rightarrow> string" where
  "url_encode str =
     concat (map (\<lambda>c.
       if url_safe c then [c]
       else if c = CHR '' '' then ''%20''
       else [CHR ''%'', url_to_hex (of_char c div 16), url_to_hex (of_char c mod 16)]) (c_str str))"

text \<open>The digits are chars; only the low eight bits of what is computed from them matter.\<close>

fun url_decode_loop :: "string \<Rightarrow> string" where
  "url_decode_loop [] = []"
| "url_decode_loop (c # s) =
     (if c = CHR ''%'' then
        (case s of
           a # b # t \<Rightarrow> char_of_byte (push_bit 4 (url_from_hex a) OR url_from_hex b) # url_decode_loop t
         | _ \<Rightarrow> url_decode_loop s)
      else (if c = CHR ''+'' then CHR '' '' else c) # url_decode_loop s)"

definition url_decode :: "string \<Rightarrow> string" where
  "url_decode str = c_str (url_decode_loop (c_str str))"

section \<open>Yahoo queries\<close>

datatype yql_format = JSON | XML

record YahooYQL =
  yql_q :: string
  yql_format :: yql_format
  yql_env :: string

text \<open>The parameters are kept in a \<open>std::map\<close>, so they come out in the order of their names.\<close>

definition yql_parameters :: "YahooYQL \<Rightarrow> (string \<times> string) list" where
  "yql_parameters y =
     [(''diagnostics'', ''false'')]
     @ (if yql_env y \<noteq> [] then [(''env'', url_encode (yql_env y))] else [])
     @ [(''format'', if yql_format y = JSON then ''json'' else ''xml''), (''q'', url_encode (yql_q y))]"

fun join_parameters :: "string \<Rightarrow> (string \<times> string) list \<Rightarrow> string" where
  "join_parameters query [] = query"
| "join_parameters query ((k, v) # ps) =
     join_parameters (query @ (if query = [] then [] else ''&'') @ k @ ''='' @ v) ps"

definition buildQuery :: "YahooYQL \<Rightarrow> string res" where
  "buildQuery y =
     (if yql_q y = [] then Inl (Throw (Invalid_argument ''q is empty''))
      else Inr (''/v1/public/yql?'' @ join_parameters [] (yql_parameters y)))"

text \<open>The code and, when it is \<open>NO_ERROR\<close>, the page.\<close>

definition yql_execute :: "web \<Rightarrow> YahooYQL \<Rightarrow> (err_code \<times> string) run" where
  "yql_execute web y =
     bind_run (Some (buildQuery y)) (\<lambda>query.
     let req = http_request ''query.yahooapis.com'' query [] True in
     bind_run (new_client web req) (\<lambda>_.
       catch_run (bind_run (client_response web req) (\<lambda>r. return (NO_ERROR, content r)))
         (\<lambda>e. if is_runtime_error e then return (WEB_ERROR, []) else raise e)))"

section \<open>The coding is faithful\<close>

lemma below_16: "(\<forall>k < 16. P (k :: nat)) \<longleftrightarrow> list_all P [0, 1, 2, 3, 4, 5, 6, 7, 8, 9, 10, 11, 12, 13, 14, 15]"
proof -
  have "{k. k < (16 :: nat)} = set [0, 1, 2, 3, 4, 5, 6, 7, 8, 9, 10, 11, 12, 13, 14, 15]" by (auto, arith)
  then show ?thesis unfolding list_all_iff by blast
qed

lemma hex_nibble:
  "k < 16 \<Longrightarrow> url_from_hex (url_to_hex k) = word_of_nat k"
proof -
  have "\<forall>k < 16. url_from_hex (url_to_hex k) = word_of_nat k"
    unfolding below_16 by (simp add: url_from_hex_def url_to_hex_def hex_upper_def is_digit_def lower_def byte_of_char_def)
  then show "k < 16 \<Longrightarrow> ?thesis" by blast
qed

lemma hex_pair:
  "char_of_byte (push_bit 4 (url_from_hex (url_to_hex (of_char c div 16))) OR url_from_hex (url_to_hex (of_char c mod 16))) = c"
proof -
  define n where "n = (of_char c :: nat)"
  have n: "n < 256" using byte_lt_256 [of "byte_of_char c"] by (simp add: unat_byte_of_char n_def)
  have t: "word_of_nat (n mod 16) = (take_bit 4 (word_of_nat n) :: byte)"
    unfolding take_bit_of_nat by (simp add: take_bit_eq_mod)
  have "push_bit 4 (word_of_nat (n div 16)) OR word_of_nat (n mod 16)
      = push_bit 4 (word_of_nat (n div 16)) + (word_of_nat (n mod 16) :: byte)"
    unfolding t by (rule disjunctive_add [symmetric]) (simp add: bit_simps)
  also have "\<dots> = word_of_nat (16 * (n div 16) + n mod 16)"
    unfolding of_nat_add of_nat_mult by (simp add: push_bit_eq_mult)
  also have "\<dots> = byte_of_char c" by (simp add: byte_of_char_def n_def)
  finally show ?thesis using n by (simp add: n_def [symmetric] hex_nibble)
qed

lemma url_coding: "url_decode_loop (concat (map (\<lambda>c.
       if url_safe c then [c] else if c = CHR '' '' then ''%20''
       else [CHR ''%'', url_to_hex (of_char c div 16), url_to_hex (of_char c mod 16)]) s)) = s"
proof (induction s)
  case (Cons c s)
  have "\<not> url_safe CHR ''%''" "\<not> url_safe CHR ''+''" by (simp_all add: url_safe_def isalnum_def is_digit_def)
  moreover have "char_of_byte (push_bit 4 (url_from_hex CHR ''2'') OR url_from_hex CHR ''0'') = CHR '' ''" by code_simp
  ultimately show ?case using Cons hex_pair [of c] by auto
qed simp

definition url_char :: "char \<Rightarrow> bool" where
  "url_char c \<longleftrightarrow> url_safe c \<or> c = CHR ''%''"

lemma url_to_hex_char: "url_char (url_to_hex k)"
proof -
  have "\<forall>k < 16. url_char (hex_upper ! k)"
    unfolding below_16 by code_simp
  then show ?thesis unfolding url_to_hex_def by simp
qed

lemma list_all_concat_map: "(\<And>c. list_all P (f c)) \<Longrightarrow> list_all P (concat (map f s))"
  by (induction s) simp_all

lemma url_encode_chars: "list_all url_char (url_encode s)"
proof -
  have sp: "list_all url_char ''%20''" and pc: "url_char CHR ''%''" by code_simp+
  have "list_all url_char (if url_safe c then [c] else if c = CHR '' '' then ''%20''
       else [CHR ''%'', url_to_hex (of_char c div 16), url_to_hex (of_char c mod 16)])" for c
    using sp pc url_to_hex_char by (simp add: url_char_def)
  then show ?thesis unfolding url_encode_def by (rule list_all_concat_map)
qed

lemma url_encode_no_nul: "NUL \<notin> set (url_encode s)"
  using url_encode_chars [of s] by (auto simp: list_all_iff url_char_def url_safe_def isalnum_def is_digit_def)

text \<open>C11: What a requester writes stays inside its query parameter.  The URL coding is undone exactly by the
  decoding (up to the NUL at which a C string ends), and it lets through only letters, digits, the five
  safe marks and the percent sign, so a value can neither end its parameter nor the request line.\<close>

theorem url_roundtrip:
  "url_decode (url_encode s) = c_str s
   \<and> list_all (\<lambda>c. isalnum c \<or> c \<in> set ''-_.~*%'') (url_encode s)"
proof
  have "c_str (url_encode s) = url_encode s" by (rule c_str_id [OF url_encode_no_nul])
  moreover have "url_decode_loop (url_encode s) = c_str s" unfolding url_encode_def by (rule url_coding)
  ultimately show "url_decode (url_encode s) = c_str s" by (simp add: url_decode_def c_str_no_nul)
  show "list_all (\<lambda>c. isalnum c \<or> c \<in> set ''-_.~*%'') (url_encode s)"
    using url_encode_chars [of s] by (auto simp: list_all_iff url_char_def url_safe_def)
qed

end
