(* ===== verification/Gmtime.thy ===== *)
theory Gmtime
  imports Prelude
begin

text \<open>
  The calendar of the stock scraper (\<open>external/gmtime.cpp\<close>, \<open>loc_time.h\<close>): a time in seconds broken down
  into a date, with the Gregorian day number it has to agree with.
\<close>

section \<open>The code\<close>

definition SECS_DAY :: nat where "SECS_DAY = 24 * 60 * 60"
definition EPOCH_YR :: int where "EPOCH_YR = 1970"
definition YEAR0 :: int where "YEAR0 = 1900"
definition INT_MAX :: int where "INT_MAX = 2147483647"

definition LEAPYEAR :: "int \<Rightarrow> bool" where
  "LEAPYEAR year \<longleftrightarrow> year mod 4 = 0 \<and> (year mod 100 \<noteq> 0 \<or> year mod 400 = 0)"

definition YEARSIZE :: "int \<Rightarrow> nat" where
  "YEARSIZE year = (if LEAPYEAR year then 366 else 365)"

definition ytab :: "bool \<Rightarrow> nat list" where
  "ytab leap = [31, if leap then 29 else 28, 31, 30, 31, 30, 31, 31, 30, 31, 30, 31]"

record tm =
  tm_sec :: int
  tm_min :: int
  tm_hour :: int
  tm_mday :: int
  tm_mon :: int
  tm_year :: int
  tm_wday :: int
  tm_yday :: int
  tm_isdst :: int

record date =
  year :: int
  month :: int
  day :: int

text \<open>
  The loop over the years.  \<open>dayno\<close> is an \<open>unsigned long\<close> that only decreases; \<open>year\<close> is an \<open>int\<close>, so
  counting past its largest value is undefined.
\<close>

function year_loop :: "nat \<Rightarrow> int \<Rightarrow> (nat \<times> int) res" where
  "year_loop dayno yr =
     (if YEARSIZE yr \<le> dayno
      then if yr = INT_MAX then Inl UB else year_loop (dayno - YEARSIZE yr) (yr + 1)
      else Inr (dayno, yr))"
  by pat_completeness auto
termination
  by (relation "measure fst") (auto simp: YEARSIZE_def split: if_splits)

declare year_loop.simps [simp del]

text \<open>The loop over the months; the table has twelve entries.\<close>

function month_loop :: "bool \<Rightarrow> nat \<Rightarrow> nat \<Rightarrow> (nat \<times> nat) res" where
  "month_loop leap dayno mon =
     (if mon \<ge> length (ytab leap) then Inl UB
      else if ytab leap ! mon \<le> dayno then month_loop leap (dayno - ytab leap ! mon) (mon + 1)
      else Inr (dayno, mon))"
  by pat_completeness auto
termination
  by (relation "measure (\<lambda>(leap, dayno, mon). length (ytab leap) - mon)") auto

declare month_loop.simps [simp del]

text \<open>The broken-down time that \<open>gmtime_tc\<close> builds, and the date it hands out.\<close>

definition broken_down :: "u64 \<Rightarrow> tm res" where
  "broken_down time =
     (let dayclock = unat time mod SECS_DAY;
          dayno = unat time div SECS_DAY
      in bind_res (year_loop dayno EPOCH_YR) (\<lambda>(dayno', yr).
         bind_res (month_loop (LEAPYEAR yr) dayno' 0) (\<lambda>(dayno'', mon).
           Inr \<lparr>tm_sec = int (dayclock mod 60), tm_min = int (dayclock mod 3600 div 60),
                tm_hour = int (dayclock div 3600), tm_mday = int dayno'' + 1, tm_mon = int mon,
                tm_year = yr - YEAR0, tm_wday = int ((dayno + 4) mod 7), tm_yday = int dayno', tm_isdst = 0\<rparr>)))"

definition gmtime_tc :: "u64 \<Rightarrow> date res" where
  "gmtime_tc time =
     bind_res (broken_down time) (\<lambda>t. Inr \<lparr>year = tm_year t + YEAR0, month = tm_mon t + 1, day = tm_mday t\<rparr>)"

section \<open>The Gregorian calendar\<close>

text \<open>Days from 1 January 1970 to 1 January of a year, in closed form, and the number of a date.\<close>

definition days_to_year :: "int \<Rightarrow> int" where
  "days_to_year y = 365 * (y - 1970) + ((y - 1) div 4 - (y - 1) div 100 + (y - 1) div 400) - 477"

definition day_number :: "date \<Rightarrow> int" where
  "day_number d = days_to_year (year d)
     + int (sum_list (take (nat (month d) - 1) (ytab (LEAPYEAR (year d))))) + (day d - 1)"

definition valid_date :: "date \<Rightarrow> bool" where
  "valid_date d \<longleftrightarrow> 1 \<le> month d \<and> month d \<le> 12
     \<and> 1 \<le> day d \<and> day d \<le> int (ytab (LEAPYEAR (year d)) ! (nat (month d) - 1))"

lemma div_step: "0 < k \<Longrightarrow> (y :: int) div k = (y - 1) div k + (if y mod k = 0 then 1 else 0)"
proof -
  assume k: "0 < k"
  have y: "y = k * (y div k) + y mod k" by simp
  have r: "0 \<le> y mod k" "y mod k < k" using k by simp_all
  show ?thesis
  proof (cases "y mod k = 0")
    case True
    have "(y - 1) div k = (k * (y div k - 1) + (k - 1)) div k" using y True by (simp add: algebra_simps)
    also have "\<dots> = y div k - 1" using k by (subst div_mult_self4) (simp_all add: div_pos_pos_trivial)
    finally show ?thesis using True by simp
  next
    case False
    have "(y - 1) div k = (k * (y div k) + (y mod k - 1)) div k" using y by (metis add_diff_eq)
    also have "\<dots> = y div k" using k r False by (subst div_mult_self4) (simp_all add: div_pos_pos_trivial)
    finally show ?thesis using False by simp
  qed
qed

lemma leap_cases: "(y :: int) mod 400 = 0 \<Longrightarrow> y mod 100 = 0" "(y :: int) mod 100 = 0 \<Longrightarrow> y mod 4 = 0"
proof -
  show "y mod 100 = 0" if "y mod 400 = 0"
    using that mod_mod_cancel [of 100 400 y] by simp
  show "y mod 4 = 0" if "y mod 100 = 0"
    using that mod_mod_cancel [of 4 100 y] by simp
qed

lemma leap_sum:
  "(p400 \<longrightarrow> p100) \<Longrightarrow> (p100 \<longrightarrow> p4) \<Longrightarrow>
   a + (if p4 then 1 else 0) - (b + (if p100 then 1 else 0)) + (c + (if p400 then 1 else 0))
     = a - b + c + (if p4 \<and> (\<not> p100 \<or> p400) then 1 else 0 :: int)"
  by (cases p4; cases p100; cases p400) simp_all

lemma days_to_year_Suc: "days_to_year (y + 1) = days_to_year y + int (YEARSIZE y)"
proof -
  define a b c where "a = (y - 1) div 4" and "b = (y - 1) div 100" and "c = (y - 1) div 400"
  have d: "y div 4 = a + (if y mod 4 = 0 then 1 else 0)" "y div 100 = b + (if y mod 100 = 0 then 1 else 0)"
    "y div 400 = c + (if y mod 400 = 0 then 1 else 0)"
    unfolding a_def b_def c_def by (rule div_step; simp)+
  let ?l = "if LEAPYEAR y then 1 else 0 :: int"
  have "y div 4 - y div 100 + y div 400 = a - b + c + ?l"
    unfolding d LEAPYEAR_def by (rule leap_sum) (use leap_cases [of y] in blast)+
  then have "days_to_year (y + 1) = 365 * (y + 1 - 1970) + (a - b + c + ?l) - 477"
    unfolding days_to_year_def add_diff_cancel_right' by (simp only:)
  moreover have "days_to_year y = 365 * (y - 1970) + (a - b + c) - 477"
    by (simp add: days_to_year_def a_def b_def c_def)
  moreover have "int (YEARSIZE y) = 365 + ?l"
    by (simp add: YEARSIZE_def)
  ultimately show ?thesis by (simp only: ring_distribs)
qed

lemma days_to_1970 [simp]: "days_to_year 1970 = 0"
  by (simp add: days_to_year_def)

lemma days_to_year_mono: "a \<le> b \<Longrightarrow> days_to_year a \<le> days_to_year b"
proof (induction "nat (b - a)" arbitrary: b)
  case (Suc n)
  then have "days_to_year a \<le> days_to_year (b - 1)" by simp
  then show ?case using days_to_year_Suc [of "b - 1"] by simp
qed simp

section \<open>The loops compute it\<close>

lemma year_loop_from:
  "a \<le> y \<Longrightarrow> y \<le> INT_MAX \<Longrightarrow> r < YEARSIZE y \<Longrightarrow>
   year_loop (nat (days_to_year y - days_to_year a) + r) a = Inr (r, y)"
proof (induction "nat (y - a)" arbitrary: a)
  case 0
  then show ?case by (simp add: year_loop.simps)
next
  case (Suc n)
  then have lt: "a < y" by simp
  have m: "days_to_year (a + 1) \<le> days_to_year y" using lt by (intro days_to_year_mono) simp
  have e: "nat (days_to_year y - days_to_year a) + r
      = YEARSIZE a + (nat (days_to_year y - days_to_year (a + 1)) + r)"
    using m by (simp add: days_to_year_Suc)
  have "year_loop (nat (days_to_year y - days_to_year a) + r) a
      = year_loop (nat (days_to_year y - days_to_year (a + 1)) + r) (a + 1)"
    unfolding e by (subst year_loop.simps) (use lt Suc.prems(2) in simp)
  then show ?case using Suc by simp
qed

lemma year_loop_overflow:
  "a \<le> INT_MAX \<Longrightarrow> days_to_year (INT_MAX + 1) - days_to_year a \<le> int dayno \<Longrightarrow> year_loop dayno a = Inl UB"
proof (induction "nat (INT_MAX - a)" arbitrary: a dayno)
  case 0
  then have "a = INT_MAX" by simp
  then show ?case using 0 by (simp add: year_loop.simps days_to_year_Suc)
next
  case (Suc n)
  have m: "days_to_year (a + 1) \<le> days_to_year (INT_MAX + 1)" using Suc by (intro days_to_year_mono) simp
  then have le: "YEARSIZE a \<le> dayno" using Suc by (simp add: days_to_year_Suc)
  have "year_loop dayno a = year_loop (dayno - YEARSIZE a) (a + 1)"
    using Suc.hyps(2) le by (subst year_loop.simps) auto
  also have "\<dots> = Inl UB"
    using Suc le by (intro Suc.hyps(1)) (auto simp: days_to_year_Suc)
  finally show ?case .
qed

lemma month_loop_from:
  "a + k < length (ytab leap) \<Longrightarrow> r < ytab leap ! (a + k) \<Longrightarrow>
   month_loop leap (sum_list (take k (drop a (ytab leap))) + r) a = Inr (r, a + k)"
proof (induction k arbitrary: a)
  case 0
  then show ?case by (simp add: month_loop.simps)
next
  case (Suc k)
  then have d: "drop a (ytab leap) = ytab leap ! a # drop (Suc a) (ytab leap)"
    by (simp add: Cons_nth_drop_Suc)
  show ?case
    using Suc.prems Suc.IH [of "Suc a"] by (subst month_loop.simps) (simp add: d)
qed

lemma length_ytab [simp]: "length (ytab leap) = 12"
  by (simp add: ytab_def)

lemma sum_ytab: "sum_list (ytab (LEAPYEAR y)) = YEARSIZE y"
  by (simp add: ytab_def YEARSIZE_def)

lemma sum_months:
  "m < 12 \<Longrightarrow> r < ytab (LEAPYEAR y) ! m \<Longrightarrow> sum_list (take m (ytab (LEAPYEAR y))) + r < YEARSIZE y"
proof -
  assume m: "m < 12" and r: "r < ytab (LEAPYEAR y) ! m"
  have "sum_list (take (Suc m) (ytab (LEAPYEAR y))) \<le> sum_list (ytab (LEAPYEAR y))"
    by (metis append_take_drop_id le_add1 sum_list_append)
  then show ?thesis using m r by (simp add: sum_ytab take_Suc_conv_app_nth)
qed

lemma day_split: "s < SECS_DAY \<Longrightarrow> (SECS_DAY * n + s) div SECS_DAY = n" "s < SECS_DAY \<Longrightarrow> (SECS_DAY * n + s) mod SECS_DAY = s"
  by simp_all

lemma broken_down_date:
  assumes "valid_date d" "1970 \<le> year d" "year d \<le> INT_MAX" "s < SECS_DAY"
    and t: "unat t = SECS_DAY * nat (day_number d) + s"
  shows "gmtime_tc t = Inr d"
proof -
  define m where "m = nat (month d) - 1"
  define k where "k = nat (day d) - 1"
  let ?l = "LEAPYEAR (year d)"
  have m: "m < 12" "month d = int m + 1" and k: "k < ytab ?l ! m" "day d = int k + 1"
    using assms(1) by (auto simp: valid_date_def m_def k_def)
  define r where "r = sum_list (take m (ytab ?l)) + k"
  have r: "r < YEARSIZE (year d)" unfolding r_def by (rule sum_months [OF m(1) k(1)])
  have y0: "0 \<le> days_to_year (year d)" using days_to_year_mono [OF assms(2)] by simp
  have "day_number d = days_to_year (year d) + int r"
    using k(2) unfolding day_number_def m_def [symmetric] r_def by simp
  then have n: "nat (day_number d) = nat (days_to_year (year d)) + r" using y0 by simp
  have q: "unat t div SECS_DAY = nat (days_to_year (year d)) + r"
    unfolding t day_split(1) [OF assms(4)] by (rule n)
  have "year_loop (unat t div SECS_DAY) EPOCH_YR = Inr (r, year d)"
    using year_loop_from [of 1970 "year d" r] assms(2,3) r q by (simp add: EPOCH_YR_def)
  moreover have "month_loop ?l r 0 = Inr (k, m)"
    using month_loop_from [of 0 m ?l k] m k by (simp add: r_def)
  ultimately show ?thesis
    using m k by (simp add: gmtime_tc_def broken_down_def Let_def YEAR0_def)
qed

text \<open>Every day number belongs to a date.\<close>

lemma month_of: "n < sum_list (take k xs) \<Longrightarrow> k \<le> length xs \<Longrightarrow>
   \<exists>m r. m < k \<and> r < (xs ! m :: nat) \<and> n = sum_list (take m xs) + r"
proof (induction k)
  case (Suc k)
  show ?case
  proof (cases "n < sum_list (take k xs)")
    case True
    then show ?thesis using Suc by (meson Suc_leD less_SucI)
  next
    case False
    then obtain r where "n = sum_list (take k xs) + r" by (metis le_Suc_ex not_less)
    then show ?thesis using Suc.prems by (intro exI [of _ k] exI [of _ r]) (simp add: take_Suc_conv_app_nth)
  qed
qed simp

lemma year_of: "0 \<le> n \<Longrightarrow> n < days_to_year (1970 + int k) \<Longrightarrow>
   \<exists>y. 1970 \<le> y \<and> y < 1970 + int k \<and> days_to_year y \<le> n \<and> n < days_to_year (y + 1)"
proof (induction k)
  case (Suc k)
  show ?case
  proof (cases "n < days_to_year (1970 + int k)")
    case True
    then show ?thesis using Suc by force
  next
    case False
    then show ?thesis using Suc.prems by (intro exI [of _ "1970 + int k"]) (simp add: algebra_simps)
  qed
qed simp

lemma date_of_day:
  assumes "int n < days_to_year (INT_MAX + 1)"
  obtains d where "valid_date d" "1970 \<le> year d" "year d \<le> INT_MAX" "day_number d = int n"
proof -
  obtain y where y: "1970 \<le> y" "y \<le> INT_MAX" "days_to_year y \<le> int n" "int n < days_to_year (y + 1)"
    using year_of [of "int n" "nat (INT_MAX - 1969)"] assms by (auto simp: INT_MAX_def)
  define r where "r = nat (int n - days_to_year y)"
  have r: "r < YEARSIZE y" "int n = days_to_year y + int r" using y by (simp_all add: r_def days_to_year_Suc)
  have "r < sum_list (take 12 (ytab (LEAPYEAR y)))" using r(1) by (simp add: sum_ytab)
  then obtain m k where m: "m < 12" "k < ytab (LEAPYEAR y) ! m" "r = sum_list (take m (ytab (LEAPYEAR y))) + k"
    using month_of [of r 12 "ytab (LEAPYEAR y)"] by auto
  have "nat (int m + 1) - Suc 0 = m" by simp
  then show thesis
    using that [of "\<lparr>year = y, month = int m + 1, day = int k + 1\<rparr>"] y r m
    by (simp add: valid_date_def day_number_def)
qed

lemma day_number_year: "valid_date d \<Longrightarrow> days_to_year (year d) \<le> day_number d"
  by (simp add: day_number_def valid_date_def)

section \<open>Property\<close>

text \<open>C10: The stock scraper asks for the right day.  Every second of every day of the Gregorian calendar from
  1970 to the last year an \<open>int\<close> holds is turned into exactly that date, and every later time,
  that is, every negative \<open>time_t\<close> read as unsigned among them, runs the year counter past \<open>INT_MAX\<close>.\<close>

theorem gmtime_correct:
  assumes "s < SECS_DAY" "unat t = SECS_DAY * n + s"
  shows "if int n < days_to_year (INT_MAX + 1)
    then \<forall>d. gmtime_tc t = Inr d \<longleftrightarrow> valid_date d \<and> 1970 \<le> year d \<and> day_number d = int n
    else gmtime_tc t = Inl UB"
proof (cases "int n < days_to_year (INT_MAX + 1)")
  case True
  obtain d0 where d0: "valid_date d0" "1970 \<le> year d0" "year d0 \<le> INT_MAX" "day_number d0 = int n"
    using date_of_day [OF True] .
  have good: "gmtime_tc t = Inr d" if "valid_date d" "1970 \<le> year d" "day_number d = int n" for d
  proof (rule broken_down_date [OF that(1,2) _ assms(1)])
    show "year d \<le> INT_MAX"
      using day_number_year [OF that(1)] days_to_year_mono [of "INT_MAX + 1" "year d"] True that(3) by linarith
    show "unat t = SECS_DAY * nat (day_number d) + s" using assms(2) that(3) by simp
  qed
  have "gmtime_tc t = Inr d0" by (rule good [OF d0(1,2,4)])
  then show ?thesis using True good d0 by (metis Inr_inject)
next
  case False
  have "unat t div SECS_DAY = n" unfolding assms(2) by (rule day_split [OF assms(1)])
  moreover have "year_loop n EPOCH_YR = Inl UB"
    by (rule year_loop_overflow) (use False in \<open>simp_all add: EPOCH_YR_def INT_MAX_def\<close>)
  ultimately show ?thesis using False by (simp add: gmtime_tc_def broken_down_def Let_def)
qed

theorem gmtime_correct_witness:
  "gmtime_tc 1492100100 = Inr \<lparr>year = 2017, month = 4, day = 13\<rparr>"
proof -
  have "(58500 :: nat) < SECS_DAY" "unat (1492100100 :: u64) = SECS_DAY * 17269 + 58500"
    by (simp_all add: SECS_DAY_def)
  moreover have "int 17269 < days_to_year (INT_MAX + 1)" by code_simp
  moreover have "valid_date \<lparr>year = 2017, month = 4, day = 13\<rparr>" "day_number \<lparr>year = 2017, month = 4, day = 13\<rparr> = 17269"
    by code_simp+
  ultimately show ?thesis using gmtime_correct [of 58500 1492100100 17269] by simp
qed

end
