(* ===== verification/Scrapers.thy ===== *)
theory Scrapers
  imports Scraper_Base Gmtime
begin

text \<open>
  The scrapers for fees, prices, weather, questions, stocks, parcels and trades (\<open>bitcoinfees.cpp\<close>,
  \<open>coinmarketcap.cpp\<close>, \<open>current_weather.cpp\<close>, \<open>wolfram.cpp\<close>, \<open>yahoo_yql_stock.h\<close>,
  \<open>ups_tracking.cpp\<close>, \<open>steam2.cpp\<close>): each handler with its request, the reading of the answer and
  every exception it catches or lets through.  Handlers take \<open>*resp_data\<close> and give it back.
\<close>

section \<open>Words of a request\<close>

text \<open>\<open>string(string(req + k, req + k + 0x20).c_str())\<close>.\<close>

definition request_word :: "nat \<Rightarrow> bytes \<Rightarrow> string" where
  "request_word k req = c_str (str_of (take 0x20 (drop k req)))"

definition atof :: "string \<Rightarrow> double" where
  "atof s = fst (strtod (c_str s))"

text \<open>\<open>obj.find(key)->second\<close> on the object in a value: the end iterator is not checked.\<close>

definition find_second :: "string \<Rightarrow> json \<Rightarrow> json res" where
  "find_second k v =
     bind_res (get_object v) (\<lambda>ob. case map_of ob k of None \<Rightarrow> Inl UB | Some u \<Rightarrow> Inr u)"

section \<open>Bitcoin fees\<close>

record RecommendedFees =
  fastestFee :: i32
  halfHourFee :: i32
  hourFee :: i32

definition fees_request :: HttpRequest where
  "fees_request = http_request ''bitcoinfees.earn.com'' ''/api/v1/fees/recommended'' [] True"

definition read_fee :: "string \<Rightarrow> json \<Rightarrow> i32 res" where
  "read_fee k v = bind_res (get_key k v) (\<lambda>x. bind_res (get_double x) (\<lambda>d. Inr (double_to_int d)))"

text \<open>The last \<open>try\<close> block: an exception leaves the fields that were not yet assigned as they were.\<close>

definition assign_fees :: "json \<Rightarrow> RecommendedFees \<Rightarrow> RecommendedFees" where
  "assign_fees v result =
     (if \<not> is_object v then result
      else case read_fee ''fastestFee'' v of Inl e \<Rightarrow> result | Inr a \<Rightarrow>
        let result = result\<lparr>fastestFee := a\<rparr> in
        case read_fee ''halfHourFee'' v of Inl e \<Rightarrow> result | Inr b \<Rightarrow>
          let result = result\<lparr>halfHourFee := b\<rparr> in
          case read_fee ''hourFee'' v of Inl e \<Rightarrow> result | Inr c \<Rightarrow> result\<lparr>hourFee := c\<rparr>)"

definition get_recommended_fees :: "web \<Rightarrow> RecommendedFees \<Rightarrow> RecommendedFees run" where
  "get_recommended_fees web result =
     bind_run (new_client web fees_request) (\<lambda>_.
     bind_run (client_response web fees_request) (\<lambda>r.
       if statusCode r \<noteq> 200 then return result
       else bind_run (Some (json_parse (content r))) (\<lambda>(err_msg, v).
         if err_msg \<noteq> [] then return result else return (assign_fees v result))))"

text \<open>What the handlers of a whole scraper make of an exception.\<close>

definition classify :: "exn \<Rightarrow> err_code" where
  "classify e =
     (if is_invalid_argument e then INVALID_PARAMS else if is_std_exception e then WEB_ERROR else INVALID_PARAMS)"

text \<open>\<open>RecommendedFees fees;\<close> has no initialiser: \<open>junk\<close> is what is on the stack.\<close>

definition fees_handle :: "web \<Rightarrow> RecommendedFees \<Rightarrow> bytes \<Rightarrow> i32 \<Rightarrow> (err_code \<times> i32) run" where
  "fees_handle web junk request_data response_data =
     catch_run (bind_run (get_recommended_fees web junk) (\<lambda>fees. return (NO_ERROR, fastestFee fees)))
       (\<lambda>e. return (classify e, response_data))"

section \<open>Coin prices\<close>

fun find_from :: "string \<Rightarrow> string \<Rightarrow> nat option" where
  "find_from p [] = (if p = [] then Some 0 else None)"
| "find_from p (c # s) = (if prefix_of p (c # s) then Some 0 else map_option Suc (find_from p s))"

definition PRICE_MARK :: string where
  "PRICE_MARK = ''price_usd'' @ [CHR 0x22] @ '': '' @ [CHR 0x22]"

text \<open>The search for the closing quote does not stop at the end of the page.\<close>

definition manual_parse_response :: "string \<Rightarrow> double res" where
  "manual_parse_response resp =
     (case find_from PRICE_MARK resp of
        None \<Rightarrow> Inr (Finite False 0 (- 1074))
      | Some pos \<Rightarrow>
          let temp = drop (pos + 13) resp in
          if CHR 0x22 \<notin> set temp then Inl UB else Inr (fst (strtod temp)))"

definition coin_request :: "string \<Rightarrow> HttpRequest" where
  "coin_request token_name = http_request ''api.coinmarketcap.com'' (''/v1/ticker/'' @ token_name @ ''/'') [] True"

text \<open>The price in a parsed page.\<close>

definition coin_error :: "json \<Rightarrow> string res" where
  "coin_error v =
     bind_res (get_key ''error'' v) (\<lambda>e.
       if is_string e then bind_res (get_string e) (\<lambda>s. Inr (''coinmarket return error: '' @ c_str s))
       else Inr (''coinmarket return error: '' @ ''unknown''))"

definition coin_no_price :: "json \<Rightarrow> i32 res" where
  "coin_no_price v =
     (if is_object v then
        bind_res (contains_key ''error'' v) (\<lambda>b.
          if b then bind_res (coin_error v) (\<lambda>m. Inl (Throw (Invalid_argument m)))
          else Inl (Throw (Invalid_argument ''invalid response'')))
      else Inl (Throw (Invalid_argument ''invalid response'')))"

definition coin_price :: "json \<Rightarrow> i32 res" where
  "coin_price v =
     (case v of
        JArray [item] \<Rightarrow>
          bind_res (contains_key ''price_usd'' item) (\<lambda>b.
            if \<not> b then coin_no_price v
            else bind_res (get_key ''price_usd'' item) (\<lambda>p.
              if is_string p then bind_res (get_string p) (\<lambda>s. Inr (double_to_int (atof s)))
              else coin_no_price v))
      | _ \<Rightarrow> coin_no_price v)"

definition coin_getprice :: "web \<Rightarrow> string \<Rightarrow> i32 run" where
  "coin_getprice web token_name =
     (let req = coin_request token_name in
      bind_run (new_client web req) (\<lambda>_.
      bind_run (client_response web req) (\<lambda>response.
      bind_run (Some (json_parse (content response))) (\<lambda>(err_msg, v).
        if err_msg \<noteq> [] then
          bind_run (Some (manual_parse_response (c_str (content response)))) (\<lambda>result.
            if nonzero result then return (double_to_int result) else Some (coin_price v))
        else Some (coin_price v)))))"

definition coin_handle :: "web \<Rightarrow> bytes \<Rightarrow> i32 \<Rightarrow> (err_code \<times> i32) run" where
  "coin_handle web req resp_data =
     (if length req \<noteq> 32 then return (INVALID_PARAMS, resp_data)
      else catch_run (bind_run (coin_getprice web (request_word 0 req)) (\<lambda>price. return (NO_ERROR, price)))
             (\<lambda>e. return (classify e, resp_data)))"

section \<open>Weather\<close>

datatype WeatherQuery = WOEID | CITYNAME | LATLONG

definition set_qtype :: "int \<Rightarrow> WeatherQuery \<Rightarrow> WeatherQuery" where
  "set_qtype t old = (if t = 1 then WOEID else if t = 2 then CITYNAME else if t = 3 then LATLONG else old)"

definition construct_query :: "WeatherQuery \<Rightarrow> string \<Rightarrow> string" where
  "construct_query qt request =
     (case qt of
        WOEID \<Rightarrow> ''select item.condition from weather.forecast where woeid = '' @ request
      | CITYNAME \<Rightarrow> ''select item.condition from weather.forecast where woeid in (select woeid from geo.places(1) where text=''
          @ [CHR 0x22] @ request @ [CHR 0x22] @ '')''
      | LATLONG \<Rightarrow> [])"

definition YQL_ENV :: string where
  "YQL_ENV = ''store://datatables.org/alltableswithkeys''"

text \<open>The temperature in a parsed page: \<open>None\<close> when the results are null.\<close>

definition weather_temperature :: "json \<Rightarrow> i32 option res" where
  "weather_temperature v =
     bind_res (find_second ''query'' v) (\<lambda>v1.
     bind_res (find_second ''results'' v1) (\<lambda>v2.
     if is_null v2 then Inr None
     else bind_res (find_second ''channel'' v2) (\<lambda>v3.
          bind_res (find_second ''item'' v3) (\<lambda>v4.
          bind_res (find_second ''condition'' v4) (\<lambda>v5.
          bind_res (find_second ''temp'' v5) (\<lambda>v6.
          bind_res (get_string v6) (\<lambda>temperature. Inr (Some (atoi (c_str temperature))))))))))"

definition weather_current :: "web \<Rightarrow> WeatherQuery \<Rightarrow> string \<Rightarrow> i32 \<Rightarrow> (err_code \<times> i32) run" where
  "weather_current web qt request r =
     (if request = [] then return (INVALID_PARAMS, r)
      else bind_run (yql_execute web \<lparr>yql_q = construct_query qt request, yql_format = JSON, yql_env = YQL_ENV\<rparr>) (\<lambda>(ret, resp).
        if ret = WEB_ERROR then return (WEB_ERROR, r)
        else bind_run (Some (json_parse resp)) (\<lambda>(err, v).
          if err \<noteq> [] then return (INVALID_PARAMS, r)
          else if \<not> is_object v then return (INVALID_PARAMS, r)
          else bind_run (Some (weather_temperature v)) (\<lambda>t.
            case t of None \<Rightarrow> return (WEB_ERROR, r) | Some t \<Rightarrow> return (ret, t)))))"

definition weather_handle :: "web \<Rightarrow> bytes \<Rightarrow> i32 \<Rightarrow> (err_code \<times> i32) run" where
  "weather_handle web req resp_data =
     (if length req \<noteq> 1 * 32 then return (INVALID_PARAMS, resp_data)
      else weather_current web CITYNAME (request_word 0 req) resp_data)"

section \<open>Wolfram Alpha\<close>

definition WOLFRAM_APPID :: string where "WOLFRAM_APPID = ''A8V8R2-523WY42ULW''"

definition create_query :: "string \<Rightarrow> string" where
  "create_query query =
     ''/v1/result?appid='' @ WOLFRAM_APPID @ ''&i='' @ map (\<lambda>c. if c = CHR '' '' then CHR ''+'' else c) query"

definition wolfram_request :: "string \<Rightarrow> HttpRequest" where
  "wolfram_request u = http_request ''api.wolframalpha.com'' u [] True"

text \<open>A failed request gives the empty answer.\<close>

definition perform_query :: "web \<Rightarrow> string \<Rightarrow> string run" where
  "perform_query web u =
     bind_run (new_client web (wolfram_request u)) (\<lambda>_.
       catch_run (bind_run (client_response web (wolfram_request u)) (\<lambda>resp. return (content resp)))
         (\<lambda>e. if is_runtime_error e then return [] else raise e))"

definition wolfram_handle :: "web \<Rightarrow> bytes \<Rightarrow> string \<Rightarrow> (err_code \<times> string) run" where
  "wolfram_handle web req old =
     (if length req \<noteq> 32 then return (INVALID_PARAMS, old)
      else bind_run (perform_query web (create_query (request_word 0 req))) (\<lambda>results. return (NO_ERROR, results)))"

section \<open>Stock prices\<close>

definition two_digits :: "int \<Rightarrow> string" where
  "two_digits n = (if n < 10 then CHR ''0'' # to_string n else to_string n)"

text \<open>\<open>strftime\<close> with \<open>%F\<close> into 20 characters.\<close>

definition date_string :: "date \<Rightarrow> string" where
  "date_string d = to_string (year d) @ ''-'' @ two_digits (month d) @ ''-'' @ two_digits (day d)"

definition stock_query :: "string \<Rightarrow> date \<Rightarrow> string" where
  "stock_query symbol d =
     take 1023 (''select * from yahoo.finance.historicaldata where symbol = '' @ [CHR 0x22] @ symbol @ [CHR 0x22]
       @ '' and startDate = '' @ [CHR 0x22] @ date_string d @ [CHR 0x22]
       @ '' and endDate = '' @ [CHR 0x22] @ date_string d @ [CHR 0x22])"

text \<open>The \<open>try\<close> block on the parsed page.\<close>

definition stock_price :: "json \<Rightarrow> i32 \<Rightarrow> (err_code \<times> i32) res" where
  "stock_price v old =
     bind_res (get_key ''query'' v) (\<lambda>q.
     bind_res (get_key ''results'' q) (\<lambda>result.
     if \<not> evaluate_as_boolean result then Inr (INVALID_PARAMS, old)
     else bind_res (get_key ''quote'' result) (\<lambda>quote.
          bind_res (get_key ''Close'' quote) (\<lambda>closing.
          if is_string closing then bind_res (get_string closing) (\<lambda>s. Inr (NO_ERROR, double_to_int (atof s)))
          else Inr (WEB_ERROR, old)))))"

definition stock_handle_one :: "web \<Rightarrow> string \<Rightarrow> date \<Rightarrow> i32 \<Rightarrow> (err_code \<times> i32) run" where
  "stock_handle_one web symbol d resp_data =
     (if symbol = [] \<or> day d > 31 \<or> year d > 2017 \<or> month d > 12 then return (INVALID_PARAMS, resp_data)
      else bind_run (yql_execute web \<lparr>yql_q = stock_query symbol d, yql_format = JSON, yql_env = YQL_ENV\<rparr>) (\<lambda>(err, result).
        if err \<noteq> NO_ERROR then return (err, resp_data)
        else bind_run (Some (json_parse result)) (\<lambda>(err_msg, v).
          if err_msg \<noteq> [] \<or> \<not> is_object v then return (WEB_ERROR, resp_data)
          else catch_run (Some (stock_price v resp_data))
                 (\<lambda>e. if is_std_exception e then return (WEB_ERROR, resp_data) else return (UNKNOWN_ERROR, resp_data)))))"

text \<open>The time is a signed \<open>time_t\<close>: a negative one passes the guard.\<close>

definition stock_handle :: "web \<Rightarrow> bytes \<Rightarrow> i32 \<Rightarrow> (err_code \<times> i32) run" where
  "stock_handle web req resp_data =
     (if length req \<noteq> 32 * 2 then return (INVALID_PARAMS, resp_data)
      else bind_run (Some (uint_bytes (drop 0x20 req) 32 True)) (\<lambda>unix_epoch.
        if sint unix_epoch > 0xF4865700 then return (INVALID_PARAMS, resp_data)
        else bind_run (Some (gmtime_tc unix_epoch)) (\<lambda>d.
          stock_handle_one web (request_word 0 req) d resp_data)))"

section \<open>Parcels\<close>

definition UPS_APIKEY :: string where "UPS_APIKEY = ''NkRXcVAzeERlRUZPQmtlckJpczRCZzo=''"

definition ups_request :: "string \<Rightarrow> string \<Rightarrow> HttpRequest" where
  "ups_request tracking_num carrier_name =
     http_request ''api.easypost.com''
       (''/v2/trackers?tracker[tracking_code]='' @ tracking_num @ ''&tracker[carrier]='' @ carrier_name)
       [''Authorization: Basic '' @ UPS_APIKEY] True"

text \<open>\<open>CannotParseResponse\<close> is a \<open>std::exception\<close> that is not a \<open>runtime_error\<close>; \<open>at\<close> throws out of range.\<close>

definition cannot_parse :: "'a res" where
  "cannot_parse = Inl (Throw (Std_exception ''cannot parse response''))"

definition list_at :: "'a list \<Rightarrow> nat \<Rightarrow> 'a res" where
  "list_at xs n = (if n < length xs then Inr (xs ! n) else Inl (Throw (Std_exception ''vector::_M_range_check'')))"

definition parcel_status :: "json \<Rightarrow> string res" where
  "parcel_status v =
     catch_exn
       (bind_res (find_second ''trackers'' v) (\<lambda>v1.
        bind_res (get_array v1) (\<lambda>tr_list.
        bind_res (list_at tr_list 0) (\<lambda>tracker.
        bind_res (find_second ''tracking_details'' tracker) (\<lambda>v2.
        bind_res (get_array v2) (\<lambda>history.
        bind_res (if history = [] then Inl (Throw (Std_exception ''vector::_M_range_check''))
                  else list_at history (length history - 1)) (\<lambda>event.
        bind_res (find_second ''status'' event) get_string)))))))
       (\<lambda>e. if is_std_exception e then cannot_parse else Inl (Throw e))"

definition ups_parse_response :: "string \<Rightarrow> string res" where
  "ups_parse_response resp =
     bind_res (json_parse resp) (\<lambda>(err, v).
       if err \<noteq> [] then cannot_parse else if \<not> is_object v then cannot_parse else parcel_status v)"

definition parcel_states :: "(string \<times> i32) list" where
  "parcel_states = [(''Package not found'', 1), (''pre_transit'', 2), (''Delivered'', 7), (''Order processed'', 3),
     (''Shipped'', 4), (''In transit'', 5), (''Out for delivery'', 6)]"

definition ups_tracking :: "web \<Rightarrow> string \<Rightarrow> string \<Rightarrow> i32 \<Rightarrow> (err_code \<times> i32) run" where
  "ups_tracking web tracking_num carrier_name status =
     (if tracking_num = [] then return (INVALID_PARAMS, - 1)
      else let req = ups_request tracking_num carrier_name in
        bind_run (new_client web req) (\<lambda>_.
        bind_run
          (catch_run
            (bind_run (client_response web req) (\<lambda>response.
             bind_run (Some (ups_parse_response (content response))) (\<lambda>result. return (Some result))))
            (\<lambda>e. if is_runtime_error e then return None else raise e)) (\<lambda>result.
        case result of
          None \<Rightarrow> return (WEB_ERROR, - 1)
        | Some result \<Rightarrow>
            (case map_of parcel_states result of
               None \<Rightarrow> return (INVALID_PARAMS, status)
             | Some st \<Rightarrow> return (NO_ERROR, st)))))"

definition ups_handle :: "web \<Rightarrow> bytes \<Rightarrow> i32 \<Rightarrow> (err_code \<times> i32) run" where
  "ups_handle web req resp_data =
     (if length req \<noteq> 2 * 32 then return (INVALID_PARAMS, resp_data)
      else ups_tracking web (str_of (take 0x20 req)) (str_of (take 0x20 (drop 0x20 req))) resp_data)"

section \<open>Steam trades\<close>

definition steam_request :: "string \<Rightarrow> string \<Rightarrow> HttpRequest" where
  "steam_request api_key cutoff_time =
     http_request ''api.steampowered.com''
       (''/IEconService/GetTradeOffers/v0001/?''
        @ ''get_sent_offers=0&get_received_offers=1&get_descriptions=0&active_only=1&historical_only=1&''
        @ ''key='' @ api_key @ ''&time_historical_cutoff='' @ cutoff_time) [] True"

definition get_steam_transaction :: "web \<Rightarrow> string \<Rightarrow> string \<Rightarrow> string \<Rightarrow> json list \<Rightarrow> i32 \<Rightarrow> (err_code \<times> i32) run" where
  "get_steam_transaction web api_key buyer_id cutoff_time items resp =
     (let req = steam_request api_key cutoff_time in
      bind_run (new_client web req) (\<lambda>_.
        catch_run
          (bind_run (client_response web req) (\<lambda>response.
           bind_run (Some (json_parse (content response))) (\<lambda>(err_msg, root).
             if err_msg \<noteq> [] \<or> \<not> is_object root then return (INVALID_PARAMS, resp)
             else bind_run (Some (get_key ''response'' root)) (\<lambda>r.
               if \<not> evaluate_as_boolean r then return (NO_ERROR, 0) else return (NO_ERROR, 1)))))
          (\<lambda>e. return (WEB_ERROR, resp))))"

text \<open>The fields of a decrypted request.\<close>

fun string_fields :: "(string \<times> json) list \<Rightarrow> (string \<times> string \<times> string \<times> json list) option" where
  "string_fields ob =
     (case (map_of ob ''api_key'', map_of ob ''buyer_id'', map_of ob ''cutoff_time'', map_of ob ''items'') of
        (Some (JString a), Some (JString b), Some (JString c), Some (JArray items)) \<Rightarrow> Some (a, b, c, items)
      | _ \<Rightarrow> None)"

definition steam_handle :: "web \<Rightarrow> 'g query_keys \<Rightarrow> bytes \<Rightarrow> i32 \<Rightarrow> (err_code \<times> i32) run" where
  "steam_handle web k req resp_data =
     bind_run (catch_run (bind_run (query_text k req) (\<lambda>s. return (Some s))) (\<lambda>e. return None)) (\<lambda>info.
     case info of
       None \<Rightarrow> return (INVALID_PARAMS, resp_data)
     | Some s \<Rightarrow>
         bind_run (Some (json_parse s)) (\<lambda>(err_msg, v).
         case (err_msg, v) of
           ([], JObject ob) \<Rightarrow>
             (case string_fields ob of
                None \<Rightarrow> return (INVALID_PARAMS, resp_data)
              | Some (api_key, buyer_id, cutoff_time, items) \<Rightarrow>
                  get_steam_transaction web api_key buyer_id cutoff_time items resp_data)
         | _ \<Rightarrow> return (INVALID_PARAMS, resp_data)))"

end
