(* ===== verification/Event_Handler.thy ===== *)
theory Event_Handler
  imports Eth_Transaction Flight Scrapers
begin

text \<open>
  The request handler of the enclave (\<open>event_handler.cpp\<close>): it sends a request to the scraper of its
  type, turns the scraper's result into an error flag and a response word, and has the delivery
  transaction made and signed.  This is where the components meet.
\<close>

section \<open>Request types and error flags\<close>

definition TYPE_FLIGHT_INS :: u64 where "TYPE_FLIGHT_INS = 0x1"
definition TYPE_BITCOIN_FEE :: u64 where "TYPE_BITCOIN_FEE = 0x2"
definition TYPE_FINANCE_INFO :: u64 where "TYPE_FINANCE_INFO = 0x3"
definition TYPE_UPS_TRACKING :: u64 where "TYPE_UPS_TRACKING = 0x4"
definition TYPE_COINMARKET :: u64 where "TYPE_COINMARKET = 0x5"
definition TYPE_WEATHER :: u64 where "TYPE_WEATHER = 0x6"
definition TYPE_WOLFRAM :: u64 where "TYPE_WOLFRAM = 0x9"
definition TYPE_FLIGHT_INS_ENC :: u64 where "TYPE_FLIGHT_INS_ENC = 0x10"
definition TYPE_STEAM_EX :: u64 where "TYPE_STEAM_EX = 0x11"

definition TC_ERR_FLAG_INVALID_INPUT :: int where "TC_ERR_FLAG_INVALID_INPUT = 1"
definition TC_ERR_FLAG_INTERNAL_ERR :: int where "TC_ERR_FLAG_INTERNAL_ERR = 2"

section \<open>The state of the enclave\<close>

record 'g enclave =
  e_web :: web
  e_query :: "'g query_keys"
  e_curve :: ecp_curve
  e_rng :: "'g rng"
  e_wallet :: g_key
  e_env :: g_env

text \<open>What the locals without an initialiser hold.\<close>

record stack =
  s_fees :: RecommendedFees
  s_delay :: i32
  s_int :: i32

section \<open>From results to answers\<close>

text \<open>The flag and the response data of the \<open>switch\<close> most types share, and of the one for stocks.\<close>

definition append_int :: "i32 \<Rightarrow> (int \<times> bytes) res" where
  "append_int v = bind_res (append_as_uint256 [] (scast v) 4) (\<lambda>(ret, resp_data). Inr (0, resp_data))"

fun int_answer :: "err_code \<times> i32 \<Rightarrow> (int \<times> bytes) res" where
  "int_answer (err, v) =
     (case err of
        UNKNOWN_ERROR \<Rightarrow> Inr (TC_INTERNAL_ERROR, [])
      | WEB_ERROR \<Rightarrow> Inr (TC_INTERNAL_ERROR, [])
      | INVALID_PARAMS \<Rightarrow> Inr (TC_INPUT_ERROR, [])
      | NO_ERROR \<Rightarrow> append_int v)"

fun stock_answer :: "err_code \<times> i32 \<Rightarrow> (int \<times> bytes) res" where
  "stock_answer (err, v) =
     (case err of
        INVALID_PARAMS \<Rightarrow> Inr (TC_ERR_FLAG_INVALID_INPUT, [])
      | WEB_ERROR \<Rightarrow> Inr (TC_INTERNAL_ERROR, [])
      | NO_ERROR \<Rightarrow> append_int v
      | UNKNOWN_ERROR \<Rightarrow> Inr (TC_ERR_FLAG_INTERNAL_ERR, []))"

fun text_answer :: "err_code \<times> string \<Rightarrow> (int \<times> bytes) res" where
  "text_answer (err, status) =
     (case err of
        UNKNOWN_ERROR \<Rightarrow> Inr (TC_INTERNAL_ERROR, [])
      | WEB_ERROR \<Rightarrow> Inr (TC_INTERNAL_ERROR, [])
      | INVALID_PARAMS \<Rightarrow> Inr (TC_INPUT_ERROR, [])
      | NO_ERROR \<Rightarrow> Inr (0, bytes_of status))"

text \<open>The \<open>switch\<close> over the type.  The code after the \<open>break\<close> of \<open>TYPE_UPS_TRACKING\<close> is not reached.\<close>

definition scrape :: "'g enclave \<Rightarrow> stack \<Rightarrow> u64 \<Rightarrow> bytes \<Rightarrow> (int \<times> bytes) run" where
  "scrape E st ty data =
     (if ty = TYPE_BITCOIN_FEE then bind_run (fees_handle (e_web E) (s_fees st) data (s_int st)) (\<lambda>r. Some (int_answer r))
      else if ty = TYPE_FLIGHT_INS then bind_run (flight_handle (e_web E) (s_delay st) data 0) (\<lambda>r. Some (int_answer r))
      else if ty = TYPE_STEAM_EX then bind_run (steam_handle (e_web E) (e_query E) data (s_int st)) (\<lambda>r. Some (int_answer r))
      else if ty = TYPE_FINANCE_INFO then bind_run (stock_handle (e_web E) data 0) (\<lambda>r. Some (stock_answer r))
      else if ty = TYPE_UPS_TRACKING then return (TC_ERR_FLAG_INTERNAL_ERR, [])
      else if ty = TYPE_COINMARKET then bind_run (coin_handle (e_web E) data (s_int st)) (\<lambda>r. Some (int_answer r))
      else if ty = TYPE_WEATHER then bind_run (weather_handle (e_web E) data (s_int st)) (\<lambda>r. Some (int_answer r))
      else if ty = TYPE_WOLFRAM then bind_run (wolfram_handle (e_web E) data []) (\<lambda>r. Some (text_answer r))
      else if ty = TYPE_FLIGHT_INS_ENC
        then bind_run (flight_handleEncryptedQuery (e_web E) (e_query E) data 0) (\<lambda>r. Some (int_answer r))
      else return (TC_ERR_FLAG_INVALID_INPUT, []))"

text \<open>
  The generator \<open>g\<close> is the one \<open>ecdsa_sign\<close> seeds.  The type is cut to a byte and the flag widened by
  the parameters of \<open>form_transaction\<close>; \<open>bufs\<close> tells that the output pointers are not null.
\<close>

definition do_handle_request ::
  "'g enclave \<Rightarrow> stack \<Rightarrow> i32 \<Rightarrow> u64 \<Rightarrow> u64 \<Rightarrow> bytes \<Rightarrow> bool \<Rightarrow> 'g \<Rightarrow> ((int \<times> bytes option) res \<times> 'g) option" where
  "do_handle_request E st nonce req_id ty data bufs g =
     (case scrape E st ty data of
        None \<Rightarrow> None
      | Some (Inl e) \<Rightarrow> Some (Inl e, g)
      | Some (Inr (error_flag, resp_data)) \<Rightarrow>
          form_transaction (e_curve E) (e_rng E) (e_wallet E) (e_env E) nonce req_id (ucast ty) data
            (word_of_int error_flag) resp_data bufs True g)"

definition handle_request ::
  "'g enclave \<Rightarrow> stack \<Rightarrow> i32 \<Rightarrow> u64 \<Rightarrow> u64 \<Rightarrow> bytes \<Rightarrow> bool \<Rightarrow> 'g \<Rightarrow> ((int \<times> bytes option) res \<times> 'g) option" where
  "handle_request E st nonce req_id ty data bufs g =
     (case getContractAddress (e_env E) of
        Inl UB \<Rightarrow> Some (Inl UB, g)
      | Inl (Throw e) \<Rightarrow> Some (Inr (TC_INTERNAL_ERROR, None), g)
      | Inr tc_address \<Rightarrow>
          (case do_handle_request E st nonce req_id ty data bufs g of
             Some (Inl (Throw e), g') \<Rightarrow> Some (Inr (TC_INTERNAL_ERROR, None), g')
           | r \<Rightarrow> r))"

section \<open>The contract of the answers\<close>

text \<open>
  Every \<open>switch\<close> gives an answer word after success, and one of the three flags with no data after
  an error.
\<close>

locale answer_switch =
  fixes answer :: "err_code \<times> 'r \<Rightarrow> (int \<times> bytes) res"
    and word_for :: "'r \<Rightarrow> bytes"
  assumes no_error: "answer (NO_ERROR, v) = Inr (0, word_for v)"
    and error: "err \<noteq> NO_ERROR \<Longrightarrow> \<exists>f \<in> {1, 2, 3}. answer (err, v) = Inr (f, [])"
begin

lemma shape: "answer r = Inr (f, d) \<Longrightarrow> f = 0 \<and> d = word_for (snd r) \<or> f \<in> {1, 2, 3} \<and> d = []"
  using no_error [of "snd r"] error [of "fst r" "snd r"] by (cases r; cases "fst r = NO_ERROR") auto

lemma total: "\<exists>x. answer r = Inr x"
  using no_error [of "snd r"] error [of "fst r" "snd r"] by (cases r; cases "fst r = NO_ERROR") auto

lemma after_run:
  "bind_run m (\<lambda>r. Some (answer r)) = return (f, d) \<Longrightarrow>
   \<exists>r. m = return r \<and> (f = 0 \<and> d = word_for (snd r) \<or> f \<in> {1, 2, 3} \<and> d = [])"
  using shape by (auto simp: bind_run_return)

end

definition answer_word :: "i32 \<Rightarrow> bytes" where
  "answer_word v = replicate 28 0 @ be_bytes 4 (scast v :: u64)"

lemma append_int_eq: "append_int v = Inr (0, answer_word v)"
  using append_as_uint256_ok [of 4 "[]" "scast v"] by (simp add: append_int_def answer_word_def)

interpretation int_switch: answer_switch int_answer answer_word
  by unfold_locales (auto simp: append_int_eq TC_INTERNAL_ERROR_def TC_INPUT_ERROR_def split: err_code.splits)

interpretation stock_switch: answer_switch stock_answer answer_word
  by unfold_locales
    (auto simp: append_int_eq TC_INTERNAL_ERROR_def TC_ERR_FLAG_INVALID_INPUT_def TC_ERR_FLAG_INTERNAL_ERR_def
      split: err_code.splits)

interpretation text_switch: answer_switch text_answer bytes_of
  by unfold_locales (auto simp: TC_INTERNAL_ERROR_def TC_INPUT_ERROR_def split: err_code.splits)

section \<open>The contract of the scrapers\<close>

text \<open>A scraper refuses data that does not have its length, and leaves the result alone.\<close>

locale sized_scraper =
  fixes handle :: "bytes \<Rightarrow> 'r \<Rightarrow> (err_code \<times> 'r) run"
    and request_length :: nat
  assumes wrong_length: "length data \<noteq> request_length \<Longrightarrow> handle data old = return (INVALID_PARAMS, old)"
begin

lemma answer_wrong_length:
  "length data \<noteq> request_length \<Longrightarrow> bind_run (handle data old) k = k (INVALID_PARAMS, old)"
  by (simp add: wrong_length)

end

interpretation flight: sized_scraper "flight_handle web junk" 64 for web junk
  by unfold_locales (simp add: flight_handle_def)

interpretation stock: sized_scraper "stock_handle web" 64 for web
  by unfold_locales (simp add: stock_handle_def)

interpretation coin: sized_scraper "coin_handle web" 32 for web
  by unfold_locales (simp add: coin_handle_def)

interpretation weather: sized_scraper "weather_handle web" 32 for web
  by unfold_locales (simp add: weather_handle_def)

interpretation wolfram: sized_scraper "wolfram_handle web" 32 for web
  by unfold_locales (simp add: wolfram_handle_def)

interpretation ups: sized_scraper "ups_handle web" 64 for web
  by unfold_locales (simp add: ups_handle_def)

lemmas type_defs = TYPE_FLIGHT_INS_def TYPE_BITCOIN_FEE_def TYPE_FINANCE_INFO_def TYPE_UPS_TRACKING_def TYPE_COINMARKET_def
  TYPE_WEATHER_def TYPE_WOLFRAM_def TYPE_FLIGHT_INS_ENC_def TYPE_STEAM_EX_def

lemmas flag_defs = TC_INTERNAL_ERROR_def TC_INPUT_ERROR_def TC_ERR_FLAG_INVALID_INPUT_def TC_ERR_FLAG_INTERNAL_ERR_def

lemma length_int_word: "length (answer_word v) = 32"
  by (simp add: answer_word_def)

lemma scrape_shape:
  assumes "scrape E st ty data = return (f, d)"
  shows "f \<in> {1, 2, 3} \<and> d = [] \<or> f = 0 \<and> (ty = TYPE_WOLFRAM \<or> (\<exists>v. d = answer_word v))"
  using assms unfolding scrape_def flag_defs
  by (fastforce split: if_splits dest!: int_switch.after_run stock_switch.after_run text_switch.after_run)

lemma word_of_flag: "f \<in> {0, 1, 2, 3} \<Longrightarrow> (word_of_int f :: u64) = 0 \<longleftrightarrow> f = 0"
  by auto

lemma handle_request_scraped:
  assumes "handle_request E st nonce req_id ty data bufs g = Some (Inr (ret, Some out), g')"
  shows "\<exists>flag resp. scrape E st ty data = return (flag, resp)
    \<and> form_transaction (e_curve E) (e_rng E) (e_wallet E) (e_env E) nonce req_id (ucast ty) data
        (word_of_int flag) resp bufs True g = Some (Inr (ret, Some out), g')"
proof -
  have "do_handle_request E st nonce req_id ty data bufs g = Some (Inr (ret, Some out), g')"
    using assms by (auto simp: handle_request_def split: sum.splits fault.splits option.splits prod.splits)
  then show ?thesis by (auto simp: do_handle_request_def split: option.splits sum.splits)
qed

section \<open>Properties\<close>

text \<open>C1: What a request leads to.  The handler never lets an exception escape.  Whenever it hands out bytes, they
  are a signed delivery of at most 2048 bytes that decodes to the call \<open>deliver\<close> with the id and the hash of
  the request, the flag of its scraper's answer, one of 0 to 3, and the answer itself: with a flag there is
  no answer, and without one it is a 32-byte word with a 32-bit integer, except for Wolfram questions.\<close>

theorem handle_request_delivers:
  "case handle_request E st nonce req_id ty data bufs g of
     Some (Inl f, g') \<Rightarrow> f = UB
   | Some (Inr (ret, Some out), g') \<Rightarrow>
       ret = TC_SUCCESS \<and> length out \<le> TX_BUF_SIZE
       \<and> (\<exists>flag resp addr r s v sig. scrape E st ty data = return (flag, resp)
           \<and> (flag \<in> {1, 2, 3} \<and> resp = [] \<or> flag = 0 \<and> (ty = TYPE_WOLFRAM \<or> (\<exists>n. resp = answer_word n)))
           \<and> tx_decode out = Some [itob (scast nonce) 0, itob GASPRICE 0, itob GASLIMIT 0, addr, [],
                deliver_call_data req_id (ucast ty) data (word_of_int flag) resp, [v], r, s]
           \<and> ecdsa_sign (e_curve E) (e_rng E) (e_wallet E)
                (signing_hash nonce addr (deliver_call_data req_id (ucast ty) data (word_of_int flag) resp)) zero_sig 8 g
                = Some (Inr (0, sig), g')
           \<and> r = sig_rr sig \<and> s = sig_ss sig)
   | _ \<Rightarrow> True"
proof -
  have "f = UB" if "handle_request E st nonce req_id ty data bufs g = Some (Inl f, g')" for f g'
    using that by (auto simp: handle_request_def split: sum.splits fault.splits option.splits prod.splits)
  moreover have "ret = TC_SUCCESS \<and> length out \<le> TX_BUF_SIZE
       \<and> (\<exists>flag resp addr r s v sig. scrape E st ty data = return (flag, resp)
           \<and> (flag \<in> {1, 2, 3} \<and> resp = [] \<or> flag = 0 \<and> (ty = TYPE_WOLFRAM \<or> (\<exists>n. resp = answer_word n)))
           \<and> tx_decode out = Some [itob (scast nonce) 0, itob GASPRICE 0, itob GASLIMIT 0, addr, [],
                deliver_call_data req_id (ucast ty) data (word_of_int flag) resp, [v], r, s]
           \<and> ecdsa_sign (e_curve E) (e_rng E) (e_wallet E)
                (signing_hash nonce addr (deliver_call_data req_id (ucast ty) data (word_of_int flag) resp)) zero_sig 8 g
                = Some (Inr (0, sig), g')
           \<and> r = sig_rr sig \<and> s = sig_ss sig)"
    if h: "handle_request E st nonce req_id ty data bufs g = Some (Inr (ret, Some out), g')" for ret out g'
  proof -
    obtain flag resp where s: "scrape E st ty data = return (flag, resp)"
      and f: "form_transaction (e_curve E) (e_rng E) (e_wallet E) (e_env E) nonce req_id (ucast ty) data
          (word_of_int flag) resp bufs True g = Some (Inr (ret, Some out), g')"
      using handle_request_scraped [OF h] by blast
    show ?thesis using form_transaction_meaning [OF f] s scrape_shape [OF s] unfolding if_True by blast
  qed
  ultimately show ?thesis by (simp split: option.splits sum.splits prod.splits)
qed

definition request_length :: "u64 \<Rightarrow> nat option" where
  "request_length ty =
     (if ty = TYPE_FLIGHT_INS \<or> ty = TYPE_FINANCE_INFO then Some 64
      else if ty = TYPE_COINMARKET \<or> ty = TYPE_WEATHER \<or> ty = TYPE_WOLFRAM then Some 32 else None)"

definition known_types :: "u64 list" where
  "known_types = [TYPE_FLIGHT_INS, TYPE_BITCOIN_FEE, TYPE_FINANCE_INFO, TYPE_UPS_TRACKING, TYPE_COINMARKET, TYPE_WEATHER,
     TYPE_WOLFRAM, TYPE_FLIGHT_INS_ENC, TYPE_STEAM_EX]"

lemma scrape_wrong_length: "request_length ty = Some n \<Longrightarrow> length data \<noteq> n \<Longrightarrow> scrape E st ty data = return (1, [])"
  by (auto simp: request_length_def scrape_def flag_defs type_defs flight.answer_wrong_length stock.answer_wrong_length
      coin.answer_wrong_length weather.answer_wrong_length wolfram.answer_wrong_length split: if_splits)

lemma scrape_unknown: "ty \<notin> set known_types \<Longrightarrow> scrape E st ty data = return (1, [])"
  by (simp add: known_types_def scrape_def flag_defs)

lemma scrape_parcel: "scrape E st TYPE_UPS_TRACKING data = return (2, [])"
  by (simp add: scrape_def flag_defs type_defs)


definition sample_enclave :: "string \<Rightarrow> nat enclave" where
  "sample_enclave page = \<lparr>e_web = page_web page, e_query = three_keys, e_curve = three_curve, e_rng = three_rng,
     e_wallet = Some 1, e_env = sample_env\<rparr>"

definition sample_stack :: stack where
  "sample_stack = \<lparr>s_fees = \<lparr>fastestFee = 77, halfHourFee = 78, hourFee = 79\<rparr>, s_delay = 80, s_int = 81\<rparr>"




text \<open>C7: The fee scraper reports no error.  When the fee service answers with a status other than 200, with a page that
  is no JSON, or without a numeric fee, the enclave delivers, with the flag for success, what the
  uninitialised result on the stack holds.\<close>

theorem fees_unchecked:
  assumes "new_client (e_web E) fees_request = return ()" "client_response (e_web E) fees_request = return r"
    and "statusCode r \<noteq> 200 \<or>
      (\<exists>err v. json_parse (content r) = Inr (err, v) \<and> (err \<noteq> [] \<or> (\<forall>fee. read_fee ''fastestFee'' v \<noteq> Inr fee)))"
  shows "do_handle_request E st nonce req_id TYPE_BITCOIN_FEE data bufs g
    = form_transaction (e_curve E) (e_rng E) (e_wallet E) (e_env E) nonce req_id 2 data
        0 (answer_word (fastestFee (s_fees st))) bufs True g"
proof -
  have "assign_fees v (s_fees st) = s_fees st" if "\<forall>fee. read_fee ''fastestFee'' v \<noteq> Inr fee" for v
    using that by (auto simp: assign_fees_def split: sum.splits)
  then have "get_recommended_fees (e_web E) (s_fees st) = return (s_fees st)"
    using assms by (auto simp: get_recommended_fees_def)
  then have "scrape E st TYPE_BITCOIN_FEE data = return (0, answer_word (fastestFee (s_fees st)))"
    by (simp add: scrape_def fees_handle_def append_int_eq)
  then show ?thesis by (simp add: do_handle_request_def TYPE_BITCOIN_FEE_def)
qed

theorem fees_unchecked_witness:
  "do_handle_request (sample_enclave []) sample_stack 7 1 TYPE_BITCOIN_FEE [3, 4] True 0
    = form_transaction three_curve three_rng (Some 1) sample_env 7 1 2 [3, 4] 0 (answer_word 77) True True 0"
proof -
  obtain c where c: "new_client (page_web []) fees_request = return ()"
      "client_response (page_web []) fees_request = return \<lparr>statusCode = c, content = []\<rparr>"
    using page_web_serves [of "[]" fees_request] by (auto simp: serves_def)
  have "json_parse [] = Inr (''syntax error at line 1 near: '', JNull)" by code_simp
  then show ?thesis
    using fees_unchecked [of "sample_enclave []" "\<lparr>statusCode = c, content = []\<rparr>"] c
    by (auto simp: sample_enclave_def sample_stack_def)
qed

section \<open>Encrypted requests, end to end\<close>

definition flight_json :: "string \<Rightarrow> nat \<Rightarrow> string" where
  "flight_json flight t =
     CHR ''{'' # member_text ''flight'' (quoted flight) @ CHR '','' # member_text ''time'' (nat_digits t) @ ''}''"

lemma flight_json_parse:
  assumes "list_all plain_char flight" "t < 2 ^ 53"
  shows "\<exists>d. json_parse (flight_json flight t) = Inr ([], JObject [(''flight'', JString flight), (''time'', JNumber d)])
    \<and> double_to_long d = word_of_nat t"
proof -
  obtain d where d: "number_denotes (nat_digits t) d" "int_part d = Some (int t)" using number_numeral [OF assms(2)] by blast
  have k: "list_all plain_char ''flight''" "list_all plain_char ''time''" by code_simp+
  have "json_text (flight_json flight t) (JObject [(''flight'', JString flight), (''time'', JNumber d)])"
    unfolding flight_json_def by (intro text_object2 text_string k assms(1) json_number d(1)) simp
  then have "json_parse (flight_json flight t) = Inr ([], JObject [(''flight'', JString flight), (''time'', JNumber d)])"
    by (rule json_parse_reads) simp
  then show ?thesis using numeral_words [OF d(2) assms(2)] by blast
qed

text \<open>The delay of a departure, as the answer reports it; \<open>junk\<close> stands for the answer before departure.\<close>

definition reported_delay :: "u64 \<Rightarrow> u64 \<Rightarrow> i32 \<Rightarrow> i32" where
  "reported_delay t epoch junk =
     (if t = 0 then junk else if t = - 1 then 2147483643
      else if unat (t - epoch) < 1800 then 0 else word_of_nat (unat (t - epoch)))"



end
