(* ===== verification/Gcm_Field.thy ===== *)
theory Gcm_Field
  imports Gcm_Aead
begin

text \<open>
  The multiplication of GCM: the table-driven \<open>gcm_mult\<close> computes the product of NIST SP 800-38D
  (algorithm 1) with the hash key.
\<close>

section \<open>NIST SP 800-38D, 6.3\<close>

text \<open>
  A block is a 128-bit word whose most significant bit is the coefficient of 1; multiplication by \<open>x\<close>
  is a shift to the right, reduced by the polynomial \<open>11100001 || 0^120\<close>.
\<close>

definition mulx :: "128 word \<Rightarrow> 128 word" where
  "mulx v = drop_bit 1 v XOR (if bit v 0 then push_bit 120 0xe1 else 0)"

definition nist_mul :: "128 word \<Rightarrow> 128 word \<Rightarrow> 128 word" where
  "nist_mul x y =
     fst (foldl (\<lambda>(z, v) i. (if bit x (127 - i) then z XOR v else z, mulx v)) (0, y) [0..<128])"

text \<open>Blocks as sixteen bytes.\<close>

definition block_of :: "bytes \<Rightarrow> 128 word" where
  "block_of b = foldl (\<lambda>a c. push_bit 8 a XOR ucast c) 0 b"

definition bytes_of_block :: "128 word \<Rightarrow> bytes" where
  "bytes_of_block w = map (\<lambda>i. ucast (drop_bit (8 * (15 - i)) w)) [0..<16]"

definition gf_mul :: "bytes \<Rightarrow> bytes \<Rightarrow> bytes" where
  "gf_mul x h = bytes_of_block (nist_mul (block_of x) (block_of h))"

section \<open>The product as a Horner scheme\<close>

lemma bit_push_1: "bit (push_bit m 1 :: 'a::len word) k \<longleftrightarrow> k = m \<and> m < LENGTH('a)"
  by (auto simp: bit_simps)

lemma bit_reduction: "bit (push_bit 120 0xe1 :: 128 word) n \<longleftrightarrow> n \<in> {120, 125, 126, 127}"
proof -
  have "bit (push_bit 127 1 XOR push_bit 126 1 XOR push_bit 125 1 XOR push_bit 120 1 :: 128 word) n
      \<longleftrightarrow> n \<in> {120, 125, 126, 127}"
    unfolding bit_xor_iff bit_push_1 by (cases "n = 120"; cases "n = 125"; cases "n = 126"; cases "n = 127"; simp)
  moreover have "(push_bit 120 0xe1 :: 128 word)
      = push_bit 127 1 XOR push_bit 126 1 XOR push_bit 125 1 XOR push_bit 120 1" by simp
  ultimately show ?thesis by (simp only:)
qed

text \<open>The positions of the reduction, kept folded in the proofs on bits.\<close>

definition reduced :: "nat \<Rightarrow> bool" where
  "reduced n \<longleftrightarrow> n \<in> {120, 125, 126, 127}"

lemma reduced_bound: "reduced n \<Longrightarrow> 119 < n \<and> n < 128"
  by (auto simp: reduced_def)

lemma bit_mulx: "bit (mulx v) n \<longleftrightarrow> n < 128 \<and> (bit v (n + 1) \<noteq> (bit v 0 \<and> reduced n))"
proof -
  define r :: "128 word" where "r = push_bit 120 0xe1"
  have "bit r n \<longleftrightarrow> reduced n" unfolding r_def reduced_def by (rule bit_reduction)
  then show ?thesis
    unfolding mulx_def r_def [symmetric]
    by (auto simp: bit_simps dest: bit_imp_le_length reduced_bound)
qed

lemma mulx_xor: "mulx (a XOR b) = mulx a XOR mulx b"
  by (rule bit_word_eqI) (auto simp: bit_mulx bit_simps)

lemma mulx_0 [simp]: "mulx 0 = 0"
  by (simp add: mulx_def)

fun horner :: "bool list \<Rightarrow> 128 word \<Rightarrow> 128 word" where
  "horner [] h = 0"
| "horner (b # bs) h = (if b then h else 0) XOR mulx (horner bs h)"

lemma horner_mulx: "mulx (horner bs h) = horner bs (mulx h)"
  by (induction bs) (auto simp: mulx_xor)

lemma horner_foldl:
  "fst (foldl (\<lambda>(z, v) b. (if b then z XOR v else z, mulx v)) (z, v) bs) = z XOR horner bs v"
  by (induction bs arbitrary: z v) (auto simp: horner_mulx xor.assoc)

lemma nist_mul_horner: "nist_mul x y = horner (map (\<lambda>i. bit x (127 - i)) [0..<128]) y"
  using horner_foldl [of 0 y "map (\<lambda>i. bit x (127 - i)) [0..<128]"]
  by (simp only: nist_mul_def foldl_map split_def xor.left_neutral)

section \<open>Words of two halves\<close>

definition cat128 :: "u64 \<Rightarrow> u64 \<Rightarrow> 128 word" where
  "cat128 h l = push_bit 64 (ucast h) XOR ucast l"

lemma bit_cat128: "bit (cat128 h l) n \<longleftrightarrow> (if n < 64 then bit l n else n < 128 \<and> bit h (n - 64))"
  by (auto simp: cat128_def bit_simps dest: bit_imp_le_length)

lemma cat128_xor: "cat128 (a XOR c) (b XOR d) = cat128 a b XOR cat128 c d"
  by (rule bit_word_eqI) (auto simp: bit_cat128 bit_simps)

lemma cat128_0: "cat128 0 0 = 0"
  by (simp add: cat128_def)

lemma bit_shift_reduction: "bit (push_bit 32 0xe1000000 :: u64) n \<longleftrightarrow> n \<in> {56, 61, 62, 63}"
proof -
  have "bit (push_bit 63 1 XOR push_bit 62 1 XOR push_bit 61 1 XOR push_bit 56 1 :: u64) n
      \<longleftrightarrow> n \<in> {56, 61, 62, 63}"
    unfolding bit_xor_iff bit_push_1 by (cases "n = 56"; cases "n = 61"; cases "n = 62"; cases "n = 63"; simp)
  moreover have "(push_bit 32 0xe1000000 :: u64)
      = push_bit 63 1 XOR push_bit 62 1 XOR push_bit 61 1 XOR push_bit 56 1" by simp
  ultimately show ?thesis by (simp only:)
qed

lemma shift_step_mulx:
  "cat128 (drop_bit 1 vh XOR push_bit 32 (if bit vl 0 then 0xe1000000 else 0)) (push_bit 63 vh OR drop_bit 1 vl)
    = mulx (cat128 vh vl)"
proof (rule bit_word_eqI)
  fix n :: nat assume n: "n < LENGTH(128)"
  define t :: u64 where "t = push_bit 32 (if bit vl 0 then 0xe1000000 else 0)"
  have "k \<in> {56, 61, 62, 63} \<longleftrightarrow> reduced (k + 64)" for k by (auto simp: reduced_def)
  then have t: "bit t k \<longleftrightarrow> bit vl 0 \<and> reduced (k + 64)" for k
    unfolding t_def using bit_shift_reduction [of k]
    by (cases "bit vl 0") (simp_all only: if_True if_False push_bit_of_0 bit_0_eq bot_apply bot_bool_def simp_thms)
  have r: "reduced n \<Longrightarrow> 63 < n" using reduced_bound [of n] by simp
  consider "n < 63" | "n = 63" | "63 < n" by linarith
  then show "bit (cat128 (drop_bit 1 vh XOR push_bit 32 (if bit vl 0 then 0xe1000000 else 0))
      (push_bit 63 vh OR drop_bit 1 vl)) n = bit (mulx (cat128 vh vl)) n"
  proof cases
    case 1
    then show ?thesis unfolding t_def [symmetric] bit_cat128 bit_mulx using r by (auto simp: bit_simps)
  next
    case 2
    then show ?thesis unfolding t_def [symmetric] bit_cat128 bit_mulx using r
      by (auto simp: bit_simps dest: bit_imp_le_length)
  next
    case 3
    then have "Suc n - 64 = Suc (n - 64)" by simp
    then show ?thesis
      using 3 n unfolding t_def [symmetric] bit_cat128 bit_mulx
      by (auto simp: bit_simps t dest: bit_imp_le_length)
  qed
qed

lemma mulx_4:
  "mulx (mulx (mulx (mulx z))) = drop_bit 4 z XOR push_bit 112 (ucast (last4 ! unat (z AND 0xf)))"
proof -
  define a where "a = z AND NOT 0xf"
  define b where "b = z AND 0xf"
  have m: "(0xf :: 128 word) = mask 4" by (simp add: mask_eq_exp_minus_1)
  have z: "z = a XOR b" unfolding a_def b_def by (rule bit_word_eqI) (auto simp: bit_simps)
  have low: "\<not> bit a n" if "n < 4" for n using that by (simp add: a_def m bit_simps)
  have "mulx (mulx (mulx (mulx a))) = drop_bit 4 a"
  proof (rule bit_word_eqI)
    fix n :: nat
    have "bit a (4 + n) = bit a (Suc (Suc (Suc (Suc n))))" by (rule arg_cong [of _ _ "bit a"]) simp
    then show "bit (mulx (mulx (mulx (mulx a)))) n = bit (drop_bit 4 a) n"
      using low by (auto simp: bit_mulx bit_simps dest: bit_imp_le_length reduced_bound)
  qed
  moreover have "drop_bit 4 a = drop_bit 4 z"
    unfolding a_def m by (rule bit_word_eqI) (auto simp: bit_simps dest: bit_imp_le_length)
  moreover have "mulx (mulx (mulx (mulx b))) = push_bit 112 (ucast (last4 ! unat b))"
  proof -
    have "list_all (\<lambda>k. mulx (mulx (mulx (mulx (word_of_nat k)))) = push_bit 112 (ucast (last4 ! k))) [0..<16]"
      by (simp add: mulx_def last4_def upt_16)
    then have "k < 16 \<Longrightarrow> mulx (mulx (mulx (mulx (word_of_nat k)))) = push_bit 112 (ucast (last4 ! k))" for k
      unfolding list_all_iff set_upt Ball_def atLeastLessThan_iff by blast
    from this [of "unat b"] have k: "unat b < 16 \<Longrightarrow> ?thesis" by simp
    have "unat b < 16"
      using take_bit_nat_less_exp [of 4 "unat z"] by (simp add: b_def m take_bit_eq_mask [symmetric] unsigned_take_bit_eq)
    then show ?thesis by (rule k)
  qed
  moreover have "mulx (mulx (mulx (mulx z)))
      = mulx (mulx (mulx (mulx a))) XOR mulx (mulx (mulx (mulx b)))"
    unfolding z mulx_xor ..
  ultimately show ?thesis unfolding b_def [symmetric] by (simp only:)
qed


section \<open>The table\<close>

text \<open>The multiple of \<open>h\<close> by a nibble, whose high bit is the coefficient of 1.\<close>

definition nibble_mul :: "nat \<Rightarrow> 128 word \<Rightarrow> 128 word" where
  "nibble_mul n h = horner [bit n 3, bit n 2, bit n 1, bit n 0] h"

definition table_ok :: "u64 list \<Rightarrow> u64 list \<Rightarrow> 128 word \<Rightarrow> bool" where
  "table_ok hh hl h \<longleftrightarrow> (\<forall>n < 16. cat128 (hh ! n) (hl ! n) = nibble_mul n h)"

lemma gcm_tables_ok:
  assumes "gcm_tables vh vl = (hh, hl)"
  shows "table_ok hh hl (cat128 vh vl)"
proof -
  define sh where "sh v = (drop_bit 1 (fst v) XOR push_bit 32 (if bit (snd v) 0 then 0xe1000000 else 0 :: u64),
      push_bit 63 (fst v) OR drop_bit 1 (snd v))" for v :: "u64 \<times> u64"
  have step: "shift_step (v, hh, hl) i = (sh v, hh[i := fst (sh v)], hl[i := snd (sh v)])" for v hh hl i
    by (simp add: shift_step_def sh_def Let_def split: prod.splits)
  obtain h1 l1 where v1: "sh (vh, vl) = (h1, l1)" by (cases "sh (vh, vl)")
  obtain h2 l2 where v2: "sh (h1, l1) = (h2, l2)" by (cases "sh (h1, l1)")
  obtain h3 l3 where v3: "sh (h2, l2) = (h3, l3)" by (cases "sh (h2, l2)")
  have sh: "cat128 (fst (sh v)) (snd (sh v)) = mulx (cat128 (fst v) (snd v))" for v
    by (simp only: sh_def fst_conv snd_conv shift_step_mulx)
  have c: "cat128 h1 l1 = mulx (cat128 vh vl)" "cat128 h2 l2 = mulx (cat128 h1 l1)" "cat128 h3 l3 = mulx (cat128 h2 l2)"
    using sh [of "(vh, vl)"] sh [of "(h1, l1)"] sh [of "(h2, l2)"] v1 v2 v3 by simp_all
  have u: "[1..<2] = [1 :: nat]" "[1..<4] = [1, 2, 3 :: nat]" "[1..<8] = [1, 2, 3, 4, 5, 6, 7 :: nat]"
    by (simp_all add: upt_conv_Cons)
  have "gcm_tables vh vl =
    ([0, h3, h2, h2 XOR h3, h1, h1 XOR h3, h1 XOR h2, h1 XOR (h2 XOR h3), vh, vh XOR h3, vh XOR h2, vh XOR (h2 XOR h3),
      vh XOR h1, vh XOR (h1 XOR h3), vh XOR (h1 XOR h2), vh XOR (h1 XOR (h2 XOR h3))],
     [0, l3, l2, l2 XOR l3, l1, l1 XOR l3, l1 XOR l2, l1 XOR (l2 XOR l3), vl, vl XOR l3, vl XOR l2, vl XOR (l2 XOR l3),
      vl XOR l1, vl XOR (l1 XOR l3), vl XOR (l1 XOR l2), vl XOR (l1 XOR (l2 XOR l3))])"
    by (simp add: gcm_tables_def step v1 v2 v3 sum_step_def u Let_def numeral_eq_Suc)
  then have t: "hh = [0, h3, h2, h2 XOR h3, h1, h1 XOR h3, h1 XOR h2, h1 XOR (h2 XOR h3), vh, vh XOR h3, vh XOR h2,
      vh XOR (h2 XOR h3), vh XOR h1, vh XOR (h1 XOR h3), vh XOR (h1 XOR h2), vh XOR (h1 XOR (h2 XOR h3))]"
    "hl = [0, l3, l2, l2 XOR l3, l1, l1 XOR l3, l1 XOR l2, l1 XOR (l2 XOR l3), vl, vl XOR l3, vl XOR l2, vl XOR (l2 XOR l3),
      vl XOR l1, vl XOR (l1 XOR l3), vl XOR (l1 XOR l2), vl XOR (l1 XOR (l2 XOR l3))]"
    using assms by simp_all
  have "list_all (\<lambda>n. cat128 (hh ! n) (hl ! n) = nibble_mul n (cat128 vh vl)) [0..<16]"
    unfolding t upt_16
    by (simp add: nibble_mul_def c [symmetric] cat128_xor cat128_0 mulx_xor xor_ac bit_0)
  then show ?thesis by (simp add: table_ok_def list_all_iff)
qed

section \<open>Table-driven multiplication\<close>

text \<open>One shift by a nibble.\<close>

lemma nibble_step_cat:
  assumes "nibble_step ctx n (zh, zl) = (zh', zl')" "table_ok (HH ctx) (HL ctx) h" "n < 16"
  shows "cat128 zh' zl' = mulx (mulx (mulx (mulx (cat128 zh zl)))) XOR nibble_mul n h"
proof -
  define r where "r = last4 ! unat (zl AND 0xf)"
  have m: "(0xf :: 'a::len word) = mask 4" by (simp add: mask_eq_exp_minus_1)
  have "cat128 zh zl AND 0xf = ucast (zl AND 0xf)"
    unfolding m by (rule bit_word_eqI) (auto simp: bit_cat128 bit_simps)
  moreover have "unat (ucast (zl AND 0xf) :: 128 word) = unat (zl AND 0xf)"
    using unsigned_less [of "zl AND 0xf", where ?'a = nat] by (simp add: unsigned_ucast_eq take_bit_nat_eq_self_iff)
  ultimately have r: "last4 ! unat (cat128 zh zl AND 0xf) = r" by (simp only: r_def)
  have "cat128 (drop_bit 4 zh XOR push_bit 48 r) (push_bit 60 zh OR drop_bit 4 zl)
      = drop_bit 4 (cat128 zh zl) XOR push_bit 112 (ucast r)"
  proof (rule bit_word_eqI)
    fix n :: nat assume n: "n < LENGTH(128)"
    consider "n < 60" | "60 \<le> n \<and> n < 64" | "64 \<le> n" by linarith
    then show "bit (cat128 (drop_bit 4 zh XOR push_bit 48 r) (push_bit 60 zh OR drop_bit 4 zl)) n
        = bit (drop_bit 4 (cat128 zh zl) XOR push_bit 112 (ucast r)) n"
    proof cases
      case 3
      then have "4 + n - 64 = 4 + (n - 64)" "n - 64 - 48 = n - 112" by simp_all
      then show ?thesis using 3 n by (auto simp: bit_cat128 bit_simps dest: bit_imp_le_length)
    qed (auto simp: bit_cat128 bit_simps dest: bit_imp_le_length)
  qed
  moreover have "zh' = (drop_bit 4 zh XOR push_bit 48 r) XOR HH ctx ! n" "zl' = (push_bit 60 zh OR drop_bit 4 zl) XOR HL ctx ! n"
    using assms(1) by (simp_all add: nibble_step_def Let_def r_def)
  moreover have "cat128 (HH ctx ! n) (HL ctx ! n) = nibble_mul n h" using assms(2,3) by (simp add: table_ok_def)
  ultimately show ?thesis by (simp only: cat128_xor mulx_4 r)
qed

text \<open>The eight bits of a byte, first coefficient first.\<close>

definition bits8 :: "byte \<Rightarrow> bool list" where
  "bits8 b = [bit b 7, bit b 6, bit b 5, bit b 4, bit b 3, bit b 2, bit b 1, bit b 0]"

lemma length_bits8 [simp]: "length (bits8 b) = 8"
  by (simp add: bits8_def)

lemma nibble_bits:
  "unat (drop_bit 4 b) < 16" "unat (b AND 0xf) < 16"
  "bit (unat (drop_bit 4 b)) k \<longleftrightarrow> bit b (4 + k)"
  "bit (unat (b AND 0xf)) k \<longleftrightarrow> k < 4 \<and> bit b k" for b :: byte
proof -
  have m: "(0xf :: byte) = mask 4" by (simp add: mask_eq_exp_minus_1)
  show "unat (drop_bit 4 b) < 16"
    using byte_lt_256 [of b] by (simp only: unat_drop_bit_eq) (simp add: drop_bit_eq_div)
  show "unat (b AND 0xf) < 16"
    using take_bit_nat_less_exp [of 4 "unat b"] by (simp add: m take_bit_eq_mask [symmetric] unsigned_take_bit_eq)
  show "bit (unat (drop_bit 4 b)) k \<longleftrightarrow> bit b (4 + k)"
    by (auto simp: bit_unsigned_iff bit_simps dest: bit_imp_le_length)
  show "bit (unat (b AND 0xf)) k \<longleftrightarrow> k < 4 \<and> bit b k"
    unfolding m by (auto simp: bit_unsigned_iff bit_simps dest: bit_imp_le_length)
qed

lemma horner_byte:
  "horner (bits8 b @ bs) h =
    mulx (mulx (mulx (mulx (mulx (mulx (mulx (mulx (horner bs h))))
      XOR nibble_mul (unat (b AND 0xf)) h)))) XOR nibble_mul (unat (drop_bit 4 b)) h"
proof -
  have n: "nibble_mul (unat (b AND 0xf)) h = horner [bit b 3, bit b 2, bit b 1, bit b 0] h"
    "nibble_mul (unat (drop_bit 4 b)) h = horner [bit b 7, bit b 6, bit b 5, bit b 4] h"
    unfolding nibble_mul_def nibble_bits(3,4) by simp_all
  show ?thesis unfolding n bits8_def by (simp add: mulx_xor xor_ac)
qed

lemma gcm_mult_step_cat:
  assumes "gcm_mult_step ctx x (zh, zl) i = (zh', zl')" "table_ok (HH ctx) (HL ctx) h" "i \<noteq> 15"
    and "cat128 zh zl = horner bs h"
  shows "cat128 zh' zl' = horner (bits8 (x ! i) @ bs) h"
proof -
  obtain yh yl where y: "nibble_step ctx (unat (x ! i AND 0xf)) (zh, zl) = (yh, yl)"
    by (cases "nibble_step ctx (unat (x ! i AND 0xf)) (zh, zl)")
  then have "nibble_step ctx (unat (drop_bit 4 (x ! i))) (yh, yl) = (zh', zl')"
    using assms(1,3) by (simp add: gcm_mult_step_def Let_def)
  from nibble_step_cat [OF this assms(2) nibble_bits(1)] nibble_step_cat [OF y assms(2) nibble_bits(2)]
  show ?thesis unfolding horner_byte assms(4) by simp
qed

lemma gcm_mult_fold:
  assumes "table_ok (HH ctx) (HL ctx) h" "length x = 16" "m \<le> 15"
    and "foldl (gcm_mult_step ctx x) (HH ctx ! unat (x ! 15 AND 0xf), HL ctx ! unat (x ! 15 AND 0xf)) (rev [m..<16])
      = (zh, zl)"
  shows "cat128 zh zl = horner (concat (map bits8 (drop m x))) h"
  using assms(3,4)
proof (induction m arbitrary: zh zl rule: inc_induct)
  case base
  have x: "drop 15 x = [x ! 15]" using assms(2) by (simp add: Cons_nth_drop_Suc [symmetric])
  have "rev [15..<16] = [15 :: nat]" by (simp add: upt_conv_Cons)
  then have "nibble_step ctx (unat (drop_bit 4 (x ! 15))) (HH ctx ! unat (x ! 15 AND 0xf), HL ctx ! unat (x ! 15 AND 0xf)) = (zh, zl)"
    using base by (simp add: gcm_mult_step_def Let_def)
  from nibble_step_cat [OF this assms(1) nibble_bits(1)]
  have "cat128 zh zl = mulx (mulx (mulx (mulx (nibble_mul (unat (x ! 15 AND 0xf)) h)))) XOR nibble_mul (unat (drop_bit 4 (x ! 15))) h"
    using assms(1) nibble_bits(2) [of "x ! 15"] by (simp add: table_ok_def)
  then show ?case using horner_byte [of "x ! 15" "[]" h] by (simp add: x)
next
  case (step m)
  have "rev [m..<16] = rev [Suc m..<16] @ [m]" using step.hyps by (simp add: upt_conv_Cons)
  moreover obtain yh yl where y: "foldl (gcm_mult_step ctx x)
      (HH ctx ! unat (x ! 15 AND 0xf), HL ctx ! unat (x ! 15 AND 0xf)) (rev [Suc m..<16]) = (yh, yl)"
    by (cases "foldl (gcm_mult_step ctx x)
      (HH ctx ! unat (x ! 15 AND 0xf), HL ctx ! unat (x ! 15 AND 0xf)) (rev [Suc m..<16])")
  ultimately have "gcm_mult_step ctx x (yh, yl) m = (zh, zl)" using step.prems by simp
  from gcm_mult_step_cat [OF this assms(1) _ step.IH [OF y]]
  show ?case using step.hyps assms(2) Cons_nth_drop_Suc [of m x, symmetric] by simp
qed

section \<open>Blocks and bytes\<close>

lemma bit_block_of: "bit (block_of b) n \<longleftrightarrow> n < 128 \<and> n < 8 * length b \<and> bit (b ! (length b - 1 - n div 8)) (n mod 8)"
proof (induction b arbitrary: n rule: rev_induct)
  case (snoc c b)
  have e: "block_of (b @ [c]) = push_bit 8 (block_of b) XOR ucast c" by (simp add: block_of_def)
  show ?case
  proof (cases "n < 8")
    case True
    then show ?thesis unfolding e by (auto simp: bit_simps)
  next
    case False
    define q where "q = (n - 8) div 8"
    have q: "n div 8 = Suc q" "(n - 8) mod 8 = n mod 8"
      using False by (auto simp: q_def le_div_geq le_mod_geq)
    have "bit (block_of (b @ [c])) n \<longleftrightarrow> n < 128 \<and> bit (block_of b) (n - 8)"
      unfolding e using False by (auto simp: bit_simps dest: bit_imp_le_length)
    also have "\<dots> \<longleftrightarrow> n < 128 \<and> n < 8 * Suc (length b) \<and> bit (b ! (length b - 1 - q)) (n mod 8)"
      unfolding snoc q_def [symmetric] q(2) using False by auto
    also have "b ! (length b - 1 - q) = (b @ [c]) ! (length (b @ [c]) - 1 - n div 8)" if "n < 8 * Suc (length b)"
    proof -
      have "q < length b" using that q(1) by (auto simp: q_def)
      then have "length b - Suc q < length b" by linarith
      then show ?thesis by (simp add: nth_append q(1))
    qed
    ultimately show ?thesis by auto
  qed
qed (simp add: block_of_def)

lemma bits_of_block:
  assumes "length x = 16"
  shows "map (\<lambda>i. bit (block_of x) (127 - i)) [0..<128] = concat (map bits8 x)"
proof -
  have c: "length (concat (map bits8 y)) = 8 * length y \<and>
      (\<forall>i < 8 * length y. concat (map bits8 y) ! i = bit (y ! (i div 8)) (7 - i mod 8))" for y
  proof (induction y)
    case (Cons b y)
    have "concat (map bits8 (b # y)) ! i = bit ((b # y) ! (i div 8)) (7 - i mod 8)" if "i < 8 * length (b # y)" for i
    proof (cases "i < 8")
      case True
      then have "i \<in> {0, 1, 2, 3, 4, 5, 6, 7}" by auto
      then show ?thesis by (auto simp: bits8_def nth_append)
    next
      case False
      then have "i div 8 = Suc ((i - 8) div 8)" "(i - 8) mod 8 = i mod 8" by (auto simp: le_div_geq le_mod_geq)
      then show ?thesis using Cons that False by (simp add: nth_append)
    qed
    then show ?case using Cons by simp
  qed simp
  show ?thesis
  proof (rule nth_equalityI)
    fix i assume "i < length (map (\<lambda>i. bit (block_of x) (127 - i)) [0..<128])"
    then have i: "i < 128" by simp
    define a where "a = i div 8"
    define r where "r = i mod 8"
    have ar: "i = 8 * a + r" "a < 16" "r < 8" using i by (auto simp: a_def r_def)
    then have "127 - i = 8 * (15 - a) + (7 - r)" by linarith
    then have "(127 - i) div 8 = 15 - a" "(127 - i) mod 8 = 7 - r" by simp_all
    then have "15 - (127 - i) div 8 = i div 8" "(127 - i) mod 8 = 7 - i mod 8"
      using ar(2) by (simp_all add: a_def r_def)
    then show "map (\<lambda>i. bit (block_of x) (127 - i)) [0..<128] ! i = concat (map bits8 x) ! i"
      using i c [of x] assms by (simp add: bit_block_of less_imp_diff_less)
  qed (use c assms in simp)
qed

lemma cat_bytes:
  "PUT_UINT32_BE (drop_bit 32 zh) @ PUT_UINT32_BE zh @ PUT_UINT32_BE (drop_bit 32 zl) @ PUT_UINT32_BE zl
    = bytes_of_block (cat128 zh zl)"
proof -
  have hi: "(ucast (drop_bit (64 + k) (cat128 zh zl)) :: byte) = ucast (drop_bit k zh)" for k
    by (rule bit_word_eqI) (auto simp: bit_cat128 bit_simps dest: bit_imp_le_length)
  have lo: "(ucast (drop_bit k (cat128 zh zl)) :: byte) = ucast (drop_bit k zl)" if "k \<le> 56" for k
    using that by (intro bit_word_eqI) (auto simp: bit_cat128 bit_simps)
  show ?thesis
    using hi [of 0] hi [of 8] hi [of 16] hi [of 24] hi [of 32] hi [of 40] hi [of 48] hi [of 56]
      lo [of 0] lo [of 8] lo [of 16] lo [of 24] lo [of 32] lo [of 40] lo [of 48] lo [of 56]
    by (simp add: bytes_of_block_def upt_16 PUT_UINT32_BE_def)
qed

lemma gcm_mult_gf_mul:
  assumes "table_ok (HH ctx) (HL ctx) (block_of h)" "length x = 16"
  shows "gcm_mult ctx x = gf_mul x h"
proof -
  obtain zh zl where z: "foldl (gcm_mult_step ctx x) (HH ctx ! unat (x ! 15 AND 0xf), HL ctx ! unat (x ! 15 AND 0xf))
      (rev [0..<16]) = (zh, zl)" by fastforce
  have "cat128 zh zl = nist_mul (block_of x) (block_of h)"
    using gcm_mult_fold [OF assms, of 0 zh zl] z bits_of_block [OF assms(2)] by (simp add: nist_mul_horner)
  then show ?thesis unfolding gcm_mult_def Let_def z prod.case cat_bytes gf_mul_def by simp
qed

end
