(* ===== verification/Gcm_Spec.thy ===== *)
theory Gcm_Spec
  imports Gcm_Field Gcm_Aead
begin

text \<open>
  Galois/counter mode as NIST SP 800-38D defines it, over an abstract block cipher, and the proof that
  the streaming code of \<open>gcm.c\<close> over AES computes it.
\<close>

section \<open>The standard\<close>

function blocks16 :: "bytes \<Rightarrow> bytes list" where
  "blocks16 p = (if p = [] then [] else (take 16 p @ replicate (16 - length (take 16 p)) 0) # blocks16 (drop 16 p))"
  by pat_completeness auto
termination by (relation "measure length") auto

declare blocks16.simps [simp del]

definition ghash :: "bytes \<Rightarrow> bytes \<Rightarrow> bytes list \<Rightarrow> bytes" where
  "ghash h y bs = foldl (\<lambda>y b. gf_mul (xor_bytes y b) h) y bs"

definition inc32 :: "bytes \<Rightarrow> bytes" where
  "inc32 y = take 12 y @ be_bytes 4 (word_of_nat (be_val (drop 12 y)) + 1 :: u32)"

function gctr :: "(bytes \<Rightarrow> bytes) \<Rightarrow> bytes \<Rightarrow> bytes \<Rightarrow> bytes" where
  "gctr E icb p = (if p = [] then []
     else xor_bytes (take (length (take 16 p)) (E icb)) (take 16 p) @ gctr E (inc32 icb) (drop 16 p))"
  by pat_completeness auto
termination by (relation "measure (\<lambda>(E, icb, p). length p)") auto

declare gctr.simps [simp del]

definition nist_j0 :: "bytes \<Rightarrow> bytes \<Rightarrow> bytes" where
  "nist_j0 h iv =
     (if length iv = 12 then iv @ [0, 0, 0, 1]
      else ghash h (replicate 16 0) (blocks16 iv @ [replicate 8 0 @ be_bytes 8 (word_of_nat (8 * length iv) :: u64)]))"

definition nist_gcm :: "(bytes \<Rightarrow> bytes) \<Rightarrow> bytes \<Rightarrow> bytes \<Rightarrow> bytes \<Rightarrow> nat \<Rightarrow> bytes \<times> bytes" where
  "nist_gcm E iv add p t =
     (let h = E (replicate 16 0);
          j0 = nist_j0 h iv;
          c = gctr E (inc32 j0) p;
          s = ghash h (replicate 16 0) (blocks16 add @ blocks16 c
                @ [be_bytes 8 (word_of_nat (8 * length add) :: u64) @ be_bytes 8 (word_of_nat (8 * length c) :: u64)])
      in (c, take t (gctr E j0 s)))"

section \<open>The counter\<close>

lemma gcm_increment_carry:
  assumes "length a = 12"
  shows "\<exists>cs'. gcm_increment (length cs) (a @ cs @ rest) = a @ cs' @ rest \<and> length cs' = length cs
    \<and> be_val cs' = (be_val cs + 1) mod 256 ^ length cs"
proof (induction cs arbitrary: rest rule: rev_induct)
  case Nil
  then show ?case by simp
next
  case (snoc b cs)
  have l: "12 + length cs = length (a @ cs)" using assms by simp
  have n: "(a @ (cs @ [b]) @ rest) ! (12 + length cs) = b" unfolding l by (simp add: nth_append)
  have u: "(a @ (cs @ [b]) @ rest)[12 + length cs := b + 1] = a @ cs @ (b + 1) # rest"
    unfolding l by (simp add: list_update_append)
  show ?case
  proof (cases "b + 1 = 0")
    case True
    then have "b = - 1" by (simp add: eq_neg_iff_add_eq_0)
    then have b: "unat b = 255" by (simp add: unsigned_minus_1_eq_mask mask_eq_exp_minus_1)
    obtain cs' where c: "gcm_increment (length cs) (a @ cs @ 0 # rest) = a @ cs' @ 0 # rest" "length cs' = length cs"
        "be_val cs' = (be_val cs + 1) mod 256 ^ length cs"
      using snoc.IH [of "0 # rest"] by auto
    have "be_val (cs' @ [0]) = 256 * be_val cs'" by (simp add: be_simps)
    also have "\<dots> = (256 * (be_val cs + 1)) mod 256 ^ length (cs @ [b])" unfolding c(3) by (simp add: mult_mod_right)
    also have "256 * (be_val cs + 1) = be_val (cs @ [b]) + 1" using b by (simp add: be_simps)
    finally have "be_val (cs' @ [0]) = (be_val (cs @ [b]) + 1) mod 256 ^ length (cs @ [b])" .
    moreover have "gcm_increment (length (cs @ [b])) (a @ (cs @ [b]) @ rest) = a @ (cs' @ [0]) @ rest"
      using c(1) n u True assms by (simp add: Let_def nth_append)
    ultimately show ?thesis using c(2) by (intro exI [of _ "cs' @ [0]"]) simp
  next
    case False
    then have b: "unat (b + 1) = unat b + 1" by (metis Suc_eq_plus1 add.commute unatSuc)
    have "be_val (cs @ [b + 1]) = be_val (cs @ [b]) + 1" using b by (simp add: be_simps)
    moreover have "be_val (cs @ [b + 1]) < 256 ^ length (cs @ [b])" using be_val_bound [of "cs @ [b + 1]"] by simp
    moreover have "gcm_increment (length (cs @ [b])) (a @ (cs @ [b]) @ rest) = a @ (cs @ [b + 1]) @ rest"
      using n u False assms by (simp add: Let_def nth_append)
    ultimately show ?thesis by (intro exI [of _ "cs @ [b + 1]"]) simp
  qed
qed

lemma gcm_increment_inc32:
  assumes "length y = 16"
  shows "gcm_increment 4 y = inc32 y"
proof -
  have y: "y = take 12 y @ drop 12 y @ []" "length (take 12 y) = 12" and l: "length (drop 12 y) = 4" using assms by simp_all
  obtain cs where c: "gcm_increment 4 y = take 12 y @ cs" "length cs = 4" "be_val cs = (be_val (drop 12 y) + 1) mod 256 ^ 4"
    using gcm_increment_carry [OF y(2), of "drop 12 y" "[]"] l by (auto simp flip: y(1))
  have "be_val cs = be_val (be_bytes 4 (word_of_nat (be_val (drop 12 y)) + 1 :: u32))"
    unfolding be_val_be_bytes c(3) by (simp add: unat_word_ariths unsigned_of_nat take_bit_eq_mod mod_simps)
  then have "cs = be_bytes 4 (word_of_nat (be_val (drop 12 y)) + 1 :: u32)" using be_val_inj c(2) by fastforce
  then show ?thesis using c(1) by (simp add: inc32_def)
qed

section \<open>Lengths and tables\<close>

lemma be_bytes_put: "PUT_UINT32_BE (drop_bit 32 w) @ PUT_UINT32_BE w = be_bytes 8 w" for w :: u64
proof -
  have m: "(0xff :: u64) = mask 8" by (simp add: mask_eq_exp_minus_1)
  have "byte_at w n = ucast (drop_bit (8 * n) w)" for n
    by (rule bit_word_eqI) (auto simp: byte_at_def m bit_simps)
  then show ?thesis by (simp add: PUT_UINT32_BE_def eval_nat_numeral)
qed

lemma put_get:
  assumes "i + 3 < length b"
  shows "PUT_UINT32_BE (GET_UINT32_BE b i) = [b ! i, b ! (i + 1), b ! (i + 2), b ! (i + 3)]"
    and "drop_bit 32 (GET_UINT32_BE b i) = 0"
proof -
  have c: "ucast (drop_bit 24 (GET_UINT32_BE b i)) = b ! i" "ucast (drop_bit 16 (GET_UINT32_BE b i)) = b ! (i + 1)"
    "ucast (drop_bit 8 (GET_UINT32_BE b i)) = b ! (i + 2)" "ucast (GET_UINT32_BE b i) = b ! (i + 3)"
    by (rule bit_word_eqI; auto simp: GET_UINT32_BE_def bit_simps dest: bit_imp_le_length)+
  then show "PUT_UINT32_BE (GET_UINT32_BE b i) = [b ! i, b ! (i + 1), b ! (i + 2), b ! (i + 3)]"
    by (simp add: PUT_UINT32_BE_def)
  show "drop_bit 32 (GET_UINT32_BE b i) = 0"
    by (rule bit_word_eqI) (auto simp: GET_UINT32_BE_def bit_simps dest: bit_imp_le_length)
qed

lemma put_join:
  assumes "drop_bit 32 g = 0" "drop_bit 32 g' = 0"
  shows "PUT_UINT32_BE (drop_bit 32 (push_bit 32 g OR g')) = PUT_UINT32_BE g"
    and "PUT_UINT32_BE (push_bit 32 g OR g') = PUT_UINT32_BE g'"
proof -
  have b: "\<not> bit g (32 + n)" "\<not> bit g' (32 + n)" for n
    using arg_cong [OF assms(1), of "\<lambda>w. bit w n"] arg_cong [OF assms(2), of "\<lambda>w. bit w n"]
    by (simp_all add: bit_drop_bit_eq)
  have "bit g n \<Longrightarrow> n < 32" for n using b(1) [of "n - 32"] by (cases "n < 32") simp_all
  then have "drop_bit 32 (push_bit 32 g OR g') = g"
    by (intro bit_word_eqI) (use b(2) in \<open>auto simp: bit_simps\<close>)
  then show "PUT_UINT32_BE (drop_bit 32 (push_bit 32 g OR g')) = PUT_UINT32_BE g" by simp
  show "PUT_UINT32_BE (push_bit 32 g OR g') = PUT_UINT32_BE g'"
    unfolding PUT_UINT32_BE_def list.inject
    by (intro conjI refl TrueI bit_word_eqI) (auto simp: bit_simps)
qed

lemma block_of_bytes: "block_of (bytes_of_block w) = w"
proof (rule bit_word_eqI)
  fix n assume n: "n < LENGTH(128)"
  then have "8 * (n div 8) + n mod 8 = n" "n div 8 < 16" by simp_all
  then show "bit (block_of (bytes_of_block w)) n = bit w n"
    using n by (simp add: bit_block_of bytes_of_block_def bit_simps)
qed

lemma setkey_table:
  assumes "gcm_setkey key keybits = Inr ctx"
  shows "table_ok (HH ctx) (HL ctx) (block_of (aes_crypt_ecb (cipher_ctx ctx) AES_ENCRYPT (replicate 16 0)))"
proof -
  define h where "h = aes_crypt_ecb (cipher_ctx ctx) AES_ENCRYPT (replicate 16 0)"
  have l: "length h = 16" by (simp add: h_def)
  define vh where "vh = push_bit 32 (GET_UINT32_BE h 0) OR GET_UINT32_BE h 4"
  define vl where "vl = push_bit 32 (GET_UINT32_BE h 8) OR GET_UINT32_BE h 12"
  have t: "gcm_tables vh vl = (HH ctx, HL ctx)"
    using assms by (auto simp: gcm_setkey_def gcm_gen_table_def cipher_update_def vh_def vl_def h_def Let_def
        split: if_splits sum.splits prod.splits)
  have d: "drop_bit 32 (GET_UINT32_BE h i) = 0" if "i \<le> 12" for i using put_get(2) [of i h] l that by simp
  have "PUT_UINT32_BE (drop_bit 32 vh) = [h ! 0, h ! 1, h ! 2, h ! 3]" "PUT_UINT32_BE vh = [h ! 4, h ! 5, h ! 6, h ! 7]"
    "PUT_UINT32_BE (drop_bit 32 vl) = [h ! 8, h ! 9, h ! 10, h ! 11]" "PUT_UINT32_BE vl = [h ! 12, h ! 13, h ! 14, h ! 15]"
    using put_join [OF d d, of 0 4] put_join [OF d d, of 8 12] l unfolding vh_def vl_def
    by (simp_all only: put_get) (simp_all add: put_get flip: numeral_2_eq_2)
  then have "bytes_of_block (cat128 vh vl) = map (nth h) [0..<16]"
    unfolding cat_bytes [symmetric] upt_16 by simp
  also have "\<dots> = h" using l map_nth [of h] by simp
  finally have "bytes_of_block (cat128 vh vl) = h" .
  then have "block_of h = cat128 vh vl" using block_of_bytes [of "cat128 vh vl"] by simp
  then show ?thesis using gcm_tables_ok [OF t] by (simp add: h_def)
qed

section \<open>Hashing\<close>

abbreviation pad16 :: "bytes \<Rightarrow> bytes" where
  "pad16 b \<equiv> b @ replicate (16 - length b) 0"

lemma xor_into_pad:
  assumes "length y = 16" "length b \<le> 16"
  shows "xor_into y b = xor_bytes y (pad16 b)"
  using assms by (intro nth_equalityI) (auto simp: xor_into_def xor_bytes_def nth_append)

lemma blocks16_step: "p \<noteq> [] \<Longrightarrow> blocks16 p = pad16 (take 16 p) # blocks16 (drop 16 p)"
  by (subst blocks16.simps) simp

lemma blocks16_Nil [simp]: "blocks16 [] = []"
  by (simp add: blocks16.simps)

lemma gctr_Nil [simp]: "gctr E y [] = []"
  by (simp add: gctr.simps)

lemma gctr_step: "p \<noteq> [] \<Longrightarrow>
    gctr E y p = xor_bytes (take (length (take 16 p)) (E y)) (take 16 p) @ gctr E (inc32 y) (drop 16 p)"
  by (subst gctr.simps) simp

lemma absorb_ghash:
  "table_ok (HH ctx) (HL ctx) (block_of h) \<Longrightarrow> length y = 16 \<Longrightarrow> gcm_absorb ctx y p = ghash h y (blocks16 p)"
proof (induction ctx y p rule: gcm_absorb.induct)
  case (1 ctx y p)
  show ?case
  proof (cases "p = []")
    case True
    then show ?thesis by (simp add: gcm_absorb.simps ghash_def)
  next
    case False
    define y' where "y' = gcm_mult ctx (xor_into y (take 16 p))"
    have e: "y' = gf_mul (xor_bytes y (pad16 (take 16 p))) h"
      unfolding y'_def using 1(2,3) gcm_mult_gf_mul [OF 1(2)] by (simp add: xor_into_pad)
    have "gcm_absorb ctx y' (drop 16 p) = ghash h y' (blocks16 (drop 16 p))"
      using 1 False by (simp add: y'_def)
    then show ?thesis
      using False by (simp add: gcm_absorb.simps [of ctx y p] y'_def [symmetric] blocks16_step ghash_def e)
  qed
qed

lemma length_gctr [simp]: "\<forall>y. length (E y) = 16 \<Longrightarrow> length (gctr E y p) = length p"
proof (induction "length p" arbitrary: y p rule: less_induct)
  case less
  then show ?case by (cases "p = []") (simp_all add: gctr_step xor_bytes_def)
qed

lemma update_ghash:
  assumes "table_ok (HH ctx) (HL ctx) (block_of h)" "length (gcm_y ctx) = 16" "length (gcm_buf ctx) = 16"
    and "gcm_mode ctx = AES_ENCRYPT" and "aes_crypt_ecb (cipher_ctx ctx) AES_ENCRYPT = E"
  shows "\<exists>ctx'. gcm_update_loop ctx p [] = Inr (ctx', gctr E (inc32 (gcm_y ctx)) p)
    \<and> gcm_buf ctx' = ghash h (gcm_buf ctx) (blocks16 (gctr E (inc32 (gcm_y ctx)) p))"
  using assms
proof (induction "length p" arbitrary: ctx p rule: less_induct)
  case less
  show ?case
  proof (cases "p = []")
    case True
    then show ?thesis by (simp add: gcm_update_loop.simps ghash_def)
  next
    case False
    define y where "y = inc32 (gcm_y ctx)"
    define out where "out = xor_bytes (take (length (take 16 p)) (E y)) (take 16 p)"
    define ctx1 where "ctx1 = ctx\<lparr>gcm_y := y, gcm_buf := gcm_mult ctx (xor_into (gcm_buf ctx) out)\<rparr>"
    define rest where "rest = gctr E (inc32 y) (drop 16 p)"
    have yl: "length y = 16" using less.prems(2) gcm_increment_inc32 [of "gcm_y ctx"] length_gcm_increment [of 4 "gcm_y ctx"]
      unfolding y_def by simp
    have El: "length (E y) = 16" using less.prems(5) by auto
    have ol: "length out = length (take 16 p)" using El by (simp add: out_def xor_bytes_def)
    have "gcm_update_loop ctx p [] = gcm_update_loop ctx1 (drop 16 p) out"
      using update_loop_step [OF False less.prems(2), of "[]"] less.prems gcm_increment_inc32 [OF less.prems(2)]
      by (simp add: ctx1_def out_def y_def xor_bytes_def)
    also have "\<dots> = (case gcm_update_loop ctx1 (drop 16 p) [] of Inl e \<Rightarrow> Inl e | Inr (c, o') \<Rightarrow> Inr (c, out @ o'))"
      by (rule update_loop_append) (simp add: ctx1_def yl)
    finally have u: "gcm_update_loop ctx p [] = \<dots>" .
    have "table_ok (HH ctx1) (HL ctx1) (block_of h)" "length (gcm_y ctx1) = 16" "length (gcm_buf ctx1) = 16"
      "gcm_mode ctx1 = AES_ENCRYPT" "aes_crypt_ecb (cipher_ctx ctx1) AES_ENCRYPT = E"
      using less.prems yl by (simp_all add: ctx1_def)
    from less.hyps [OF _ this, of "drop 16 p"] obtain ctx' where
      c: "gcm_update_loop ctx1 (drop 16 p) [] = Inr (ctx', rest)"
        "gcm_buf ctx' = ghash h (gcm_buf ctx1) (blocks16 rest)"
      using False by (auto simp: rest_def ctx1_def)
    have g: "gctr E (inc32 (gcm_y ctx)) p = out @ rest"
      using False by (simp add: gctr_step out_def rest_def y_def)
    have "out \<noteq> []" using ol False by (cases p) auto
    moreover have "take 16 (out @ rest) = out \<and> drop 16 (out @ rest) = rest"
      using ol by (cases "16 \<le> length p") (simp_all add: rest_def)
    ultimately have b: "blocks16 (out @ rest) = pad16 out # blocks16 rest" by (simp add: blocks16_step)
    have "gcm_buf ctx1 = gf_mul (xor_bytes (gcm_buf ctx) (pad16 out)) h"
      using less.prems(1,3) ol gcm_mult_gf_mul [OF less.prems(1)] by (simp add: ctx1_def xor_into_pad)
    then show ?thesis using u c by (simp add: g b ghash_def)
  qed
qed

lemma starts_j0:
  assumes tbl: "table_ok (HH ctx) (HL ctx) (block_of h)" and l: "length iv < 2 ^ 29" "length add < 2 ^ 61"
    and E: "aes_crypt_ecb (cipher_ctx ctx) AES_ENCRYPT = E"
  shows "gcm_starts ctx m iv add = Inr (ctx\<lparr>gcm_mode := m, gcm_len := 0, gcm_y := nist_j0 h iv,
    base_ectr := E (nist_j0 h iv), add_len := word_of_nat (length add),
    gcm_buf := ghash h (replicate 16 0) (blocks16 add)\<rparr>) \<and> length (nist_j0 h iv) = 16"
proof -
  define w :: u64 where "w = word_of_nat (length iv * 8)"
  have w: "drop_bit 32 w = 0"
  proof -
    have "unat w = take_bit 64 (length iv * 8)" unfolding w_def unsigned_of_nat by simp
    also have "\<dots> = length iv * 8" using l(1) by (intro take_bit_nat_eq_self) simp
    finally have "unat w = length iv * 8" .
    then have "unat (drop_bit 32 w) = 0" using l(1)
      by (simp only: unsigned_drop_bit_eq) (simp add: drop_bit_eq_div take_bit_nat_eq_self)
    then show ?thesis by (simp only: unat_eq_zero)
  qed
  have b: "be_bytes 8 w = replicate 4 0 @ PUT_UINT32_BE w"
    unfolding be_bytes_put [symmetric] w by (simp add: PUT_UINT32_BE_def eval_nat_numeral)
  define ctx' where "ctx' = ctx\<lparr>gcm_mode := m, gcm_len := 0, add_len := 0\<rparr>"
  have t: "table_ok (HH ctx') (HL ctx') (block_of h)" using tbl by (simp add: ctx'_def)
  have z: "replicate 12 0 @ PUT_UINT32_BE w = replicate 8 0 @ be_bytes 8 w" unfolding b by (simp add: eval_nat_numeral)
  have len: "length (replicate 12 0 @ PUT_UINT32_BE w) = 16" by (simp add: PUT_UINT32_BE_def)
  define y where "y = gcm_absorb ctx' (replicate 16 0) iv"
  have y: "y = ghash h (replicate 16 0) (blocks16 iv)" "length y = 16"
    unfolding y_def using absorb_ghash [OF t, of "replicate 16 0"] length_gcm_absorb [of "replicate 16 0" ctx' iv] by simp_all
  have "gcm_mult ctx' (xor_into y (replicate 12 0 @ PUT_UINT32_BE w)) = gf_mul (xor_bytes y (replicate 8 0 @ be_bytes 8 w)) h"
    using xor_into_pad [OF y(2), of "replicate 12 0 @ PUT_UINT32_BE w"] len
      gcm_mult_gf_mul [OF t length_xor_into, of y "replicate 12 0 @ PUT_UINT32_BE w"] by (simp add: z)
  also have "\<dots> = ghash h (replicate 16 0) (blocks16 iv @ [replicate 8 0 @ be_bytes 8 (word_of_nat (8 * length iv) :: u64)])"
    using y(1) by (simp add: ghash_def w_def mult.commute)
  finally have j: "(if length iv = 12 then (iv @ replicate 4 0)[15 := 1]
      else gcm_mult ctx' (xor_into y (replicate 12 0 @ PUT_UINT32_BE w))) = nist_j0 h iv" (is "?j = _")
    by (auto simp: nist_j0_def list_update_append eval_nat_numeral)
  have "length ?j = 16" by auto
  then have jl: "length (nist_j0 h iv) = 16" unfolding j .
  have "drop_bit 61 (length iv) = 0" "drop_bit 61 (length add) = 0"
    using l by (simp_all add: drop_bit_eq_div div_eq_0_iff)
  then have "gcm_starts ctx m iv add = Inr (ctx'\<lparr>gcm_y := nist_j0 h iv,
      base_ectr := E (nist_j0 h iv), add_len := word_of_nat (length add),
      gcm_buf := gcm_absorb ctx' (replicate 16 0) add\<rparr>)"
    using jl E unfolding gcm_starts_def Let_def ctx'_def [symmetric] y_def [symmetric] w_def [symmetric] j
    by (simp add: cipher_update_def ctx'_def)
  also have "gcm_absorb ctx' (replicate 16 0) add = ghash h (replicate 16 0) (blocks16 add)"
    by (rule absorb_ghash [OF t]) simp
  finally show ?thesis using jl by (simp add: ctx'_def)
qed

section \<open>The equivalence\<close>

lemma put_length: "PUT_UINT32_BE (drop_bit 32 a) @ PUT_UINT32_BE a @ PUT_UINT32_BE (drop_bit 32 b) @ PUT_UINT32_BE b
    = be_bytes 8 a @ be_bytes 8 b"
  using be_bytes_put [of a] be_bytes_put [of b] by (metis append_assoc)

lemma word_len_zero:
  assumes "n < 2 ^ 61"
  shows "(word_of_nat n * 8 :: u64) = 0 \<longleftrightarrow> n = 0"
proof -
  have "unat (word_of_nat (n * 8) :: u64) = take_bit 64 (n * 8)" unfolding unsigned_of_nat by simp
  also have "\<dots> = n * 8" using assms by (intro take_bit_nat_eq_self) simp
  finally have "(word_of_nat (n * 8) :: u64) = 0 \<longleftrightarrow> n = 0" by (metis mult_is_0 unat_eq_zero zero_neq_numeral)
  then show ?thesis by simp
qed

lemma gf_mul_zero: "gf_mul (replicate 16 0) h = replicate 16 0"
proof -
  have "block_of (replicate 16 0) = 0" by (rule bit_word_eqI) (simp add: bit_block_of)
  moreover have "fst (foldl (\<lambda>(z, v) i. (if bit (0 :: 128 word) (127 - i) then z XOR v else z, mulx v)) (0, y) xs) = 0"
    for y and xs :: "nat list"
    by (induction xs arbitrary: y) simp_all
  ultimately have "nist_mul (block_of (replicate 16 0)) (block_of h) = 0" by (simp only: nist_mul_def)
  then show ?thesis by (simp add: gf_mul_def bytes_of_block_def upt_16 eval_nat_numeral)
qed

lemma finish_tag:
  assumes tbl: "table_ok (HH ctx) (HL ctx) (block_of h)" and t: "4 \<le> n" "n \<le> 16"
    and b: "length (gcm_buf ctx) = 16" "length (base_ectr ctx) = 16"
    and l: "gcm_len ctx = word_of_nat lc" "lc < 2 ^ 61" "add_len ctx = word_of_nat la" "la < 2 ^ 61"
    and z: "lc = 0 \<Longrightarrow> la = 0 \<Longrightarrow> gcm_buf ctx = replicate 16 0"
  shows "gcm_finish ctx n = Inr (take n (xor_bytes (base_ectr ctx)
    (gf_mul (xor_bytes (gcm_buf ctx) (be_bytes 8 (word_of_nat (8 * la) :: u64) @ be_bytes 8 (word_of_nat (8 * lc) :: u64))) h)))"
proof -
  define work where "work = be_bytes 8 (word_of_nat (8 * la) :: u64) @ be_bytes 8 (word_of_nat (8 * lc) :: u64)"
  have w: "length work = 16" by (simp add: work_def)
  define buf where "buf = gf_mul (xor_bytes (gcm_buf ctx) work) h"
  have "gcm_mult ctx (xor_into (gcm_buf ctx) work) = buf"
    using gcm_mult_gf_mul [OF tbl] b(1) w by (simp add: buf_def xor_into_pad)
  then have f: "gcm_finish ctx n = (if lc \<noteq> 0 \<or> la \<noteq> 0
      then Inr (map2 (XOR) (take n (base_ectr ctx)) (take n buf)) else Inr (take n (base_ectr ctx)))"
    using t word_len_zero [OF l(2)] word_len_zero [OF l(4)]
    by (simp add: gcm_finish_def Let_def l(1,3) put_length work_def mult.commute)
  have "buf = replicate 16 0" if "lc = 0" "la = 0"
  proof -
    have "work = replicate 16 0" using that by (simp add: work_def byte_at_def eval_nat_numeral)
    then have "xor_bytes (gcm_buf ctx) work = replicate 16 0" using z that by (simp add: xor_bytes_def eval_nat_numeral)
    then show ?thesis by (simp add: buf_def gf_mul_zero)
  qed
  moreover have "xor_bytes x (replicate 16 0) = x" if "length x = 16" for x
    using that by (intro nth_equalityI) (simp_all add: xor_bytes_def)
  ultimately have "gcm_finish ctx n = Inr (take n (xor_bytes (base_ectr ctx) buf))"
    using f b(2) by (cases "lc = 0 \<and> la = 0") (simp_all, simp add: xor_bytes_def take_map take_zip)
  then show ?thesis by (simp add: buf_def work_def)
qed

lemma gctr_block:
  assumes "length s = 16" "length (E y) = 16"
  shows "gctr E y s = xor_bytes (E y) s"
proof -
  have "s \<noteq> []" using assms(1) by auto
  then show ?thesis using assms by (simp add: gctr_step)
qed

lemma length_ghash: "length y = 16 \<Longrightarrow> length (ghash h y bs) = 16"
  by (induction bs arbitrary: y) (simp_all add: ghash_def gf_mul_def bytes_of_block_def)

lemma gcm_is_nist_ctx:
  assumes tbl: "table_ok (HH ctx) (HL ctx) (block_of (E (replicate 16 0)))"
    and E: "aes_crypt_ecb (cipher_ctx ctx) AES_ENCRYPT = E"
    and l: "length iv < 2 ^ 29" "length add < 2 ^ 61" "length p \<le> 2 ^ 36 - 32" "4 \<le> n" "n \<le> 16"
  shows "gcm_crypt_and_tag ctx AES_ENCRYPT iv add p n = Inr (nist_gcm E iv add p n)"
proof -
  define h where "h = E (replicate 16 0)"
  note tbl = tbl [folded h_def]
  define j0 where "j0 = nist_j0 h iv"
  define ctx1 where "ctx1 = ctx\<lparr>gcm_mode := AES_ENCRYPT, gcm_len := 0, gcm_y := j0, base_ectr := E j0,
    add_len := word_of_nat (length add), gcm_buf := ghash h (replicate 16 0) (blocks16 add)\<rparr>"
  have s: "gcm_starts ctx AES_ENCRYPT iv add = Inr ctx1" "length j0 = 16"
    using starts_j0 [OF tbl l(1,2) E, of AES_ENCRYPT] by (simp_all add: ctx1_def j0_def)
  have lp: "unat (word_of_nat (length p) :: u64) = length p"
    using l(3) by (simp add: unsigned_of_nat take_bit_nat_eq_self)
  define ctx2 where "ctx2 = ctx1\<lparr>gcm_len := word_of_nat (length p)\<rparr>"
  define c where "c = gctr E (inc32 j0) p"
  have El: "\<forall>y. length (E y) = 16" using E by auto
  have c2: "table_ok (HH ctx2) (HL ctx2) (block_of h)" "length (gcm_y ctx2) = 16" "length (gcm_buf ctx2) = 16"
      "gcm_mode ctx2 = AES_ENCRYPT" "aes_crypt_ecb (cipher_ctx ctx2) AES_ENCRYPT = E"
    using tbl s(2) E by (simp_all add: ctx2_def ctx1_def length_ghash)
  obtain ctx3 where u: "gcm_update_loop ctx2 p [] = Inr (ctx3, c)"
      and b3: "gcm_buf ctx3 = ghash h (gcm_buf ctx2) (blocks16 c)"
    using update_ghash [OF c2, of p] by (auto simp: c_def ctx2_def ctx1_def)
  have k: "base_ectr ctx3 = E j0" "gcm_len ctx3 = word_of_nat (length p)" "add_len ctx3 = word_of_nat (length add)"
      "HH ctx3 = HH ctx" "HL ctx3 = HL ctx"
    using update_loop_keeps [OF u] by (simp_all add: ctx2_def ctx1_def)
  have cl: "length c = length p" using El by (simp add: c_def)
  have upd: "gcm_update ctx1 p = Inr (ctx3, c)"
    using u lp l(3) by (simp add: gcm_update_def Let_def ctx2_def word_less_nat_alt ctx1_def not_less)
  define s where "s = ghash h (replicate 16 0) (blocks16 add @ blocks16 c
      @ [be_bytes 8 (word_of_nat (8 * length add) :: u64) @ be_bytes 8 (word_of_nat (8 * length c) :: u64)])"
  have b16: "length (gcm_buf ctx3) = 16" using b3 c2(3) by (simp add: length_ghash)
  have bz: "gcm_buf ctx3 = replicate 16 0" if "length p = 0" "length add = 0"
    using that b3 cl by (simp add: ctx2_def ctx1_def ghash_def)
  have "gcm_finish ctx3 n = Inr (take n (xor_bytes (base_ectr ctx3) (gf_mul (xor_bytes (gcm_buf ctx3)
      (be_bytes 8 (word_of_nat (8 * length add) :: u64) @ be_bytes 8 (word_of_nat (8 * length p) :: u64))) h)))"
    by (rule finish_tag) (use tbl k l b16 bz El in auto)
  also have "gf_mul (xor_bytes (gcm_buf ctx3)
      (be_bytes 8 (word_of_nat (8 * length add) :: u64) @ be_bytes 8 (word_of_nat (8 * length p) :: u64))) h = s"
    using b3 cl by (simp add: s_def ghash_def ctx2_def ctx1_def)
  also have "xor_bytes (base_ectr ctx3) s = gctr E j0 s"
    using El k(1) by (simp add: gctr_block s_def length_ghash)
  finally have "gcm_finish ctx3 n = Inr (take n (gctr E j0 s))" .
  moreover have "nist_gcm E iv add p n = (c, take n (gctr E j0 s))"
    unfolding nist_gcm_def Let_def h_def [symmetric] j0_def [symmetric] c_def [symmetric] s_def [symmetric] ..
  ultimately show ?thesis
    using upd \<open>gcm_starts ctx AES_ENCRYPT iv add = Inr ctx1\<close> by (simp add: gcm_crypt_and_tag_def)
qed

text \<open>The block cipher restricted to blocks; the tables do not see other arguments.\<close>

lemma setkey_context:
  assumes "gcm_setkey key keybits = Inr ctx" and "length key = keybits div 8" and "length b = 16"
  shows "aes_crypt_ecb (cipher_ctx ctx) AES_ENCRYPT b = fips_aes key b"
proof -
  have k: "keybits \<in> key_sizes" "aes_setkey_enc key keybits = Inr (cipher_ctx ctx)"
    using assms(1) by (auto simp: gcm_setkey_def key_sizes_def split: if_splits sum.splits prod.splits)
  from aes_encrypt_fips [OF k(1) assms(2,3) k(2)] show ?thesis by (simp add: aes_crypt_ecb_def)
qed

lemma length_inc32 [simp]: "12 \<le> length y \<Longrightarrow> length (inc32 y) = 16"
  by (simp add: inc32_def)

lemma gctr_cong:
  assumes "\<And>b. length b = 16 \<Longrightarrow> E b = F b" and "length y = 16"
  shows "gctr E y p = gctr F y p"
  using assms(2)
proof (induction "length p" arbitrary: y p rule: less_induct)
  case less
  then show ?case using assms(1) by (cases "p = []") (simp_all add: gctr_step)
qed

lemma length_nist_j0: "length (nist_j0 h iv) = 16"
  by (simp add: nist_j0_def length_ghash)

lemma nist_gcm_cong:
  assumes "\<And>b. length b = 16 \<Longrightarrow> E b = F b"
  shows "nist_gcm E iv add p n = nist_gcm F iv add p n"
  using gctr_cong [OF assms] assms by (simp add: nist_gcm_def length_nist_j0 Let_def)

text \<open>C36: GCM is NIST SP 800-38D.  For every AES key size, \<open>mbedtls_gcm_setkey\<close> followed by
  \<open>mbedtls_gcm_crypt_and_tag\<close> computes the authenticated encryption of the standard over the AES of
  FIPS-197: the product in GF(2^128) with the table of sixteen multiples and the nibble reductions is
  the bitwise product of the standard, the pre-counter block, the 32-bit counter, the padding of the
  additional data and the ciphertext and the length block are those of the standard, for vectors below
  2^29 bytes, additional data below 2^61 and plaintexts up to 2^36 - 32 bytes.\<close>

theorem gcm_is_nist:
  assumes "keybits \<in> {128, 192, 256}" and "length key = keybits div 8"
    and "length iv < 2 ^ 29" "length add < 2 ^ 61" "length p \<le> 2 ^ 36 - 32" and "4 \<le> n" "n \<le> 16"
  shows "\<exists>ctx. gcm_setkey key keybits = Inr ctx
    \<and> gcm_crypt_and_tag ctx AES_ENCRYPT iv add p n = Inr (nist_gcm (fips_aes key) iv add p n)"
proof -
  have "\<exists>ctx. gcm_setkey key keybits = Inr ctx"
    using assms(1) by (auto simp: gcm_setkey_def aes_setkey_enc_def gcm_gen_table_def cipher_update_def Let_def
        split: prod.split)
  then obtain ctx where k: "gcm_setkey key keybits = Inr ctx" ..
  define E where "E = aes_crypt_ecb (cipher_ctx ctx) AES_ENCRYPT"
  have "table_ok (HH ctx) (HL ctx) (block_of (E (replicate 16 0)))"
    using setkey_table [OF k] by (simp add: E_def)
  from gcm_is_nist_ctx [OF this E_def [symmetric] assms(3-7)]
  have "gcm_crypt_and_tag ctx AES_ENCRYPT iv add p n = Inr (nist_gcm E iv add p n)" .
  moreover have "nist_gcm E iv add p n = nist_gcm (fips_aes key) iv add p n"
    by (rule nist_gcm_cong) (simp add: E_def setkey_context [OF k assms(2)])
  ultimately show ?thesis using k by auto
qed

theorem gcm_is_nist_witness:
  "\<exists>ctx. gcm_setkey (replicate 32 7) 256 = Inr ctx
    \<and> gcm_crypt_and_tag ctx AES_ENCRYPT (replicate 12 1) [5] [1, 2, 3] 16
        = Inr (nist_gcm (fips_aes (replicate 32 7)) (replicate 12 1) [5] [1, 2, 3] 16)"
  using gcm_is_nist [where keybits = 256 and key = "replicate 32 7" and iv = "replicate 12 1" and add = "[5]"
      and p = "[1, 2, 3]" and n = 16] by simp

end
