(* ===== verification/Mpi_Limbs.thy ===== *)
theory Mpi_Limbs
  imports Mpi
begin

text \<open>
  The limbs under the multi-precision integers (\<open>bignum.c\<close>): the arrays of 64-bit words, the loops that
  carry and borrow, the comparison, shifts, addition, subtraction and multiplication, and the proof that
  they compute on the values that \<^theory_text>\<open>Mpi\<close> and the theories above it use.
\<close>

section \<open>Numbers as limbs\<close>

type_synonym limbs = "u64 list"

text \<open>\<open>mpi_p\<close> has \<open>n\<close> limbs, the least significant first; a null pointer is the empty list.\<close>

record mpi =
  mpi_s :: int
  mpi_p :: limbs

fun limbs_val :: "limbs \<Rightarrow> nat" where
  "limbs_val [] = 0"
| "limbs_val (x # xs) = unat x + 2 ^ 64 * limbs_val xs"

definition mpi_val :: "mpi \<Rightarrow> int" where
  "mpi_val X = mpi_s X * int (limbs_val (mpi_p X))"

definition mpi_wf :: "mpi \<Rightarrow> bool" where
  "mpi_wf X \<longleftrightarrow> (mpi_s X = 1 \<or> mpi_s X = - 1)"

section \<open>Results\<close>

text \<open>A run of the code gives an error code or a result, or overruns an array (\<open>Inl UB\<close>).\<close>

type_synonym 'a chk = "(int + 'a) res"

abbreviation ok :: "'a \<Rightarrow> 'a chk" where
  "ok x \<equiv> Inr (Inr x)"

abbreviation fail :: "int \<Rightarrow> 'a chk" where
  "fail e \<equiv> Inr (Inl e)"

text \<open>\<open>MBEDTLS_MPI_CHK\<close>.\<close>

definition chk_bind :: "'a chk \<Rightarrow> ('a \<Rightarrow> 'b chk) \<Rightarrow> 'b chk" where
  "chk_bind m f = (case m of Inl e \<Rightarrow> Inl e | Inr (Inl e) \<Rightarrow> fail e | Inr (Inr x) \<Rightarrow> f x)"

lemma chk_bind_simps [simp]:
  "chk_bind (Inl e) f = Inl e"
  "chk_bind (fail c) f = fail c"
  "chk_bind (ok x) f = f x"
  by (simp_all add: chk_bind_def)

definition chk_res :: "'a res \<Rightarrow> 'a chk" where
  "chk_res m = (case m of Inl e \<Rightarrow> Inl e | Inr x \<Rightarrow> ok x)"

lemma chk_res_simps [simp]: "chk_res (Inl e) = Inl e" "chk_res (Inr x) = ok x"
  by (simp_all add: chk_res_def)

definition ERR_MPI_NEGATIVE_VALUE :: int where "ERR_MPI_NEGATIVE_VALUE = - 0x000A"
definition ERR_MPI_DIVISION_BY_ZERO :: int where "ERR_MPI_DIVISION_BY_ZERO = - 0x000C"
definition ERR_MPI_ALLOC_FAILED :: int where "ERR_MPI_ALLOC_FAILED = - 0x0010"
definition MPI_MAX_LIMBS :: nat where "MPI_MAX_LIMBS = 10000"

section \<open>Allocation and copying\<close>

text \<open>The memory itself never runs out; only the limit on the number of limbs makes an allocation fail.\<close>

definition mpi_init :: mpi where
  "mpi_init = \<lparr>mpi_s = 1, mpi_p = []\<rparr>"

definition mpi_grow :: "mpi \<Rightarrow> nat \<Rightarrow> mpi chk" where
  "mpi_grow X nblimbs =
     (if nblimbs > MPI_MAX_LIMBS then fail ERR_MPI_ALLOC_FAILED
      else if length (mpi_p X) < nblimbs
           then ok (X\<lparr>mpi_p := mpi_p X @ replicate (nblimbs - length (mpi_p X)) 0\<rparr>)
      else ok X)"

text \<open>The loops that look for the highest limb that is not zero, from \<open>n - 1\<close> down to 1 and from \<open>n\<close> down to 0.\<close>

fun last_nonzero :: "limbs \<Rightarrow> nat \<Rightarrow> nat" where
  "last_nonzero p 0 = 0"
| "last_nonzero p (Suc i) = (if p ! Suc i \<noteq> 0 then Suc i else last_nonzero p i)"

fun used_limbs :: "limbs \<Rightarrow> nat \<Rightarrow> nat" where
  "used_limbs p 0 = 0"
| "used_limbs p (Suc i) = (if p ! i \<noteq> 0 then Suc i else used_limbs p i)"

definition mpi_shrink :: "mpi \<Rightarrow> nat \<Rightarrow> mpi chk" where
  "mpi_shrink X nblimbs =
     (if length (mpi_p X) \<le> nblimbs then mpi_grow X nblimbs
      else let i = last_nonzero (mpi_p X) (length (mpi_p X) - 1) + 1;
               i = (if i < nblimbs then nblimbs else i)
           in ok (X\<lparr>mpi_p := take i (mpi_p X)\<rparr>))"

text \<open>\<open>X\<close> and \<open>Y\<close> are different objects; otherwise nothing happens.\<close>

definition mpi_copy :: "mpi \<Rightarrow> mpi \<Rightarrow> mpi chk" where
  "mpi_copy X Y =
     (if mpi_p Y = [] then ok mpi_init
      else let i = last_nonzero (mpi_p Y) (length (mpi_p Y) - 1) + 1 in
        chk_bind (mpi_grow (X\<lparr>mpi_s := mpi_s Y\<rparr>) i) (\<lambda>X.
          ok (X\<lparr>mpi_p := take i (mpi_p Y) @ replicate (length (mpi_p X) - i) 0\<rparr>)))"

text \<open>The argument is a signed 64-bit value other than the smallest.\<close>

definition mpi_lset :: "mpi \<Rightarrow> int \<Rightarrow> mpi chk" where
  "mpi_lset X z =
     chk_bind (mpi_grow X 1) (\<lambda>X.
       ok (X\<lparr>mpi_s := if z < 0 then - 1 else 1,
             mpi_p := word_of_int \<bar>z\<bar> # replicate (length (mpi_p X) - 1) 0\<rparr>))"

definition mpi_of_int :: "int \<Rightarrow> mpi" where
  "mpi_of_int z = \<lparr>mpi_s = if z < 0 then - 1 else 1, mpi_p = [word_of_int \<bar>z\<bar>]\<rparr>"

section \<open>Comparison\<close>

fun cmp_limbs :: "limbs \<Rightarrow> limbs \<Rightarrow> nat \<Rightarrow> int" where
  "cmp_limbs x y 0 = 0"
| "cmp_limbs x y (Suc i) =
     (if x ! i > y ! i then 1 else if x ! i < y ! i then - 1 else cmp_limbs x y i)"

definition mpi_cmp_abs :: "mpi \<Rightarrow> mpi \<Rightarrow> int" where
  "mpi_cmp_abs X Y =
     (let i = used_limbs (mpi_p X) (length (mpi_p X)); j = used_limbs (mpi_p Y) (length (mpi_p Y)) in
      if i = 0 \<and> j = 0 then 0 else if i > j then 1 else if j > i then - 1
      else cmp_limbs (mpi_p X) (mpi_p Y) i)"

definition mpi_cmp_mpi :: "mpi \<Rightarrow> mpi \<Rightarrow> int" where
  "mpi_cmp_mpi X Y =
     (let i = used_limbs (mpi_p X) (length (mpi_p X)); j = used_limbs (mpi_p Y) (length (mpi_p Y)) in
      if i = 0 \<and> j = 0 then 0 else if i > j then mpi_s X else if j > i then - mpi_s Y
      else if mpi_s X > 0 \<and> mpi_s Y < 0 then 1
      else if mpi_s Y > 0 \<and> mpi_s X < 0 then - 1
      else mpi_s X * cmp_limbs (mpi_p X) (mpi_p Y) i)"

definition mpi_cmp_int :: "mpi \<Rightarrow> int \<Rightarrow> int" where
  "mpi_cmp_int X z = mpi_cmp_mpi X (mpi_of_int z)"

section \<open>Addition and subtraction\<close>

text \<open>
  How \<open>X\<close> may coincide with the operands.  When all three are one object, the second operand of every
  limb addition is the limb that has just been changed.
\<close>

datatype aliasing = Distinct | X_is_A | X_is_B | All_same

text \<open>The loops return the limbs done, the carry and the limbs that are left.\<close>

fun add_loop :: "bool \<Rightarrow> u64 \<Rightarrow> limbs \<Rightarrow> limbs \<Rightarrow> limbs \<times> u64 \<times> limbs" where
  "add_loop same c (x # xs) (b # bs) =
     (let x1 = x + c; c1 = of_bool (x1 < c);
          x2 = x1 + (if same then x1 else b); c2 = c1 + of_bool (x2 < (if same then x2 else b))
      in case add_loop same c2 xs bs of (ds, c, rest) \<Rightarrow> (x2 # ds, c, rest))"
| "add_loop same c xs bs = ([], c, xs)"

text \<open>The carry goes into higher limbs; \<open>i\<close> counts the limbs, for the limit on their number.\<close>

function carry_loop :: "nat \<Rightarrow> u64 \<Rightarrow> limbs \<Rightarrow> limbs chk" where
  "carry_loop i c xs =
     (if c = 0 then ok xs
      else case xs of
        [] \<Rightarrow>
          if i + 1 > MPI_MAX_LIMBS then fail ERR_MPI_ALLOC_FAILED
          else chk_bind (carry_loop (i + 1) (of_bool (0 + c < c)) []) (\<lambda>ys. ok ((0 + c) # ys))
      | x # xs \<Rightarrow> chk_bind (carry_loop (i + 1) (of_bool (x + c < c)) xs) (\<lambda>ys. ok ((x + c) # ys)))"
  by pat_completeness auto
termination
  by (relation "measure (\<lambda>(i, c, xs). length xs + of_bool (c \<noteq> 0))") auto

declare carry_loop.simps [simp del]

definition mpi_add_abs :: "aliasing \<Rightarrow> mpi \<Rightarrow> mpi \<Rightarrow> mpi \<Rightarrow> mpi chk" where
  "mpi_add_abs al X A B =
     (let (A, B) = (if al = X_is_B then (B, A) else (A, B)) in
      chk_bind (if al = Distinct then mpi_copy X A else ok A) (\<lambda>X.
      let X = X\<lparr>mpi_s := 1\<rparr>; j = used_limbs (mpi_p B) (length (mpi_p B)) in
      chk_bind (mpi_grow X j) (\<lambda>X.
        case add_loop (al = All_same) 0 (mpi_p X) (take j (mpi_p B)) of (ds, c, rest) \<Rightarrow>
          chk_bind (carry_loop j c rest) (\<lambda>rest. ok (X\<lparr>mpi_p := ds @ rest\<rparr>)))))"

fun sub_loop :: "u64 \<Rightarrow> limbs \<Rightarrow> limbs \<Rightarrow> (limbs \<times> u64 \<times> limbs) res" where
  "sub_loop c [] ds = Inr ([], c, ds)"
| "sub_loop c (s # ss) [] = Inl UB"
| "sub_loop c (s # ss) (d # ds) =
     (let z = of_bool (d < c); d1 = d - c; c1 = of_bool (d1 < s) + z; d2 = d1 - s in
      bind_res (sub_loop c1 ss ds) (\<lambda>(es, c, rest). Inr (d2 # es, c, rest)))"

fun borrow_loop :: "u64 \<Rightarrow> limbs \<Rightarrow> limbs res" where
  "borrow_loop c [] = (if c = 0 then Inr [] else Inl UB)"
| "borrow_loop c (d # ds) =
     (if c = 0 then Inr (d # ds)
      else bind_res (borrow_loop (of_bool (d < c)) ds) (\<lambda>es. Inr ((d - c) # es)))"

definition mpi_sub_hlp :: "limbs \<Rightarrow> limbs \<Rightarrow> limbs res" where
  "mpi_sub_hlp s d =
     bind_res (sub_loop 0 s d) (\<lambda>(es, c, rest). bind_res (borrow_loop c rest) (\<lambda>fs. Inr (es @ fs)))"

definition mpi_sub_abs :: "aliasing \<Rightarrow> mpi \<Rightarrow> mpi \<Rightarrow> mpi \<Rightarrow> mpi chk" where
  "mpi_sub_abs al X A B =
     (if mpi_cmp_abs A B < 0 then fail ERR_MPI_NEGATIVE_VALUE
      else
        chk_bind (if al = X_is_B \<or> al = All_same then mpi_copy mpi_init B else ok B) (\<lambda>B.
        chk_bind (if al = X_is_A \<or> al = All_same then ok A else mpi_copy X A) (\<lambda>X.
        let X = X\<lparr>mpi_s := 1\<rparr>; n = used_limbs (mpi_p B) (length (mpi_p B)) in
        chk_bind (chk_res (mpi_sub_hlp (take n (mpi_p B)) (mpi_p X))) (\<lambda>p. ok (X\<lparr>mpi_p := p\<rparr>)))))"

text \<open>Which of the operands \<open>X\<close> is, after the operands have changed places.\<close>

fun swapped :: "aliasing \<Rightarrow> aliasing" where
  "swapped X_is_A = X_is_B"
| "swapped X_is_B = X_is_A"
| "swapped al = al"

definition mpi_add_mpi :: "aliasing \<Rightarrow> mpi \<Rightarrow> mpi \<Rightarrow> mpi \<Rightarrow> mpi chk" where
  "mpi_add_mpi al X A B =
     (let s = mpi_s A in
      if mpi_s A * mpi_s B < 0 then
        (if mpi_cmp_abs A B \<ge> 0 then chk_bind (mpi_sub_abs al X A B) (\<lambda>X. ok (X\<lparr>mpi_s := s\<rparr>))
         else chk_bind (mpi_sub_abs (swapped al) X B A) (\<lambda>X. ok (X\<lparr>mpi_s := - s\<rparr>)))
      else chk_bind (mpi_add_abs al X A B) (\<lambda>X. ok (X\<lparr>mpi_s := s\<rparr>)))"

definition mpi_sub_mpi :: "aliasing \<Rightarrow> mpi \<Rightarrow> mpi \<Rightarrow> mpi \<Rightarrow> mpi chk" where
  "mpi_sub_mpi al X A B =
     (let s = mpi_s A in
      if mpi_s A * mpi_s B > 0 then
        (if mpi_cmp_abs A B \<ge> 0 then chk_bind (mpi_sub_abs al X A B) (\<lambda>X. ok (X\<lparr>mpi_s := s\<rparr>))
         else chk_bind (mpi_sub_abs (swapped al) X B A) (\<lambda>X. ok (X\<lparr>mpi_s := - s\<rparr>)))
      else chk_bind (mpi_add_abs al X A B) (\<lambda>X. ok (X\<lparr>mpi_s := s\<rparr>)))"

definition mpi_add_int :: "aliasing \<Rightarrow> mpi \<Rightarrow> mpi \<Rightarrow> int \<Rightarrow> mpi chk" where
  "mpi_add_int al X A b = mpi_add_mpi al X A (mpi_of_int b)"

definition mpi_sub_int :: "aliasing \<Rightarrow> mpi \<Rightarrow> mpi \<Rightarrow> int \<Rightarrow> mpi chk" where
  "mpi_sub_int al X A b = mpi_sub_mpi al X A (mpi_of_int b)"

section \<open>Multiplication\<close>

text \<open>
  \<open>MULADDC_CORE\<close>: \<open>rdx:rax\<close> is the product, \<open>rcx\<close> the carry; \<open>adcq\<close> adds the carry flag of the addition
  before it.  The limb and the new carry.
\<close>

definition muladdc :: "u64 \<Rightarrow> u64 \<Rightarrow> u64 \<Rightarrow> u64 \<Rightarrow> u64 \<times> u64" where
  "muladdc s d b rcx =
     (let product = (ucast s * ucast b :: 128 word);
          rax = ucast product; rdx = ucast (drop_bit 64 product);
          rax' = rax + rcx; rdx' = rdx + of_bool (rax' < rax);
          d' = d + rax'; rcx' = rdx' + of_bool (d' < d)
      in (d', rcx'))"

fun mul_loop :: "limbs \<Rightarrow> limbs \<Rightarrow> u64 \<Rightarrow> u64 \<Rightarrow> (limbs \<times> u64 \<times> limbs) res" where
  "mul_loop [] ds b c = Inr ([], c, ds)"
| "mul_loop (s # ss) [] b c = Inl UB"
| "mul_loop (s # ss) (d # ds) b c =
     (case muladdc s d b c of (d', c') \<Rightarrow>
        bind_res (mul_loop ss ds b c') (\<lambda>(es, c, rest). Inr (d' # es, c, rest)))"

fun add_carry :: "limbs \<Rightarrow> u64 \<Rightarrow> limbs res" where
  "add_carry [] c = Inl UB"
| "add_carry (d # ds) c =
     (if d + c < c then bind_res (add_carry ds 1) (\<lambda>es. Inr ((d + c) # es)) else Inr ((d + c) # ds))"

definition mpi_mul_hlp :: "limbs \<Rightarrow> limbs \<Rightarrow> u64 \<Rightarrow> limbs res" where
  "mpi_mul_hlp s d b =
     bind_res (mul_loop s d b 0) (\<lambda>(es, c, rest). bind_res (add_carry rest c) (\<lambda>fs. Inr (es @ fs)))"

fun mul_rows :: "limbs \<Rightarrow> limbs \<Rightarrow> nat \<Rightarrow> limbs \<Rightarrow> limbs res" where
  "mul_rows a b 0 x = Inr x"
| "mul_rows a b (Suc j) x =
     bind_res (mpi_mul_hlp a (drop j x) (b ! j)) (\<lambda>d. mul_rows a b j (take j x @ d))"

text \<open>The copies the code makes of an operand that is also the result have the limbs of the operand.\<close>

definition mpi_mul_mpi :: "mpi \<Rightarrow> mpi \<Rightarrow> mpi \<Rightarrow> mpi chk" where
  "mpi_mul_mpi X A B =
     (let i = used_limbs (mpi_p A) (length (mpi_p A)); j = used_limbs (mpi_p B) (length (mpi_p B)) in
      chk_bind (mpi_grow X (i + j)) (\<lambda>X.
      chk_bind (mpi_lset X 0) (\<lambda>X.
      chk_bind (chk_res (mul_rows (take i (mpi_p A)) (mpi_p B) j (mpi_p X))) (\<lambda>p.
        ok (X\<lparr>mpi_p := p, mpi_s := mpi_s A * mpi_s B\<rparr>)))))"

definition mpi_mul_int :: "mpi \<Rightarrow> mpi \<Rightarrow> u64 \<Rightarrow> mpi chk" where
  "mpi_mul_int X A b = mpi_mul_mpi X A \<lparr>mpi_s = 1, mpi_p = [b]\<rparr>"


section \<open>Values of limbs\<close>

lemma limbs_val_append: "limbs_val (xs @ ys) = limbs_val xs + 2 ^ (64 * length xs) * limbs_val ys"
  by (induction xs) (simp_all add: power_add algebra_simps)

lemma limbs_val_zeros [simp]: "limbs_val (replicate n 0) = 0"
  by (induction n) simp_all

lemma limb_bound: "unat (x :: u64) < 2 ^ 64"
  using unsigned_less [of x] by simp

lemma limbs_val_bound: "limbs_val xs < 2 ^ (64 * length xs)"
proof (induction xs)
  case Nil
  then show ?case by simp
next
  case (Cons x xs)
  have "limbs_val (x # xs) < 2 ^ 64 + 2 ^ 64 * limbs_val xs" using limb_bound [of x] by simp
  also have "\<dots> = 2 ^ 64 * (limbs_val xs + 1)" by (simp only: distrib_left mult_1_right add.commute)
  also have "\<dots> \<le> 2 ^ 64 * 2 ^ (64 * length xs)" using Cons by (intro mult_le_mono2) simp
  also have "\<dots> = 2 ^ (64 * length (x # xs))" by (simp add: power_add)
  finally show ?case .
qed

lemma limbs_val_take: "n \<le> length xs \<Longrightarrow> limbs_val (take n xs) = limbs_val xs mod 2 ^ (64 * n)"
  using limbs_val_append [of "take n xs" "drop n xs"] limbs_val_bound [of "take n xs"] by simp

lemma limbs_val_drop: "n \<le> length xs \<Longrightarrow> limbs_val (drop n xs) = limbs_val xs div 2 ^ (64 * n)"
  using limbs_val_append [of "take n xs" "drop n xs"] limbs_val_bound [of "take n xs"] by simp

lemma limbs_val_split: "n \<le> length xs \<Longrightarrow> limbs_val xs = limbs_val (take n xs) + 2 ^ (64 * n) * limbs_val (drop n xs)"
  using limbs_val_append [of "take n xs" "drop n xs"] by simp

lemma used_limbs_le: "used_limbs p n \<le> n"
  by (induction n) auto

lemma used_limbs_zeros: "n \<le> length p \<Longrightarrow> drop (used_limbs p n) (take n p) = replicate (n - used_limbs p n) 0"
proof (induction n)
  case 0
  then show ?case by simp
next
  case (Suc n)
  show ?case
  proof (cases "p ! n = 0")
    case True
    have "take (Suc n) p = take n p @ [0]" using Suc.prems True by (simp add: take_Suc_conv_app_nth)
    then show ?thesis
      using Suc used_limbs_le [of p n] True by (simp add: Suc_diff_le replicate_append_same)
  next
    case False
    then show ?thesis using Suc.prems by simp
  qed
qed

lemma limbs_val_used: "limbs_val (take (used_limbs p (length p)) p) = limbs_val p"
  using limbs_val_append [of "take (used_limbs p (length p)) p" "drop (used_limbs p (length p)) p"]
    used_limbs_zeros [of "length p" p] by simp

lemma used_limbs_top: "used_limbs p n = Suc i \<Longrightarrow> p ! i \<noteq> 0"
  by (induction n) (auto split: if_splits)

lemma last_nonzero_used: "n < length p \<Longrightarrow> Suc (last_nonzero p n) = max 1 (used_limbs p (Suc n))"
  by (induction n) auto

lemma limbs_val_last: "p \<noteq> [] \<Longrightarrow> limbs_val (take (last_nonzero p (length p - 1) + 1) p) = limbs_val p"
proof -
  assume "p \<noteq> []"
  then have l: "last_nonzero p (length p - 1) + 1 = max 1 (used_limbs p (length p))"
    using last_nonzero_used [of "length p - 1" p] by (cases p) auto
  show ?thesis
  proof (cases "used_limbs p (length p)")
    case 0
    then have "p = replicate (length p) 0" using used_limbs_zeros [of "length p" p] by simp
    then have "limbs_val (take n p) = 0" for n by (metis limbs_val_zeros take_replicate)
    moreover have "limbs_val p = 0" by (metis \<open>p = replicate (length p) 0\<close> limbs_val_zeros)
    ultimately show ?thesis by simp
  next
    case (Suc k)
    then show ?thesis using limbs_val_used [of p] l by simp
  qed
qed

lemma last_nonzero_le: "last_nonzero p n \<le> n"
  by (induction n) auto

section \<open>Allocation and copying, by value\<close>

lemma mpi_grow_ok:
  assumes "n \<le> MPI_MAX_LIMBS"
  shows "mpi_grow X n = ok (X\<lparr>mpi_p := mpi_p X @ replicate (n - length (mpi_p X)) 0\<rparr>)"
  using assms by (simp add: mpi_grow_def not_less)

lemma mpi_copy_ok:
  assumes "length (mpi_p Y) \<le> MPI_MAX_LIMBS"
  shows "\<exists>Z. mpi_copy X Y = ok Z \<and> limbs_val (mpi_p Z) = limbs_val (mpi_p Y)
    \<and> length (mpi_p Z) \<le> max (length (mpi_p X)) (length (mpi_p Y)) \<and> used_limbs (mpi_p Y) (length (mpi_p Y)) \<le> length (mpi_p Z)
    \<and> (mpi_p Y \<noteq> [] \<longrightarrow> mpi_s Z = mpi_s Y \<and> length (mpi_p X) \<le> length (mpi_p Z)) \<and> (mpi_wf Y \<longrightarrow> mpi_wf Z)"
proof (cases "mpi_p Y = []")
  case True
  then show ?thesis by (simp add: mpi_copy_def mpi_init_def mpi_wf_def)
next
  case False
  let ?i = "last_nonzero (mpi_p Y) (length (mpi_p Y) - 1) + 1"
  have i: "?i \<le> length (mpi_p Y)" using False last_nonzero_le [of "mpi_p Y" "length (mpi_p Y) - 1"]
    by (cases "mpi_p Y") auto
  have u: "used_limbs (mpi_p Y) (length (mpi_p Y)) \<le> ?i"
    using False last_nonzero_used [of "length (mpi_p Y) - 1" "mpi_p Y"] by (cases "mpi_p Y") auto
  then show ?thesis
    using i assms False limbs_val_last [OF False]
    by (auto simp: mpi_copy_def Let_def mpi_grow_ok limbs_val_append mpi_wf_def)
qed

lemma mpi_copy_val:
  assumes "length (mpi_p Y) \<le> MPI_MAX_LIMBS" "mpi_copy X Y = ok Z"
  shows "mpi_val Z = mpi_val Y"
  using mpi_copy_ok [OF assms(1), of X] assms(2) by (cases "mpi_p Y = []") (auto simp: mpi_val_def)

lemma mpi_lset_ok:
  "mpi_lset X z = ok \<lparr>mpi_s = if z < 0 then - 1 else 1, mpi_p = word_of_int \<bar>z\<bar> # replicate (length (mpi_p X) - 1) 0\<rparr>"
  by (simp add: mpi_lset_def mpi_grow_ok MPI_MAX_LIMBS_def)

lemma mpi_of_int_val: "\<bar>z\<bar> < 2 ^ 64 \<Longrightarrow> mpi_val (mpi_of_int z) = z"
  by (simp add: mpi_of_int_def mpi_val_def unsigned_of_int take_bit_int_eq_self unat_eq_nat_uint)

lemma mpi_of_int_wf [simp]: "mpi_wf (mpi_of_int z)"
  by (simp add: mpi_of_int_def mpi_wf_def)


section \<open>Comparison, by value\<close>

lemma cmp_limbs_val:
  "i \<le> length x \<Longrightarrow> i \<le> length y \<Longrightarrow>
    cmp_limbs x y i = sgn (int (limbs_val (take i x)) - int (limbs_val (take i y)))"
proof (induction i)
  case 0
  then show ?case by simp
next
  case (Suc i)
  let ?B = "2 ^ (64 * i) :: nat"
  have v: "limbs_val (take (Suc i) p) = limbs_val (take i p) + ?B * unat (p ! i)" if "Suc i \<le> length p" for p
    using that by (simp add: take_Suc_conv_app_nth limbs_val_append)
  have b: "limbs_val (take i p) < ?B" if "Suc i \<le> length p" for p
    using that limbs_val_bound [of "take i p"] by simp
  have lt: "limbs_val (take (Suc i) p) < limbs_val (take (Suc i) q)"
    if "Suc i \<le> length p" "Suc i \<le> length q" "p ! i < q ! i" for p q
  proof -
    have "unat (p ! i) + 1 \<le> unat (q ! i)" using that(3) by (simp add: word_less_nat_alt)
    then have "?B * (unat (p ! i) + 1) \<le> ?B * unat (q ! i)" by (rule mult_le_mono2)
    then show ?thesis using b [OF that(1)] v [OF that(1)] v [OF that(2)] by simp
  qed
  show ?case
  proof (cases "x ! i = y ! i")
    case True
    then show ?thesis using Suc v [of x] v [of y] by simp
  next
    case False
    then consider "x ! i < y ! i" | "y ! i < x ! i" by (meson linorder_neqE)
    then show ?thesis
      using lt [of x y] lt [of y x] Suc.prems by cases (auto simp: sgn_if)
  qed
qed

lemma used_limbs_lower:
  assumes "used_limbs p (length p) = Suc i"
  shows "2 ^ (64 * i) \<le> limbs_val p"
proof -
  have i: "i < length p" using used_limbs_le [of p "length p"] assms by simp
  have "p ! i \<noteq> 0" by (rule used_limbs_top [OF assms])
  then have "1 \<le> unat (p ! i)" by (simp add: unat_gt_0 Suc_le_eq)
  then have "2 ^ (64 * i) * 1 \<le> (2 ^ (64 * i) * unat (p ! i) :: nat)" by (rule mult_le_mono2)
  also have "\<dots> \<le> limbs_val (take (Suc i) p)" using i by (simp add: take_Suc_conv_app_nth limbs_val_append)
  finally show ?thesis using limbs_val_used [of p] assms by simp
qed

lemma used_limbs_upper: "limbs_val p < 2 ^ (64 * used_limbs p (length p))"
  using limbs_val_used [of p] limbs_val_bound [of "take (used_limbs p (length p)) p"] used_limbs_le [of p "length p"] by simp

lemma used_limbs_less:
  assumes "used_limbs p (length p) < used_limbs q (length q)"
  shows "limbs_val p < limbs_val q"
proof -
  obtain i where i: "used_limbs q (length q) = Suc i" using assms by (cases "used_limbs q (length q)") auto
  have "limbs_val p < 2 ^ (64 * used_limbs p (length p))" by (rule used_limbs_upper)
  also have "\<dots> \<le> 2 ^ (64 * i)" using assms i by (intro power_increasing) auto
  also have "\<dots> \<le> limbs_val q" by (rule used_limbs_lower [OF i])
  finally show ?thesis .
qed

lemma used_limbs_0: "used_limbs p (length p) = 0 \<longleftrightarrow> limbs_val p = 0"
proof
  show "used_limbs p (length p) = 0 \<Longrightarrow> limbs_val p = 0" using limbs_val_used [of p] by simp
  assume "limbs_val p = 0"
  then show "used_limbs p (length p) = 0" using used_limbs_lower [of p] by (cases "used_limbs p (length p)") auto
qed

lemma mpi_cmp_abs_val: "mpi_cmp_abs X Y = sgn (int (limbs_val (mpi_p X)) - int (limbs_val (mpi_p Y)))"
proof -
  let ?x = "mpi_p X" and ?y = "mpi_p Y"
  let ?i = "used_limbs ?x (length ?x)" and ?j = "used_limbs ?y (length ?y)"
  consider "?i < ?j" | "?j < ?i" | "?i = ?j" by linarith
  then show ?thesis
  proof cases
    case 1
    then show ?thesis using used_limbs_less [OF 1] by (simp add: mpi_cmp_abs_def Let_def)
  next
    case 2
    then show ?thesis using used_limbs_less [OF 2] by (simp add: mpi_cmp_abs_def Let_def)
  next
    case 3
    have "cmp_limbs ?x ?y ?i = sgn (int (limbs_val ?x) - int (limbs_val ?y))"
      using cmp_limbs_val [of ?i ?x ?y] used_limbs_le [of ?x "length ?x"] used_limbs_le [of ?y "length ?y"] 3
        limbs_val_used [of ?x] limbs_val_used [of ?y] by simp
    then show ?thesis
      using 3 used_limbs_0 [of ?x] used_limbs_0 [of ?y] by (auto simp: mpi_cmp_abs_def Let_def)
  qed
qed

lemma mpi_cmp_mpi_val:
  assumes "mpi_wf X" "mpi_wf Y"
  shows "mpi_cmp_mpi X Y = sgn (mpi_val X - mpi_val Y)"
proof -
  let ?x = "mpi_p X" and ?y = "mpi_p Y"
  let ?i = "used_limbs ?x (length ?x)" and ?j = "used_limbs ?y (length ?y)"
  have s: "mpi_s X = 1 \<or> mpi_s X = - 1" "mpi_s Y = 1 \<or> mpi_s Y = - 1" using assms by (auto simp: mpi_wf_def)
  consider "?i < ?j" | "?j < ?i" | "?i = ?j" by linarith
  then show ?thesis
  proof cases
    case 1
    then show ?thesis using used_limbs_less [OF 1] s by (auto simp: mpi_cmp_mpi_def Let_def mpi_val_def sgn_if)
  next
    case 2
    then show ?thesis using used_limbs_less [OF 2] s by (auto simp: mpi_cmp_mpi_def Let_def mpi_val_def sgn_if)
  next
    case 3
    have c: "cmp_limbs ?x ?y ?i = sgn (int (limbs_val ?x) - int (limbs_val ?y))"
      using cmp_limbs_val [of ?i ?x ?y] used_limbs_le [of ?x "length ?x"] used_limbs_le [of ?y "length ?y"] 3
        limbs_val_used [of ?x] limbs_val_used [of ?y] by simp
    show ?thesis
      using 3 used_limbs_0 [of ?x] used_limbs_0 [of ?y] s
      by (cases "limbs_val ?x = 0") (auto simp: mpi_cmp_mpi_def Let_def c [unfolded 3] mpi_val_def sgn_if)
  qed
qed

lemma mpi_cmp_int_val: "mpi_wf X \<Longrightarrow> \<bar>z\<bar> < 2 ^ 64 \<Longrightarrow> mpi_cmp_int X z = sgn (mpi_val X - z)"
  by (simp add: mpi_cmp_int_def mpi_cmp_mpi_val mpi_of_int_val)

section \<open>Carries and borrows, by value\<close>

lemma carry_add: "unat (x + c) + 2 ^ 64 * (if x + c < c then 1 else 0) = unat x + unat c" for x c :: u64
  by (simp add: word_less_nat_alt unat_word_ariths) (use limb_bound [of x] limb_bound [of c] in \<open>auto simp: mod_if\<close>)

lemma borrow_sub: "unat x + 2 ^ 64 * (if x < c then 1 else 0) = unat (x - c) + unat c" for x c :: u64
proof (cases "x < c")
  case False
  then show ?thesis by (simp add: unat_sub_if' word_less_nat_alt)
next
  case True
  then show ?thesis using limb_bound [of c] limb_bound [of x]
    by (simp add: unat_sub_if' word_less_nat_alt)
qed


lemma unat_carries: "unat (of_bool a + of_bool b :: u64) = of_bool a + of_bool b"
  by (cases a; cases b) simp_all

lemma add_step:
  fixes x c b :: u64
  assumes "unat c \<le> 1"
  shows "unat (x + c + b) + 2 ^ 64 * unat (of_bool (x + c < c) + of_bool (x + c + b < b) :: u64) = unat x + unat b + unat c
    \<and> unat (of_bool (x + c < c) + of_bool (x + c + b < b) :: u64) \<le> 1"
proof -
  let ?a = "of_bool (x + c < c) :: nat" and ?b = "of_bool (x + c + b < b) :: nat"
  have "unat (x + c) + 2 ^ 64 * ?a = unat x + unat c" using carry_add [of x c] by (simp add: of_bool_def)
  moreover have "unat (x + c + b) + 2 ^ 64 * ?b = unat (x + c) + unat b" using carry_add [of "x + c" b] by (simp add: of_bool_def)
  ultimately have "unat (x + c + b) + 2 ^ 64 * (?a + ?b) = unat x + unat b + unat c" by (simp add: algebra_simps)
  moreover from this have "?a + ?b \<le> 1"
    using limb_bound [of x] limb_bound [of b] assms by (cases "x + c < c"; cases "x + c + b < b") auto
  ultimately show ?thesis by (simp add: unat_carries)
qed

lemma add_loop_val:
  "length bs \<le> length xs \<Longrightarrow> unat c \<le> 1 \<Longrightarrow> add_loop False c xs bs = (ds, c', rest) \<Longrightarrow>
   length ds = length bs \<and> rest = drop (length bs) xs \<and> unat c' \<le> 1
   \<and> limbs_val ds + 2 ^ (64 * length bs) * unat c' = limbs_val (take (length bs) xs) + limbs_val bs + unat c"
proof (induction bs arbitrary: xs c ds)
  case Nil
  then show ?case by simp
next
  case (Cons b bs)
  obtain x xs' where x: "xs = x # xs'" using Cons.prems(1) by (cases xs) auto
  let ?c = "of_bool (x + c < c) + of_bool (x + c + b < b) :: u64"
  obtain ds' where d: "add_loop False ?c xs' bs = (ds', c', rest)" "ds = (x + c + b) # ds'"
    using Cons.prems(3) by (auto simp: x Let_def split: prod.splits)
  note step = add_step [OF Cons.prems(2), of x b]
  have ih: "length ds' = length bs \<and> rest = drop (length bs) xs' \<and> unat c' \<le> 1
    \<and> limbs_val ds' + 2 ^ (64 * length bs) * unat c' = limbs_val (take (length bs) xs') + limbs_val bs + unat ?c"
    using Cons.IH [of xs' ?c ds'] Cons.prems(1) x step d(1) by auto
  have "limbs_val ds + 2 ^ (64 * length (b # bs)) * unat c'
      = unat (x + c + b) + 2 ^ 64 * (limbs_val ds' + 2 ^ (64 * length bs) * unat c')"
    by (simp add: d(2) power_add algebra_simps)
  also have "\<dots> = unat x + unat b + unat c + 2 ^ 64 * (limbs_val (take (length bs) xs') + limbs_val bs)"
    using ih step by (simp only: distrib_left) linarith
  also have "\<dots> = limbs_val (take (length (b # bs)) xs) + limbs_val (b # bs) + unat c"
    by (simp add: x)
  finally show ?case using ih by (simp add: x d(2))
qed

lemma carry_loop_val:
  "i + length xs < MPI_MAX_LIMBS \<Longrightarrow>
   \<exists>ys. carry_loop i c xs = ok ys \<and> limbs_val ys = limbs_val xs + unat c \<and> length ys \<le> length xs + 1"
proof (induction xs arbitrary: i c)
  case Nil
  then show ?case by (auto simp: carry_loop.simps [of _ _ "[]"])
next
  case (Cons x xs)
  show ?case
  proof (cases "c = 0")
    case True
    then show ?thesis by (simp add: carry_loop.simps [of _ _ "x # xs"])
  next
    case False
    obtain ys where ys: "carry_loop (i + 1) (of_bool (x + c < c)) xs = ok ys"
      "limbs_val ys = limbs_val xs + unat (of_bool (x + c < c) :: u64)" "length ys \<le> length xs + 1"
      using Cons.IH [of "i + 1" "of_bool (x + c < c)"] Cons.prems by auto
    have "limbs_val ((x + c) # ys) = limbs_val (x # xs) + unat c"
      using carry_add [of x c] ys(2) by (cases "x + c < c") (auto simp: distrib_left)
    then show ?thesis using False ys by (simp add: carry_loop.simps [of _ _ "x # xs"])
  qed
qed

lemma mpi_add_abs_ok:
  assumes "al \<noteq> All_same" "length (mpi_p X) < MPI_MAX_LIMBS" "length (mpi_p A) < MPI_MAX_LIMBS" "length (mpi_p B) < MPI_MAX_LIMBS"
  shows "\<exists>Z. mpi_add_abs al X A B = ok Z \<and> mpi_s Z = 1 \<and> limbs_val (mpi_p Z) = limbs_val (mpi_p A) + limbs_val (mpi_p B)
    \<and> length (mpi_p Z) \<le> Suc (max (length (mpi_p X)) (max (length (mpi_p A)) (length (mpi_p B))))"
proof -
  define A' B' where "A' = (if al = X_is_B then B else A)" and "B' = (if al = X_is_B then A else B)"
  define M where "M = max (length (mpi_p X)) (max (length (mpi_p A)) (length (mpi_p B)))"
  have ab: "limbs_val (mpi_p A') + limbs_val (mpi_p B') = limbs_val (mpi_p A) + limbs_val (mpi_p B)"
    "length (mpi_p A') \<le> M" "length (mpi_p B') \<le> M"
    by (auto simp: A'_def B'_def M_def)
  have m: "M < MPI_MAX_LIMBS" "length (mpi_p X) \<le> M" using assms by (simp_all add: M_def)
  obtain X1 where X1: "(if al = Distinct then mpi_copy X A' else ok A') = ok X1" "limbs_val (mpi_p X1) = limbs_val (mpi_p A')"
    "length (mpi_p X1) \<le> M"
  proof (cases "al = Distinct")
    case True
    obtain Z where "mpi_copy X A' = ok Z" "limbs_val (mpi_p Z) = limbs_val (mpi_p A')"
      "length (mpi_p Z) \<le> max (length (mpi_p X)) (length (mpi_p A'))"
      using mpi_copy_ok [of A' X] ab(2) m by auto
    then show ?thesis using that [of Z] True ab(2) m(2) by (simp add: max_def split: if_splits)
  next
    case False
    then show ?thesis using that [of A'] ab(2) by simp
  qed
  let ?j = "used_limbs (mpi_p B') (length (mpi_p B'))"
  let ?p = "mpi_p X1 @ replicate (?j - length (mpi_p X1)) 0"
  have j: "?j \<le> M" using used_limbs_le [of "mpi_p B'" "length (mpi_p B')"] ab(3) by simp
  then have g: "mpi_grow (X1\<lparr>mpi_s := 1\<rparr>) ?j = ok (X1\<lparr>mpi_s := 1, mpi_p := ?p\<rparr>)"
    using m mpi_grow_ok [of ?j "X1\<lparr>mpi_s := 1\<rparr>"] by simp
  obtain ds c rest where l: "add_loop False 0 ?p (take ?j (mpi_p B')) = (ds, c, rest)" by (cases "add_loop False 0 ?p (take ?j (mpi_p B'))")
  have lt: "length (take ?j (mpi_p B')) = ?j" using used_limbs_le [of "mpi_p B'" "length (mpi_p B')"] by simp
  have v: "length ds = ?j" "rest = drop ?j ?p"
      "limbs_val ds + 2 ^ (64 * ?j) * unat c = limbs_val (take ?j ?p) + limbs_val (mpi_p B')"
    using add_loop_val [OF _ _ l] lt limbs_val_used [of "mpi_p B'"] by simp_all
  have "?j + length rest < MPI_MAX_LIMBS" using v(2) X1(3) j m by simp
  then obtain ys where ys: "carry_loop ?j c rest = ok ys" "limbs_val ys = limbs_val rest + unat c" "length ys \<le> length rest + 1"
    using carry_loop_val by blast
  have "limbs_val (ds @ ys) = limbs_val ds + 2 ^ (64 * ?j) * unat c + 2 ^ (64 * ?j) * limbs_val rest"
    by (simp add: limbs_val_append v(1) ys(2) algebra_simps)
  also have "\<dots> = limbs_val ?p + limbs_val (mpi_p B')"
    using v(3) limbs_val_split [of ?j ?p] v(2) by simp
  also have "\<dots> = limbs_val (mpi_p A) + limbs_val (mpi_p B)" using X1(2) ab(1) by (simp add: limbs_val_append)
  finally have "limbs_val (ds @ ys) = limbs_val (mpi_p A) + limbs_val (mpi_p B)" .
  moreover have "length (ds @ ys) \<le> Suc M" using ys(3) v(1,2) X1(3) j by simp
  moreover have "mpi_add_abs al X A B = ok (X1\<lparr>mpi_s := 1, mpi_p := ds @ ys\<rparr>)"
  proof -
    have "(if al = X_is_B then (B, A) else (A, B)) = (A', B')" by (simp add: A'_def B'_def)
    moreover have "(al = All_same) = False" using assms(1) by simp
    ultimately show ?thesis by (simp add: mpi_add_abs_def X1(1) g l ys(1) del: if_not_P)
  qed
  ultimately show ?thesis unfolding M_def by simp
qed


lemma sub_step:
  fixes d c s :: u64
  assumes "unat c \<le> 1"
  shows "unat d + 2 ^ 64 * unat (of_bool (d - c < s) + of_bool (d < c) :: u64) = unat (d - c - s) + unat s + unat c
    \<and> unat (of_bool (d - c < s) + of_bool (d < c) :: u64) \<le> 1"
proof -
  let ?a = "of_bool (d - c < s) :: nat" and ?b = "of_bool (d < c) :: nat"
  have "unat d + 2 ^ 64 * ?b = unat (d - c) + unat c" using borrow_sub [of d c] by (simp add: of_bool_def)
  moreover have "unat (d - c) + 2 ^ 64 * ?a = unat (d - c - s) + unat s" using borrow_sub [of "d - c" s] by (simp add: of_bool_def)
  ultimately have "unat d + 2 ^ 64 * (?a + ?b) = unat (d - c - s) + unat s + unat c" by (simp add: algebra_simps)
  moreover from this have "?a + ?b \<le> 1"
    using limb_bound [of "d - c - s"] limb_bound [of s] assms by (cases "d - c < s"; cases "d < c") auto
  ultimately show ?thesis by (simp add: unat_carries)
qed

lemma sub_loop_val:
  "length ss \<le> length ds \<Longrightarrow> unat c \<le> 1 \<Longrightarrow>
   \<exists>es c'. sub_loop c ss ds = Inr (es, c', drop (length ss) ds) \<and> length es = length ss \<and> unat c' \<le> 1
     \<and> limbs_val (take (length ss) ds) + 2 ^ (64 * length ss) * unat c' = limbs_val es + limbs_val ss + unat c"
proof (induction ss arbitrary: ds c)
  case Nil
  then show ?case by simp
next
  case (Cons s ss)
  obtain d ds' where d: "ds = d # ds'" using Cons.prems(1) by (cases ds) auto
  let ?c = "of_bool (d - c < s) + of_bool (d < c) :: u64"
  note step = sub_step [OF Cons.prems(2), of d s]
  obtain es c' where ih: "sub_loop ?c ss ds' = Inr (es, c', drop (length ss) ds')" "length es = length ss" "unat c' \<le> 1"
     "limbs_val (take (length ss) ds') + 2 ^ (64 * length ss) * unat c' = limbs_val es + limbs_val ss + unat ?c"
    using Cons.IH [of ds' ?c] Cons.prems(1) d step by auto
  have "limbs_val (take (length (s # ss)) ds) + 2 ^ (64 * length (s # ss)) * unat c'
      = unat d + 2 ^ 64 * (limbs_val (take (length ss) ds') + 2 ^ (64 * length ss) * unat c')"
    by (simp add: d power_add algebra_simps)
  also have "\<dots> = unat d + 2 ^ 64 * unat ?c + 2 ^ 64 * (limbs_val es + limbs_val ss)"
    unfolding ih(4) by (simp only: distrib_left)
  also have "\<dots> = limbs_val ((d - c - s) # es) + limbs_val (s # ss) + unat c"
    using step by (simp only: limbs_val.simps distrib_left)
  finally show ?case using ih by (simp add: d Let_def)
qed

lemma borrow_loop_val:
  "unat c \<le> limbs_val ds \<Longrightarrow> unat c \<le> 1 \<Longrightarrow>
   \<exists>es. borrow_loop c ds = Inr es \<and> length es = length ds \<and> limbs_val es + unat c = limbs_val ds"
proof (induction ds arbitrary: c)
  case Nil
  then show ?case by (simp add: unat_eq_0)
next
  case (Cons d ds)
  show ?case
  proof (cases "c = 0")
    case True
    then show ?thesis by simp
  next
    case False
    then have c: "unat c = 1" using Cons.prems(2) unat_gt_0 [of c] by linarith
    let ?c = "of_bool (d < c) :: u64"
    have s: "unat d + 2 ^ 64 * unat ?c = unat (d - c) + unat c"
      using borrow_sub [of d c] by (cases "d < c") auto
    have "unat ?c \<le> limbs_val ds"
    proof (cases "d < c")
      case True
      then have "unat d = 0" using c by (simp add: word_less_nat_alt)
      then show ?thesis using Cons.prems(1) c by (cases "limbs_val ds = 0") auto
    next
      case False
      then show ?thesis by simp
    qed
    moreover have "unat ?c \<le> 1" by simp
    ultimately obtain es where es: "borrow_loop ?c ds = Inr es" "length es = length ds" "limbs_val es + unat ?c = limbs_val ds"
      using Cons.IH by blast
    have "limbs_val ((d - c) # es) + unat c = limbs_val (d # ds)"
      unfolding limbs_val.simps es(3) [symmetric] distrib_left using s by linarith
    then show ?thesis using False es by simp
  qed
qed

lemma mpi_sub_hlp_ok:
  assumes "length s \<le> length d" "limbs_val s \<le> limbs_val d"
  shows "\<exists>r. mpi_sub_hlp s d = Inr r \<and> length r = length d \<and> limbs_val r = limbs_val d - limbs_val s"
proof -
  let ?n = "length s"
  obtain es c where l: "sub_loop 0 s d = Inr (es, c, drop ?n d)" "length es = ?n" "unat c \<le> 1"
     "limbs_val (take ?n d) + 2 ^ (64 * ?n) * unat c = limbs_val es + limbs_val s"
    using sub_loop_val [OF assms(1), of 0] by auto
  have d: "limbs_val d = limbs_val (take ?n d) + 2 ^ (64 * ?n) * limbs_val (drop ?n d)" by (rule limbs_val_split [OF assms(1)])
  have "unat c \<le> limbs_val (drop ?n d)"
  proof (rule ccontr)
    assume "\<not> unat c \<le> limbs_val (drop ?n d)"
    then have "limbs_val (drop ?n d) = 0" "unat c = 1" using l(3) by auto
    then have "limbs_val s \<le> limbs_val (take ?n d)" "limbs_val (take ?n d) + 2 ^ (64 * ?n) = limbs_val es + limbs_val s"
      using d assms(2) l(4) by auto
    then show False using limbs_val_bound [of es] l(2) by simp
  qed
  then obtain fs where fs: "borrow_loop c (drop ?n d) = Inr fs" "length fs = length d - ?n"
      "limbs_val fs + unat c = limbs_val (drop ?n d)"
    using borrow_loop_val [of c "drop ?n d"] l(3) by auto
  have "limbs_val (es @ fs) + limbs_val s = limbs_val es + limbs_val s + 2 ^ (64 * ?n) * limbs_val fs"
    by (simp add: limbs_val_append l(2))
  also have "\<dots> = limbs_val (take ?n d) + 2 ^ (64 * ?n) * (limbs_val fs + unat c)"
    unfolding l(4) [symmetric] by (simp add: distrib_left)
  also have "\<dots> = limbs_val d" unfolding fs(3) by (rule d [symmetric])
  finally have "limbs_val (es @ fs) = limbs_val d - limbs_val s" by simp
  then show ?thesis using l(1,2) fs(1,2) assms(1) by (simp add: mpi_sub_hlp_def)
qed

lemma mpi_sub_abs_ok:
  assumes "length (mpi_p X) < MPI_MAX_LIMBS" "length (mpi_p A) < MPI_MAX_LIMBS" "length (mpi_p B) < MPI_MAX_LIMBS"
    and "limbs_val (mpi_p B) \<le> limbs_val (mpi_p A)"
  shows "\<exists>Z. mpi_sub_abs al X A B = ok Z \<and> mpi_s Z = 1 \<and> limbs_val (mpi_p Z) = limbs_val (mpi_p A) - limbs_val (mpi_p B)
    \<and> length (mpi_p Z) \<le> max (length (mpi_p X)) (length (mpi_p A))
    \<and> (if al = X_is_A \<or> al = All_same then length (mpi_p Z) = length (mpi_p A)
       else mpi_p A \<noteq> [] \<longrightarrow> length (mpi_p X) \<le> length (mpi_p Z))"
proof -
  have ge: "\<not> mpi_cmp_abs A B < 0" using assms(4) by (simp add: mpi_cmp_abs_val sgn_if)
  obtain B1 where B1: "(if al = X_is_B \<or> al = All_same then mpi_copy mpi_init B else ok B) = ok B1"
      "limbs_val (mpi_p B1) = limbs_val (mpi_p B)"
    using mpi_copy_ok [of B mpi_init] assms(3) by (cases "al = X_is_B \<or> al = All_same") auto
  obtain X1 where X1: "(if al = X_is_A \<or> al = All_same then ok A else mpi_copy X A) = ok X1"
      "limbs_val (mpi_p X1) = limbs_val (mpi_p A)" "length (mpi_p X1) \<le> max (length (mpi_p X)) (length (mpi_p A))"
      "used_limbs (mpi_p A) (length (mpi_p A)) \<le> length (mpi_p X1)"
      "if al = X_is_A \<or> al = All_same then length (mpi_p X1) = length (mpi_p A)
       else mpi_p A \<noteq> [] \<longrightarrow> length (mpi_p X) \<le> length (mpi_p X1)"
  proof (cases "al = X_is_A \<or> al = All_same")
    case True
    then show ?thesis using that [of A] used_limbs_le by simp
  next
    case False
    then show ?thesis using mpi_copy_ok [of A X] assms(2) that by auto
  qed
  let ?n = "used_limbs (mpi_p B1) (length (mpi_p B1))"
  have n: "?n \<le> length (mpi_p X1)"
  proof -
    have "?n \<le> used_limbs (mpi_p A) (length (mpi_p A))"
      using used_limbs_less [of "mpi_p A" "mpi_p B1"] B1(2) assms(4) by linarith
    then show ?thesis using X1(4) by simp
  qed
  obtain r where r: "mpi_sub_hlp (take ?n (mpi_p B1)) (mpi_p X1) = Inr r" "length r = length (mpi_p X1)"
      "limbs_val r = limbs_val (mpi_p X1) - limbs_val (mpi_p B1)"
    using mpi_sub_hlp_ok [of "take ?n (mpi_p B1)" "mpi_p X1"] n assms(4) X1(2) B1(2) limbs_val_used [of "mpi_p B1"]
      used_limbs_le [of "mpi_p B1" "length (mpi_p B1)"] by auto
  have "mpi_sub_abs al X A B = ok (X1\<lparr>mpi_s := 1, mpi_p := r\<rparr>)"
    by (simp add: mpi_sub_abs_def ge B1(1) X1(1) r(1))
  then show ?thesis using r(2,3) X1(2,3,5) B1(2) by simp
qed


section \<open>Signed addition and subtraction, by value\<close>

lemma sub_signed:
  assumes "length (mpi_p X) < MPI_MAX_LIMBS" "length (mpi_p A) < MPI_MAX_LIMBS" "length (mpi_p B) < MPI_MAX_LIMBS" "mpi_wf A"
  shows "\<exists>Z. (if mpi_cmp_abs A B \<ge> 0 then chk_bind (mpi_sub_abs al X A B) (\<lambda>X. ok (X\<lparr>mpi_s := mpi_s A\<rparr>))
         else chk_bind (mpi_sub_abs (swapped al) X B A) (\<lambda>X. ok (X\<lparr>mpi_s := - mpi_s A\<rparr>))) = ok Z
     \<and> mpi_val Z = mpi_val A - mpi_s A * int (limbs_val (mpi_p B)) \<and> mpi_wf Z
     \<and> length (mpi_p Z) \<le> max (length (mpi_p X)) (max (length (mpi_p A)) (length (mpi_p B)))"
proof (cases "limbs_val (mpi_p B) \<le> limbs_val (mpi_p A)")
  case True
  obtain Z where Z: "mpi_sub_abs al X A B = ok Z" "limbs_val (mpi_p Z) = limbs_val (mpi_p A) - limbs_val (mpi_p B)"
      "length (mpi_p Z) \<le> max (length (mpi_p X)) (length (mpi_p A))"
    using mpi_sub_abs_ok [OF assms(1-3) True, of al] by blast
  have "mpi_cmp_abs A B \<ge> 0" using True by (simp add: mpi_cmp_abs_val sgn_if)
  then show ?thesis using Z True assms(4) by (auto simp: mpi_val_def mpi_wf_def of_nat_diff)
next
  case False
  then have le: "limbs_val (mpi_p A) \<le> limbs_val (mpi_p B)" by simp
  obtain Z where Z: "mpi_sub_abs (swapped al) X B A = ok Z" "limbs_val (mpi_p Z) = limbs_val (mpi_p B) - limbs_val (mpi_p A)"
      "length (mpi_p Z) \<le> max (length (mpi_p X)) (length (mpi_p B))"
    using mpi_sub_abs_ok [OF assms(1,3,2) le, of "swapped al"] by blast
  have "\<not> mpi_cmp_abs A B \<ge> 0" using False by (simp add: mpi_cmp_abs_val sgn_if)
  then show ?thesis using Z le assms(4) by (auto simp: mpi_val_def mpi_wf_def of_nat_diff)
qed

lemma add_signed:
  assumes "al \<noteq> All_same" "length (mpi_p X) < MPI_MAX_LIMBS" "length (mpi_p A) < MPI_MAX_LIMBS" "length (mpi_p B) < MPI_MAX_LIMBS" "mpi_wf A"
  shows "\<exists>Z. chk_bind (mpi_add_abs al X A B) (\<lambda>X. ok (X\<lparr>mpi_s := mpi_s A\<rparr>)) = ok Z
     \<and> mpi_val Z = mpi_val A + mpi_s A * int (limbs_val (mpi_p B)) \<and> mpi_wf Z
     \<and> length (mpi_p Z) \<le> Suc (max (length (mpi_p X)) (max (length (mpi_p A)) (length (mpi_p B))))"
proof -
  obtain Z where "mpi_add_abs al X A B = ok Z" "limbs_val (mpi_p Z) = limbs_val (mpi_p A) + limbs_val (mpi_p B)"
      "length (mpi_p Z) \<le> Suc (max (length (mpi_p X)) (max (length (mpi_p A)) (length (mpi_p B))))"
    using mpi_add_abs_ok [OF assms(1-4)] by blast
  then show ?thesis using assms(5) by (simp add: mpi_val_def mpi_wf_def distrib_left)
qed

text \<open>What the two signed operations give, whichever way the objects coincide.\<close>

definition fits :: "mpi \<Rightarrow> bool" where
  "fits X \<longleftrightarrow> mpi_wf X \<and> length (mpi_p X) < MPI_MAX_LIMBS"

lemma mpi_add_mpi_ok:
  assumes "al \<noteq> All_same" "length (mpi_p X) < MPI_MAX_LIMBS" "fits A" "fits B"
  shows "\<exists>Z. mpi_add_mpi al X A B = ok Z \<and> mpi_val Z = mpi_val A + mpi_val B \<and> mpi_wf Z
     \<and> length (mpi_p Z) \<le> Suc (max (length (mpi_p X)) (max (length (mpi_p A)) (length (mpi_p B))))"
proof (cases "mpi_s A * mpi_s B < 0")
  case True
  then have s: "mpi_s B = - mpi_s A" using assms(3,4) by (auto simp: fits_def mpi_wf_def)
  then show ?thesis
    using sub_signed [of X A B al] assms(2-4) True
    by (fastforce simp: mpi_add_mpi_def Let_def fits_def mpi_val_def)
next
  case False
  then have s: "mpi_s B = mpi_s A" using assms(3,4) by (auto simp: fits_def mpi_wf_def)
  then show ?thesis
    using add_signed [of al X A B] assms False
    by (simp add: mpi_add_mpi_def Let_def fits_def mpi_val_def)
qed

lemma mpi_sub_mpi_ok:
  assumes "al \<noteq> All_same" "length (mpi_p X) < MPI_MAX_LIMBS" "fits A" "fits B"
  shows "\<exists>Z. mpi_sub_mpi al X A B = ok Z \<and> mpi_val Z = mpi_val A - mpi_val B \<and> mpi_wf Z
     \<and> length (mpi_p Z) \<le> Suc (max (length (mpi_p X)) (max (length (mpi_p A)) (length (mpi_p B))))"
proof (cases "mpi_s A * mpi_s B > 0")
  case True
  then have s: "mpi_s B = mpi_s A" using assms(3,4) by (auto simp: fits_def mpi_wf_def)
  then show ?thesis
    using sub_signed [of X A B al] assms(2-4) True
    by (fastforce simp: mpi_sub_mpi_def Let_def fits_def mpi_val_def)
next
  case False
  then have s: "mpi_s B = - mpi_s A" using assms(3,4) by (auto simp: fits_def mpi_wf_def)
  then show ?thesis
    using add_signed [of al X A B] assms False
    by (simp add: mpi_sub_mpi_def Let_def fits_def mpi_val_def)
qed

section \<open>Multiplication, by value\<close>

lemma carry_add': "unat (x + c) + 2 ^ 64 * unat (of_bool (x + c < x) :: u64) = unat x + unat c" for x c :: u64
  using carry_add [of c x] by (cases "x + c < x") (simp_all add: add.commute)

lemma muladdc_val:
  "muladdc s d b c = (d', c') \<Longrightarrow> unat d' + 2 ^ 64 * unat c' = unat d + unat s * unat b + unat c"
proof -
  assume m: "muladdc s d b c = (d', c')"
  let ?p = "ucast s * ucast b :: 128 word"
  let ?rax = "ucast ?p :: u64" and ?rdx = "ucast (drop_bit 64 ?p) :: u64"
  have sb: "unat s * unat b \<le> (2 ^ 64 - 1) * (2 ^ 64 - 1)"
    using limb_bound [of s] limb_bound [of b] by (intro mult_le_mono) linarith+
  then have p: "unat ?p = unat s * unat b"
    using limb_bound [of s] limb_bound [of b] by (simp add: unat_word_ariths(2) unsigned_ucast_eq take_bit_eq_mod)
  have v: "unat ?rax + 2 ^ 64 * unat ?rdx = unat s * unat b"
  proof -
    have "unat ?rax = unat s * unat b mod 2 ^ 64" by (simp add: unsigned_ucast_eq take_bit_eq_mod p)
    moreover have "unat (drop_bit 64 ?p) = unat s * unat b div 2 ^ 64" by (simp add: drop_bit_eq_div unat_div p)
    then have "unat ?rdx = unat s * unat b div 2 ^ 64"
      using sb by (simp only: unsigned_ucast_eq take_bit_eq_mod) simp
    ultimately show ?thesis by simp
  qed
  note r1 = carry_add' [of ?rax c] and r2 = carry_add' [of d "?rax + c"]
  define f g where "f = (?rax + c < ?rax)" and "g = (d + (?rax + c) < d)"
  have t: "unat (d + (?rax + c)) + 2 ^ 64 * (unat ?rdx + of_bool f + of_bool g) = unat d + unat s * unat b + unat c"
    using v r1 r2 unfolding f_def [symmetric] g_def [symmetric] by (cases f; cases g) simp_all
  have "2 ^ 64 * (unat ?rdx + of_bool f + of_bool g) \<le> unat d + unat s * unat b + unat c"
    unfolding t [symmetric] by simp
  also have "\<dots> < 2 ^ 64 * 2 ^ 64" using sb limb_bound [of d] limb_bound [of c] by simp
  finally have "unat ?rdx + of_bool f + of_bool g < 2 ^ 64" by simp
  then have "unat (?rdx + of_bool f + of_bool g) = unat ?rdx + of_bool f + of_bool g"
    by (cases f; cases g) (simp_all add: unat_word_ariths(1))
  then show ?thesis using m t by (auto simp: muladdc_def Let_def f_def g_def)
qed

lemma mul_loop_val:
  "length ss \<le> length ds \<Longrightarrow>
   \<exists>es c'. mul_loop ss ds b c = Inr (es, c', drop (length ss) ds) \<and> length es = length ss
     \<and> limbs_val es + 2 ^ (64 * length ss) * unat c' = limbs_val (take (length ss) ds) + limbs_val ss * unat b + unat c"
proof (induction ss arbitrary: ds c)
  case Nil
  then show ?case by simp
next
  case (Cons s ss)
  obtain d ds' where d: "ds = d # ds'" using Cons.prems by (cases ds) auto
  obtain d1 c1 where m: "muladdc s d b c = (d1, c1)" by (cases "muladdc s d b c")
  obtain es c' where ih: "mul_loop ss ds' b c1 = Inr (es, c', drop (length ss) ds')" "length es = length ss"
     "limbs_val es + 2 ^ (64 * length ss) * unat c' = limbs_val (take (length ss) ds') + limbs_val ss * unat b + unat c1"
    using Cons.IH [of ds' c1] Cons.prems d by auto
  have "limbs_val (d1 # es) + 2 ^ (64 * length (s # ss)) * unat c' = unat d1 + 2 ^ 64 * (limbs_val es + 2 ^ (64 * length ss) * unat c')"
    by (simp add: power_add algebra_simps)
  also have "\<dots> = unat d1 + 2 ^ 64 * unat c1 + 2 ^ 64 * (limbs_val (take (length ss) ds') + limbs_val ss * unat b)"
    unfolding ih(3) by (simp add: algebra_simps)
  also have "\<dots> = limbs_val (take (length (s # ss)) ds) + limbs_val (s # ss) * unat b + unat c"
    unfolding muladdc_val [OF m] by (simp add: d algebra_simps)
  finally show ?case using ih m by (simp add: d)
qed

lemma add_carry_val:
  "ds \<noteq> [] \<Longrightarrow> limbs_val ds + unat c < 2 ^ (64 * length ds) \<Longrightarrow>
   \<exists>es. add_carry ds c = Inr es \<and> length es = length ds \<and> limbs_val es = limbs_val ds + unat c"
proof (induction ds arbitrary: c)
  case Nil
  then show ?case by simp
next
  case (Cons d ds)
  show ?case
  proof (cases "d + c < c")
    case False
    then show ?thesis using carry_add [of d c] by simp
  next
    case True
    then have e: "unat (d + c) + 2 ^ 64 = unat d + unat c" using carry_add [of d c] by simp
    have "2 ^ 64 * (limbs_val ds + 1) \<le> limbs_val (d # ds) + unat c" using e by (simp add: distrib_left)
    also have "\<dots> < 2 ^ 64 * 2 ^ (64 * length ds)" using Cons.prems(2) by (simp add: power_add)
    finally have lt: "limbs_val ds + 1 < 2 ^ (64 * length ds)" by simp
    moreover have "ds \<noteq> []" using lt by auto
    ultimately obtain es where es: "add_carry ds 1 = Inr es" "length es = length ds" "limbs_val es = limbs_val ds + 1"
      using Cons.IH [of 1] by auto
    show ?thesis using True es e by (simp add: distrib_left)
  qed
qed

lemma mpi_mul_hlp_ok:
  assumes "length s < length d" "limbs_val d + limbs_val s * unat b < 2 ^ (64 * length d)"
  shows "\<exists>r. mpi_mul_hlp s d b = Inr r \<and> length r = length d \<and> limbs_val r = limbs_val d + limbs_val s * unat b"
proof -
  let ?n = "length s"
  obtain es c where l: "mul_loop s d b 0 = Inr (es, c, drop ?n d)" "length es = ?n"
     "limbs_val es + 2 ^ (64 * ?n) * unat c = limbs_val (take ?n d) + limbs_val s * unat b"
    using mul_loop_val [of s d b 0] assms(1) by auto
  have d: "limbs_val d = limbs_val (take ?n d) + 2 ^ (64 * ?n) * limbs_val (drop ?n d)"
    using limbs_val_split [of ?n d] assms(1) by simp
  have t: "limbs_val es + 2 ^ (64 * ?n) * (limbs_val (drop ?n d) + unat c) = limbs_val d + limbs_val s * unat b"
    using l(3) unfolding d distrib_left by linarith
  have "2 ^ (64 * ?n) * (limbs_val (drop ?n d) + unat c) < 2 ^ (64 * ?n) * 2 ^ (64 * (length d - ?n))"
    using t assms by (simp add: power_add [symmetric] distrib_left [symmetric])
  then have "limbs_val (drop ?n d) + unat c < 2 ^ (64 * length (drop ?n d))" by simp
  moreover have "drop ?n d \<noteq> []" using assms(1) by simp
  ultimately obtain fs where fs: "add_carry (drop ?n d) c = Inr fs" "length fs = length (drop ?n d)"
      "limbs_val fs = limbs_val (drop ?n d) + unat c"
    using add_carry_val by blast
  have "limbs_val (es @ fs) = limbs_val d + limbs_val s * unat b" using t by (simp add: limbs_val_append l(2) fs(3))
  then show ?thesis using l(1,2) fs(1,2) assms(1) by (simp add: mpi_mul_hlp_def)
qed

lemma mul_rows_val:
  "length a + j \<le> length x \<Longrightarrow> j \<le> length b \<Longrightarrow> limbs_val x + limbs_val a * limbs_val (take j b) < 2 ^ (64 * length x) \<Longrightarrow>
   \<exists>r. mul_rows a b j x = Inr r \<and> length r = length x \<and> limbs_val r = limbs_val x + limbs_val a * limbs_val (take j b)"
proof (induction j arbitrary: x)
  case 0
  then show ?case by simp
next
  case (Suc j)
  let ?B = "2 ^ (64 * j) :: nat"
  have tk: "limbs_val (take (Suc j) b) = limbs_val (take j b) + ?B * unat (b ! j)"
    using Suc.prems(2) by (simp add: take_Suc_conv_app_nth limbs_val_append)
  have xs: "limbs_val x = limbs_val (take j x) + ?B * limbs_val (drop j x)" using limbs_val_split [of j x] Suc.prems(1) by simp
  have "?B * (limbs_val (drop j x) + limbs_val a * unat (b ! j)) \<le> limbs_val x + limbs_val a * limbs_val (take (Suc j) b)"
    unfolding xs tk by (simp add: algebra_simps)
  also have "\<dots> < ?B * 2 ^ (64 * (length x - j))" using Suc.prems by (simp add: power_add [symmetric] distrib_left [symmetric])
  finally have "limbs_val (drop j x) + limbs_val a * unat (b ! j) < 2 ^ (64 * length (drop j x))" by simp
  moreover have "length a < length (drop j x)" using Suc.prems(1) by simp
  ultimately obtain d where d: "mpi_mul_hlp a (drop j x) (b ! j) = Inr d" "length d = length x - j"
      "limbs_val d = limbs_val (drop j x) + limbs_val a * unat (b ! j)"
    using mpi_mul_hlp_ok [of a "drop j x" "b ! j"] by auto
  let ?x = "take j x @ d"
  have l: "length ?x = length x" using d(2) Suc.prems(1) by simp
  have v: "limbs_val ?x = limbs_val x + limbs_val a * (?B * unat (b ! j))"
    unfolding xs using Suc.prems(1) by (simp add: limbs_val_append d(3) algebra_simps)
  have s: "limbs_val ?x + limbs_val a * limbs_val (take j b) = limbs_val x + limbs_val a * limbs_val (take (Suc j) b)"
    unfolding v tk by (simp add: algebra_simps)
  have "limbs_val ?x + limbs_val a * limbs_val (take j b) < 2 ^ (64 * length ?x)" unfolding s l by (rule Suc.prems(3))
  moreover have "length a + j \<le> length ?x" "j \<le> length b" unfolding l using Suc.prems(1,2) by simp_all
  ultimately obtain r where "mul_rows a b j ?x = Inr r" "length r = length ?x"
      "limbs_val r = limbs_val ?x + limbs_val a * limbs_val (take j b)"
    using Suc.IH [of ?x] by blast
  then show ?case unfolding s l by (simp add: d(1))
qed

lemma used_limbs_bound: "limbs_val p < 2 ^ (64 * k) \<Longrightarrow> used_limbs p (length p) \<le> k"
proof (cases "used_limbs p (length p)")
  case (Suc i)
  assume "limbs_val p < 2 ^ (64 * k)"
  then have "2 ^ (64 * i) < (2 :: nat) ^ (64 * k)" using used_limbs_lower [OF Suc] by (rule le_less_trans [rotated])
  then have "64 * i < 64 * k" by (rule power_less_imp_less_exp [rotated]) simp
  then show ?thesis using Suc by simp
qed simp

lemma mpi_mul_mpi_ok:
  fixes A B :: mpi
  defines "w \<equiv> used_limbs (mpi_p A) (length (mpi_p A)) + used_limbs (mpi_p B) (length (mpi_p B))"
  assumes "w \<le> MPI_MAX_LIMBS" "mpi_wf A" "mpi_wf B"
  shows "\<exists>Z. mpi_mul_mpi X A B = ok Z \<and> mpi_val Z = mpi_val A * mpi_val B \<and> mpi_wf Z
     \<and> length (mpi_p Z) = max 1 (max (length (mpi_p X)) w)"
proof -
  let ?a = "mpi_p A" and ?b = "mpi_p B"
  let ?i = "used_limbs ?a (length ?a)" and ?j = "used_limbs ?b (length ?b)"
  define n where "n = max 1 (max (length (mpi_p X)) (?i + ?j))"
  have nij: "?i + ?j \<le> n" by (simp add: n_def)
  have grown: "mpi_grow X (?i + ?j) = ok (X\<lparr>mpi_p := mpi_p X @ replicate (?i + ?j - length (mpi_p X)) 0\<rparr>)"
    using assms(2) unfolding w_def by (rule mpi_grow_ok)
  have set0: "mpi_lset (X\<lparr>mpi_p := mpi_p X @ replicate (?i + ?j - length (mpi_p X)) 0\<rparr>) 0
      = ok \<lparr>mpi_s = 1, mpi_p = replicate n 0\<rparr>"
    unfolding mpi_lset_ok by (cases "length (mpi_p X) + (?i + ?j - length (mpi_p X))") (auto simp: n_def max_def)
  have ai: "limbs_val (take ?i ?a) = limbs_val ?a" "length (take ?i ?a) = ?i"
    and bj: "limbs_val (take ?j ?b) = limbs_val ?b" "?j \<le> length ?b"
    using limbs_val_used used_limbs_le [of ?a "length ?a"] used_limbs_le [of ?b "length ?b"] by simp_all
  have "limbs_val ?a * limbs_val ?b < 2 ^ (64 * ?i) * 2 ^ (64 * ?j)"
    by (intro mult_strict_mono used_limbs_upper) simp_all
  also have "\<dots> \<le> 2 ^ (64 * n)"
    using nij unfolding power_add [symmetric] by (intro power_increasing) (linarith, simp)
  finally have "limbs_val (replicate n 0) + limbs_val (take ?i ?a) * limbs_val (take ?j ?b) < 2 ^ (64 * length (replicate n (0 :: u64)))"
    by (simp add: ai bj)
  then obtain r where r: "mul_rows (take ?i ?a) ?b ?j (replicate n 0) = Inr r" "length r = n"
      "limbs_val r = limbs_val ?a * limbs_val ?b"
    using mul_rows_val [of "take ?i ?a" ?j "replicate n 0" ?b] ai bj nij by auto
  have "mpi_mul_mpi X A B = ok \<lparr>mpi_s = mpi_s A * mpi_s B, mpi_p = r\<rparr>"
    by (simp add: mpi_mul_mpi_def grown set0 r(1))
  then show ?thesis using r assms(3,4) by (auto simp: mpi_val_def mpi_wf_def n_def w_def)
qed

lemma mpi_mul_int_ok:
  assumes "used_limbs (mpi_p A) (length (mpi_p A)) < MPI_MAX_LIMBS" "mpi_wf A"
  shows "\<exists>Z. mpi_mul_int X A b = ok Z \<and> mpi_val Z = mpi_val A * int (unat b) \<and> mpi_wf Z
     \<and> length (mpi_p X) \<le> length (mpi_p Z)
     \<and> length (mpi_p Z) \<le> max 1 (max (length (mpi_p X)) (Suc (used_limbs (mpi_p A) (length (mpi_p A)))))"
  using mpi_mul_mpi_ok [of A "\<lparr>mpi_s = 1, mpi_p = [b]\<rparr>" X] assms
  by (cases "b = 0") (auto simp: mpi_mul_int_def mpi_wf_def mpi_val_def)

section \<open>Doubling in place\<close>

lemma add_loop_same:
  "length bs \<le> length xs \<Longrightarrow> add_loop True 0 xs bs = (map (\<lambda>x. x + x) (take (length bs) xs), 0, drop (length bs) xs)"
  by (induction bs arbitrary: xs) (auto simp: neq_Nil_conv Suc_le_length_iff)

lemma mpi_add_abs_same:
  assumes "length (mpi_p A) \<le> MPI_MAX_LIMBS"
  shows "mpi_add_abs All_same A A A = ok (A\<lparr>mpi_s := 1, mpi_p := map (\<lambda>x. x + x) (mpi_p A)\<rparr>)"
proof -
  let ?p = "mpi_p A"
  define j where "j = used_limbs ?p (length ?p)"
  have j: "j \<le> length ?p" unfolding j_def by (rule used_limbs_le)
  have "drop j ?p = replicate (length ?p - j) 0" using used_limbs_zeros [of "length ?p" ?p] by (simp add: j_def)
  then have "map (\<lambda>x. x + x) (take j ?p) @ drop j ?p = map (\<lambda>x. x + x) (take j ?p @ drop j ?p)"
    unfolding map_append by simp
  then have d: "map (\<lambda>x. x + x) (take j ?p) @ drop j ?p = map (\<lambda>x. x + x) ?p" by simp
  have g: "mpi_grow (A\<lparr>mpi_s := 1\<rparr>) j = ok (A\<lparr>mpi_s := 1\<rparr>)" using j assms by (simp add: mpi_grow_def)
  have l: "add_loop True 0 ?p (take j ?p) = (map (\<lambda>x. x + x) (take j ?p), 0, drop j ?p)"
    using add_loop_same [of "take j ?p" ?p] j by (simp add: min_def)
  show ?thesis
    unfolding mpi_add_abs_def j_def [symmetric] using g l d by (simp add: Let_def j_def [symmetric] carry_loop.simps)
qed

lemma double_limb: "unat (x + x) + (if x < 2 ^ 63 then 0 else 2 ^ 64) = 2 * unat x" for x :: u64
  using carry_add [of x x] limb_bound [of x] limb_bound [of "x + x"]
  by (cases "x + x < x") (auto simp: word_less_nat_alt)

lemma double_limbs_le: "limbs_val (map (\<lambda>x. x + x) p) \<le> 2 * limbs_val p"
proof (induction p)
  case (Cons x p)
  have "unat (x + x) \<le> 2 * unat x" using double_limb [of x] by linarith
  then show ?case using Cons by simp
qed simp

lemma double_limbs: "limbs_val (map (\<lambda>x. x + x) p) = 2 * limbs_val p \<longleftrightarrow> list_all (\<lambda>x. x < 2 ^ 63) p"
proof (induction p)
  case (Cons x p)
  show ?case using Cons double_limbs_le [of p] double_limb [of x] by (cases "x < 2 ^ 63") auto
qed simp

section \<open>Bits and shifts\<close>

definition mpi_get_bit :: "mpi \<Rightarrow> nat \<Rightarrow> int" where
  "mpi_get_bit X pos =
     (if length (mpi_p X) * 64 \<le> pos then 0 else uint (drop_bit (pos mod 64) (mpi_p X ! (pos div 64)) AND 1))"

definition mpi_set_bit :: "mpi \<Rightarrow> nat \<Rightarrow> byte \<Rightarrow> mpi chk" where
  "mpi_set_bit X pos val =
     (let off = pos div 64; idx = pos mod 64 in
      if val \<noteq> 0 \<and> val \<noteq> 1 then fail ERR_MPI_BAD_INPUT_DATA
      else if length (mpi_p X) * 64 \<le> pos \<and> val = 0 then ok X
      else chk_bind (if length (mpi_p X) * 64 \<le> pos then mpi_grow X (off + 1) else ok X) (\<lambda>X.
        ok (X\<lparr>mpi_p := (mpi_p X)[off := mpi_p X ! off AND NOT (push_bit idx 1) OR push_bit idx (ucast val)]\<rparr>)))"

text \<open>The two loops of \<open>mbedtls_mpi_lsb\<close>; they start at bit 0 of limb 0 and count.\<close>

fun lsb_bits :: "u64 \<Rightarrow> nat \<Rightarrow> nat option" where
  "lsb_bits x 0 = None"
| "lsb_bits x (Suc n) = (if drop_bit (63 - n) x AND 1 \<noteq> 0 then Some (63 - n) else lsb_bits x n)"

fun lsb_limbs :: "limbs \<Rightarrow> nat \<Rightarrow> nat" where
  "lsb_limbs [] count = 0"
| "lsb_limbs (x # xs) count = (case lsb_bits x 64 of Some j \<Rightarrow> count + j | None \<Rightarrow> lsb_limbs xs (count + 64))"

definition limbs_lsb :: "mpi \<Rightarrow> nat" where
  "limbs_lsb X = lsb_limbs (mpi_p X) 0"

text \<open>\<open>mbedtls_clz\<close>: the mask moves down from the top bit.\<close>

fun clz_loop :: "u64 \<Rightarrow> nat \<Rightarrow> nat" where
  "clz_loop x 0 = 64"
| "clz_loop x (Suc n) = (if x AND push_bit n 1 \<noteq> 0 then 63 - n else clz_loop x n)"

definition mpi_clz :: "u64 \<Rightarrow> nat" where
  "mpi_clz x = clz_loop x 64"

definition mpi_bitlen :: "mpi \<Rightarrow> nat" where
  "mpi_bitlen X =
     (if length (mpi_p X) = 0 then 0
      else let i = last_nonzero (mpi_p X) (length (mpi_p X) - 1) in i * 64 + (64 - mpi_clz (mpi_p X ! i)))"

definition limbs_size :: "mpi \<Rightarrow> nat" where
  "limbs_size X = (mpi_bitlen X + 7) div 8"

fun shift_up :: "nat \<Rightarrow> u64 \<Rightarrow> limbs \<Rightarrow> limbs" where
  "shift_up t1 r0 [] = []"
| "shift_up t1 r0 (x # xs) = (push_bit t1 x OR r0) # shift_up t1 (drop_bit (64 - t1) x) xs"

definition mpi_shift_l :: "mpi \<Rightarrow> nat \<Rightarrow> mpi chk" where
  "mpi_shift_l X count =
     (let v0 = count div 64; t1 = count mod 64; i = mpi_bitlen X + count in
      chk_bind (if length (mpi_p X) * 64 < i then mpi_grow X (i div 64 + of_bool (i mod 64 \<noteq> 0)) else ok X) (\<lambda>X.
      let n = length (mpi_p X);
          p = (if v0 > 0 then replicate (min v0 n) 0 @ take (n - v0) (mpi_p X) else mpi_p X);
          p = (if t1 > 0 then take v0 p @ shift_up t1 0 (drop v0 p) else p)
      in ok (X\<lparr>mpi_p := p\<rparr>)))"

text \<open>From the highest limb down.\<close>

fun shift_down :: "nat \<Rightarrow> u64 \<Rightarrow> limbs \<Rightarrow> limbs" where
  "shift_down v1 r0 [] = []"
| "shift_down v1 r0 (x # xs) = (drop_bit v1 x OR r0) # shift_down v1 (push_bit (64 - v1) x) xs"

definition limbs_shift_r :: "mpi \<Rightarrow> nat \<Rightarrow> mpi chk" where
  "limbs_shift_r X count =
     (let v0 = count div 64; v1 = count mod 64; n = length (mpi_p X) in
      if v0 > n \<or> v0 = n \<and> v1 > 0 then mpi_lset X 0
      else let p = (if v0 > 0 then drop v0 (mpi_p X) @ replicate v0 0 else mpi_p X);
               p = (if v1 > 0 then rev (shift_down v1 0 (rev p)) else p)
           in ok (X\<lparr>mpi_p := p\<rparr>))"


section \<open>Bits, by value\<close>

lemma lsb_power: "odd m \<Longrightarrow> mpi_lsb (2 ^ k * m) = k"
proof (induction k)
  case 0
  then show ?case by (simp add: mpi_lsb.simps)
next
  case (Suc k)
  then have "2 ^ k * m \<noteq> 0" by (auto elim: oddE)
  then show ?case using Suc lsb_double [of "2 ^ k * m"] by (simp add: mult.assoc)
qed

lemma bit_and_1: "drop_bit n x AND 1 \<noteq> 0 \<longleftrightarrow> bit x n" for x :: u64
  by (simp add: and_one_eq bit_iff_odd_drop_bit odd_iff_mod_2_eq_one)

lemma lsb_bits_Some: "lsb_bits x n = Some j \<Longrightarrow> n \<le> 64 \<Longrightarrow> 64 - n \<le> j \<and> j < 64 \<and> bit x j \<and> (\<forall>k. 64 - n \<le> k \<longrightarrow> k < j \<longrightarrow> \<not> bit x k)"
proof (induction n)
  case (Suc n)
  show ?case
  proof (cases "bit x (63 - n)")
    case True
    then show ?thesis using Suc.prems bit_and_1 [of "63 - n" x] by auto
  next
    case False
    then have ih: "64 - n \<le> j \<and> j < 64 \<and> bit x j \<and> (\<forall>k. 64 - n \<le> k \<longrightarrow> k < j \<longrightarrow> \<not> bit x k)"
      using Suc bit_and_1 [of "63 - n" x] by simp
    have "\<not> bit x k" if "64 - Suc n \<le> k" "k < j" for k
      using ih that False Suc.prems(2) by (cases "k = 63 - n") auto
    then show ?thesis using ih by auto
  qed
qed simp

lemma lsb_bits_None: "lsb_bits x n = None \<Longrightarrow> n \<le> 64 \<Longrightarrow> 64 - n \<le> k \<Longrightarrow> \<not> bit x k"
proof (induction n)
  case 0
  then show ?case using bit_imp_le_length [of x k] by auto
next
  case (Suc n)
  then have "\<not> bit x (63 - n)" "lsb_bits x n = None" using bit_and_1 [of "63 - n" x] by (auto split: if_splits)
  then show ?case using Suc by (cases "k = 63 - n") auto
qed


lemma low_bits_zero: "(\<forall>k < j. \<not> bit x k) \<Longrightarrow> bit x j \<Longrightarrow> \<exists>m. odd m \<and> unat x = 2 ^ j * m" for x :: u64
proof (intro exI conjI)
  assume z: "\<forall>k < j. \<not> bit x k" and b: "bit x j"
  have "take_bit j (unat x) = 0" by (rule bit_eqI) (use z in \<open>auto simp: bit_take_bit_iff bit_unsigned_iff\<close>)
  then show "unat x = 2 ^ j * drop_bit j (unat x)"
    by (simp add: take_bit_eq_mod drop_bit_eq_div mod_0_imp_dvd)
  show "odd (drop_bit j (unat x))" using b by (simp add: bit_iff_odd_drop_bit [symmetric] bit_unsigned_iff bit_imp_le_length)
qed

lemma high_bits_zero: "(\<And>k. n \<le> k \<Longrightarrow> \<not> bit x k) \<Longrightarrow> unat x < 2 ^ n" for x :: u64
proof -
  assume z: "\<And>k. n \<le> k \<Longrightarrow> \<not> bit x k"
  have "take_bit n (unat x) = unat x"
    by (rule bit_eqI) (use z in \<open>auto simp: bit_take_bit_iff bit_unsigned_iff not_le [symmetric]\<close>)
  then show ?thesis by (metis take_bit_nat_less_exp)
qed

lemma lsb_shift: "v \<noteq> 0 \<Longrightarrow> mpi_lsb (2 ^ n * v) = n + mpi_lsb v"
proof (induction n)
  case (Suc n)
  then show ?case using lsb_double [of "2 ^ n * v"] by (simp add: mult.assoc)
qed simp

lemma lsb_limbs_val: "lsb_limbs xs count = (if limbs_val xs = 0 then 0 else count + mpi_lsb (limbs_val xs))"
proof (induction xs arbitrary: count)
  case (Cons x xs)
  show ?case
  proof (cases "lsb_bits x 64")
    case None
    then have "\<not> bit x k" for k using lsb_bits_None [of x 64 k] by simp
    then have x: "x = 0" by (intro bit_word_eqI) simp
    show ?thesis
    proof (cases "limbs_val xs = 0")
      case True
      then show ?thesis using Cons None x by simp
    next
      case False
      then show ?thesis using Cons None x lsb_shift [of "limbs_val xs" 64] by simp
    qed
  next
    case (Some j)
    then have j: "j < 64" "bit x j" "\<forall>k < j. \<not> bit x k" using lsb_bits_Some [of x 64 j] by auto
    obtain m where m: "odd m" "unat x = 2 ^ j * m" using low_bits_zero [OF j(3,2)] by blast
    have "(2 :: nat) ^ 64 = 2 ^ j * 2 ^ (64 - j)" using j(1) by (simp add: power_add [symmetric])
    then have "limbs_val (x # xs) = 2 ^ j * (m + 2 ^ (64 - j) * limbs_val xs)"
      by (simp only: limbs_val.simps m(2) distrib_left mult.assoc)
    moreover have "odd (m + 2 ^ (64 - j) * limbs_val xs)" using m(1) j(1) by simp
    ultimately show ?thesis using Some lsb_power [of "m + 2 ^ (64 - j) * limbs_val xs" j] m(1)
      by (auto simp del: limbs_val.simps elim: oddE)
  qed
qed simp

lemma limbs_lsb_val: "limbs_lsb X = mpi_lsb (limbs_val (mpi_p X))"
  by (simp add: limbs_lsb_def lsb_limbs_val) (simp add: mpi_lsb.simps)

lemma and_mask_bit: "n < 64 \<Longrightarrow> x AND push_bit n 1 \<noteq> 0 \<longleftrightarrow> bit x n" for x :: u64
  by (simp add: bit_iff_and_push_bit_not_eq_0)

lemma clz_loop_val:
  "n \<le> 64 \<Longrightarrow> (\<And>k. n \<le> k \<Longrightarrow> \<not> bit x k) \<Longrightarrow>
    unat x < 2 ^ (64 - clz_loop x n) \<and> (x \<noteq> 0 \<longrightarrow> clz_loop x n < 64 \<and> 2 ^ (63 - clz_loop x n) \<le> unat x)"
proof (induction n)
  case 0
  then have "x = 0" by (intro bit_word_eqI) simp
  then show ?case by simp
next
  case (Suc n)
  show ?case
  proof (cases "bit x n")
    case True
    have "2 ^ n \<le> unat x"
    proof (rule ccontr)
      assume "\<not> 2 ^ n \<le> unat x"
      then have "\<not> bit (unat x) n" by (simp add: bit_iff_odd div_less)
      then show False using True by (simp add: bit_unsigned_iff bit_imp_le_length)
    qed
    moreover have "unat x < 2 ^ Suc n" by (rule high_bits_zero) (rule Suc.prems(2))
    moreover have "63 - n < 64" by linarith
    ultimately show ?thesis using True Suc.prems(1) and_mask_bit [of n x] by (simp add: Suc_diff_le)
  next
    case False
    have "\<not> bit x k" if "n \<le> k" for k using that False Suc.prems(2) by (cases "k = n") auto
    then show ?thesis using Suc.IH Suc.prems(1) False and_mask_bit [of n x] by simp
  qed
qed

lemma mpi_clz_val: "unat x < 2 ^ (64 - mpi_clz x)" "x \<noteq> 0 \<Longrightarrow> mpi_clz x < 64 \<and> 2 ^ (63 - mpi_clz x) \<le> unat x"
  using clz_loop_val [of 64 x] bit_imp_le_length [of x] by (auto simp: mpi_clz_def not_le [symmetric])


lemma last_nonzero_top: "last_nonzero p n = 0 \<or> p ! last_nonzero p n \<noteq> 0"
  by (induction n) auto

lemma mpi_bitlen_val:
  "limbs_val (mpi_p X) < 2 ^ mpi_bitlen X
   \<and> (if limbs_val (mpi_p X) = 0 then mpi_bitlen X = 0
      else 0 < mpi_bitlen X \<and> 2 ^ (mpi_bitlen X - 1) \<le> limbs_val (mpi_p X))"
proof (cases "mpi_p X = []")
  case True
  then show ?thesis by (simp add: mpi_bitlen_def)
next
  case False
  let ?p = "mpi_p X"
  define i where "i = last_nonzero ?p (length ?p - 1)"
  let ?x = "?p ! i" and ?B = "2 ^ (64 * i) :: nat"
  have i: "i < length ?p" using False last_nonzero_le [of ?p "length ?p - 1"] by (cases ?p) (auto simp: i_def)
  have "limbs_val (take (Suc i) ?p) = limbs_val ?p" using limbs_val_last [OF False] by (simp add: i_def)
  then have v: "limbs_val ?p = limbs_val (take i ?p) + ?B * unat ?x"
    using i by (simp add: take_Suc_conv_app_nth limbs_val_append)
  have lo: "limbs_val (take i ?p) < ?B" using limbs_val_bound [of "take i ?p"] i by simp
  have l: "mpi_bitlen X = 64 * i + (64 - mpi_clz ?x)" using False by (simp add: mpi_bitlen_def Let_def i_def)
  have "unat ?x + 1 \<le> 2 ^ (64 - mpi_clz ?x)" using mpi_clz_val(1) [of ?x] by simp
  then have "?B * (unat ?x + 1) \<le> ?B * 2 ^ (64 - mpi_clz ?x)" by (rule mult_le_mono2)
  then have up: "limbs_val ?p < 2 ^ mpi_bitlen X" using v lo by (simp add: l power_add)
  show ?thesis
  proof (cases "?x = 0")
    case True
    then have "i = 0" using last_nonzero_top [of ?p "length ?p - 1"] by (simp add: i_def)
    moreover have "mpi_clz 0 = 64" by (simp add: mpi_clz_def numeral_eq_Suc)
    ultimately show ?thesis using v True up l by simp
  next
    case False
    note c = mpi_clz_val(2) [OF False]
    have "mpi_bitlen X - 1 = 64 * i + (63 - mpi_clz ?x)" using c by (simp add: l)
    then have "2 ^ (mpi_bitlen X - 1) = ?B * 2 ^ (63 - mpi_clz ?x)" by (simp add: power_add)
    also have "\<dots> \<le> ?B * unat ?x" using c by (intro mult_le_mono2) simp
    also have "\<dots> \<le> limbs_val ?p" using v by simp
    finally have low: "2 ^ (mpi_bitlen X - 1) \<le> limbs_val ?p" .
    then have "limbs_val ?p \<noteq> 0" by (metis not_le zero_less_numeral zero_less_power)
    then show ?thesis using up c low by (simp add: l)
  qed
qed

lemma limbs_size_val: "limbs_size X = mpi_size (int (limbs_val (mpi_p X)))"
proof -
  have "limbs_size X \<le> n \<longleftrightarrow> limbs_val (mpi_p X) < 256 ^ n" for n
  proof -
    have p: "(256 :: nat) ^ n = 2 ^ (8 * n)" by (simp add: power_mult)
    have "limbs_size X \<le> n \<longleftrightarrow> mpi_bitlen X \<le> 8 * n" by (simp add: limbs_size_def) linarith
    also have "\<dots> \<longleftrightarrow> limbs_val (mpi_p X) < 2 ^ (8 * n)"
    proof
      assume "mpi_bitlen X \<le> 8 * n"
      then have "(2 :: nat) ^ mpi_bitlen X \<le> 2 ^ (8 * n)" by (rule power_increasing) simp
      then show "limbs_val (mpi_p X) < 2 ^ (8 * n)" using mpi_bitlen_val [of X] by linarith
    next
      assume lt: "limbs_val (mpi_p X) < 2 ^ (8 * n)"
      show "mpi_bitlen X \<le> 8 * n"
      proof (cases "limbs_val (mpi_p X) = 0")
        case True
        then show ?thesis using mpi_bitlen_val [of X] by simp
      next
        case False
        then have "2 ^ (mpi_bitlen X - 1) \<le> limbs_val (mpi_p X)" using mpi_bitlen_val [of X] by simp
        then have "2 ^ (mpi_bitlen X - 1) < (2 :: nat) ^ (8 * n)" using lt by (rule le_less_trans)
        then have "mpi_bitlen X - 1 < 8 * n" by (rule power_less_imp_less_exp [rotated]) simp
        then show ?thesis by simp
      qed
    qed
    finally show ?thesis unfolding p .
  qed
  moreover have "mpi_size (int (limbs_val (mpi_p X))) \<le> n \<longleftrightarrow> limbs_val (mpi_p X) < 256 ^ n" for n
    unfolding mpi_size_le_iff by simp
  ultimately show ?thesis by (metis le_antisym order_refl)
qed

section \<open>Shifts, by value\<close>

lemma unat_drop_bit: "unat (drop_bit n x) = unat x div 2 ^ n" for x :: u64
  by (simp only: unat_drop_bit_eq) (simp only: drop_bit_eq_div)

lemma unat_push_bit:
  fixes a :: u64
  assumes "n \<le> 64"
  shows "unat (push_bit n a) = 2 ^ n * (unat a mod 2 ^ (64 - n))"
proof -
  have "unat (push_bit n a) = unat a * 2 ^ n mod 2 ^ 64"
    by (simp only: unsigned_push_bit_eq) (simp add: push_bit_eq_mult take_bit_eq_mod)
  also have "(2 :: nat) ^ 64 = 2 ^ (64 - n) * 2 ^ n" using assms by (simp add: power_add [symmetric])
  finally show ?thesis by (metis mod_mult_mult2 mult.commute)
qed

lemma shift_split:
  fixes a :: u64
  assumes "n \<le> 64"
  shows "unat (push_bit n a) + 2 ^ 64 * unat (drop_bit (64 - n) a) = 2 ^ n * unat a"
proof -
  have "(2 :: nat) ^ 64 = 2 ^ n * 2 ^ (64 - n)" using assms by (simp add: power_add [symmetric])
  then have "unat (push_bit n a) + 2 ^ 64 * unat (drop_bit (64 - n) a)
      = 2 ^ n * (unat a mod 2 ^ (64 - n) + 2 ^ (64 - n) * (unat a div 2 ^ (64 - n)))"
    by (simp only: unat_push_bit [OF assms] unat_drop_bit distrib_left mult.assoc)
  then show ?thesis by simp
qed

lemma disjoint_or:
  fixes a b :: u64
  assumes "unat b < 2 ^ n" "n \<le> 64"
  shows "unat (push_bit n a OR b) = unat (push_bit n a) + unat b"
proof -
  have "push_bit n a AND b = 0"
  proof (rule bit_word_eqI)
    fix k
    have "\<not> bit b k" if "n \<le> k"
    proof -
      have "unat b < 2 ^ k" using assms(1) that by (meson less_le_trans power_increasing one_le_numeral)
      then have "\<not> bit (unat b) k" by (simp add: bit_iff_odd div_less)
      then show ?thesis by (auto simp: bit_unsigned_iff dest: bit_imp_le_length)
    qed
    then show "bit (push_bit n a AND b) k \<longleftrightarrow> bit (0 :: u64) k" by (auto simp: bit_simps)
  qed
  then have "push_bit n a OR b = push_bit n a + b" by (simp add: disjunctive_add_eq_or)
  moreover have "unat (push_bit n a) + unat b < 2 ^ 64"
  proof -
    have "unat a mod 2 ^ (64 - n) + 1 \<le> 2 ^ (64 - n)" by (simp add: Suc_le_eq)
    then have "2 ^ n * (unat a mod 2 ^ (64 - n) + 1) \<le> 2 ^ n * 2 ^ (64 - n)" by (rule mult_le_mono2)
    also have "\<dots> = 2 ^ 64" using assms(2) by (simp add: power_add [symmetric])
    finally show ?thesis using assms(1) unfolding unat_push_bit [OF assms(2)] distrib_left by simp
  qed
  ultimately show ?thesis by (simp add: unat_word_ariths(1))
qed

lemma shift_up_val:
  "0 < t \<Longrightarrow> t < 64 \<Longrightarrow> unat r0 < 2 ^ t \<Longrightarrow> 2 ^ t * limbs_val xs + unat r0 < 2 ^ (64 * length xs) \<Longrightarrow>
    limbs_val (shift_up t r0 xs) = 2 ^ t * limbs_val xs + unat r0"
proof (induction xs arbitrary: r0)
  case (Cons x xs)
  let ?r = "drop_bit (64 - t) x"
  have r: "unat ?r < 2 ^ t"
  proof -
    have "unat x < 2 ^ t * 2 ^ (64 - t)" using limb_bound [of x] Cons.prems(2) by (simp add: power_add [symmetric])
    then show ?thesis unfolding unat_drop_bit by (rule less_mult_imp_div_less)
  qed
  have x: "unat (push_bit t x OR r0) + 2 ^ 64 * unat ?r = 2 ^ t * unat x + unat r0"
    using disjoint_or [OF Cons.prems(3), of x] shift_split [of t x] Cons.prems(2) by simp
  have "2 ^ 64 * (2 ^ t * limbs_val xs + unat ?r) \<le> 2 ^ t * limbs_val (x # xs) + unat r0"
    using x by (simp add: algebra_simps)
  also have "\<dots> < 2 ^ 64 * 2 ^ (64 * length xs)" using Cons.prems(4) by (simp add: power_add)
  finally have "2 ^ t * limbs_val xs + unat ?r < 2 ^ (64 * length xs)" by simp
  then have "limbs_val (shift_up t ?r xs) = 2 ^ t * limbs_val xs + unat ?r"
    using Cons.IH [OF Cons.prems(1,2) r] by blast
  then show ?case using x by (simp add: algebra_simps)
qed simp


lemma limbs_needed: "i div 64 + of_bool (i mod 64 \<noteq> 0) = (i + 63) div 64" for i :: nat
proof (cases "i mod 64 = 0")
  case True
  then show ?thesis using mult_div_mod_eq [of 64 i] by (auto simp: dvd_def)
next
  case False
  define k r where "k = i div 64" and "r = i mod 64"
  have "i + 63 = (r + 63) + 64 * k" by (simp add: k_def r_def)
  then have "(i + 63) div 64 = k + (r + 63) div 64" by (simp only: div_mult_self2 zero_neq_numeral not_False_eq_True)
  moreover have "r < 64" "r \<noteq> 0" using False by (simp_all add: r_def)
  then have "(r + 63) div 64 = 1" by (intro div_nat_eqI) simp_all
  ultimately show ?thesis using False by (simp add: k_def)
qed

lemma mpi_shift_l_ok:
  assumes "mpi_bitlen X + count \<le> 64 * MPI_MAX_LIMBS"
  shows "\<exists>Z. mpi_shift_l X count = ok Z \<and> mpi_s Z = mpi_s X \<and> limbs_val (mpi_p Z) = 2 ^ count * limbs_val (mpi_p X)
    \<and> length (mpi_p Z) = max (length (mpi_p X)) ((mpi_bitlen X + count + 63) div 64)"
proof -
  define v0 t1 i where "v0 = count div 64" and "t1 = count mod 64" and "i = mpi_bitlen X + count"
  have count: "count = 64 * v0 + t1" "t1 < 64" by (simp_all add: v0_def t1_def)
  define m where "m = i div 64 + of_bool (i mod 64 \<noteq> 0)"
  have m: "m = (i + 63) div 64" unfolding m_def by (rule limbs_needed)
  have mm: "m \<le> MPI_MAX_LIMBS" using assms unfolding m i_def [symmetric] by simp
  have i64: "i \<le> 64 * m" unfolding m by linarith
  define p where "p = mpi_p X @ replicate (m - length (mpi_p X)) 0"
  define n where "n = length p"
  have n: "n = max (length (mpi_p X)) m" by (simp add: n_def p_def)
  have g: "(if length (mpi_p X) * 64 < i then mpi_grow X m else ok X) = ok (X\<lparr>mpi_p := p\<rparr>)"
  proof (cases "length (mpi_p X) * 64 < i")
    case True
    then show ?thesis using mpi_grow_ok [OF mm, of X] by (simp add: p_def)
  next
    case False
    then have "m \<le> length (mpi_p X)" unfolding m by simp
    then show ?thesis using False by (simp add: p_def)
  qed
  have pv: "limbs_val p = limbs_val (mpi_p X)" by (simp add: p_def limbs_val_append)
  have fit: "2 ^ count * limbs_val p < 2 ^ (64 * n)"
  proof (cases "limbs_val p = 0")
    case False
    have "2 ^ count * limbs_val p < 2 ^ count * 2 ^ mpi_bitlen X" using mpi_bitlen_val [of X] pv by simp
    also have "\<dots> \<le> 2 ^ (64 * n)" unfolding power_add [symmetric] using i64 n by (intro power_increasing) (auto simp: i_def)
    finally show ?thesis .
  qed simp
  have ex: "(2 :: nat) ^ count = 2 ^ (64 * v0) * 2 ^ t1" by (simp add: count(1) power_add)
  define q where "q = (if v0 > 0 then replicate (min v0 n) 0 @ take (n - v0) p else p)"
  define r where "r = (if t1 > 0 then take v0 q @ shift_up t1 0 (drop v0 q) else q)"
  have "length r = n \<and> limbs_val r = 2 ^ count * limbs_val p"
  proof (cases "v0 \<le> n")
    case True
    have "2 ^ (64 * v0) * (2 ^ t1 * limbs_val p) < 2 ^ (64 * v0) * 2 ^ (64 * (n - v0))"
    proof -
      have "64 * v0 + 64 * (n - v0) = 64 * n" using True by simp
      then have "(2 :: nat) ^ (64 * v0) * 2 ^ (64 * (n - v0)) = 2 ^ (64 * n)" by (metis power_add)
      then show ?thesis using fit unfolding ex by (simp only: mult.assoc)
    qed
    then have fit': "2 ^ t1 * limbs_val p < 2 ^ (64 * (n - v0))" by simp
    then have small: "limbs_val p < 2 ^ (64 * (n - v0))"
      by (rule le_less_trans [rotated]) simp
    have "limbs_val (take (n - v0) p) = limbs_val p" using small by (simp add: limbs_val_take n_def)
    then have q: "length q = n" "take v0 q = replicate v0 0" "limbs_val (drop v0 q) = limbs_val p"
      using True by (auto simp: q_def n_def)
    have qv: "limbs_val q = 2 ^ (64 * v0) * limbs_val p"
      using limbs_val_split [of v0 q] q True by simp
    show ?thesis
    proof (cases "t1 > 0")
      case False
      then show ?thesis using q(1) qv ex by (simp add: r_def)
    next
      case t1: True
      have "limbs_val (shift_up t1 0 (drop v0 q)) = 2 ^ t1 * limbs_val p"
        using shift_up_val [of t1 0 "drop v0 q"] t1 count(2) fit' q by simp
      moreover have "length (shift_up t1 0 ys) = length ys" for t1 :: nat and ys :: limbs
      proof -
        have "length (shift_up t1 c ys) = length ys" for c by (induction ys arbitrary: c) simp_all
        then show ?thesis .
      qed
      ultimately show ?thesis using t1 q True by (simp add: r_def limbs_val_append ex mult.assoc)
    qed
  next
    case False
    have z: "limbs_val p = 0"
    proof (rule ccontr)
      assume "limbs_val p \<noteq> 0"
      then have "(2 :: nat) ^ (64 * n) < 2 ^ (64 * n)"
      proof -
        assume nz: "limbs_val p \<noteq> 0"
        have "(2 :: nat) ^ (64 * n) \<le> 2 ^ (64 * v0)" using False by (intro power_increasing) auto
        also have "\<dots> \<le> 2 ^ count * limbs_val p" using nz unfolding ex by simp
        also have "\<dots> < 2 ^ (64 * n)" by (rule fit)
        finally show ?thesis .
      qed
      then show False by simp
    qed
    have "q = replicate n 0" using False by (simp add: q_def min_def)
    then have "r = replicate n 0" using False by (simp add: r_def)
    then show ?thesis using z by simp
  qed
  moreover have "mpi_shift_l X count = ok (X\<lparr>mpi_p := r\<rparr>)"
    unfolding mpi_shift_l_def Let_def v0_def [symmetric] t1_def [symmetric] i_def [symmetric] m_def [symmetric] g chk_bind_simps
    unfolding r_def q_def n_def by simp
  ultimately show ?thesis using pv n m by (simp add: i_def)
qed

lemma shift_down_val:
  assumes "0 < v" "v < 64"
  shows "limbs_val (rev (shift_down v (push_bit (64 - v) h) ys)) = (unat h mod 2 ^ v * 2 ^ (64 * length ys) + limbs_val (rev ys)) div 2 ^ v
    \<and> length (shift_down v (push_bit (64 - v) h) ys) = length ys"
proof (induction ys arbitrary: h)
  case Nil
  then show ?case by simp
next
  case (Cons y ys)
  let ?N = "2 ^ (64 * length ys) :: nat"
  have yv: "unat (drop_bit v y) < 2 ^ (64 - v)"
  proof -
    have "unat y < 2 ^ (64 - v) * 2 ^ v" using limb_bound [of y] assms by (simp add: power_add [symmetric])
    then show ?thesis unfolding unat_drop_bit by (rule less_mult_imp_div_less)
  qed
  have o: "unat (drop_bit v y OR push_bit (64 - v) h) = unat y div 2 ^ v + 2 ^ (64 - v) * (unat h mod 2 ^ v)"
    using disjoint_or [OF yv, of h] assms unat_push_bit [of "64 - v" h] by (simp add: or.commute unat_drop_bit)
  have "limbs_val (rev (shift_down v (push_bit (64 - v) h) (y # ys)))
      = (unat y mod 2 ^ v * ?N + limbs_val (rev ys)) div 2 ^ v + ?N * (unat y div 2 ^ v + 2 ^ (64 - v) * (unat h mod 2 ^ v))"
    using Cons.IH [of y] by (simp add: limbs_val_append o)
  also have "\<dots> = ((unat y mod 2 ^ v * ?N + limbs_val (rev ys)) + ?N * (unat y div 2 ^ v + 2 ^ (64 - v) * (unat h mod 2 ^ v)) * 2 ^ v) div 2 ^ v"
    by simp
  also have "(unat y mod 2 ^ v * ?N + limbs_val (rev ys)) + ?N * (unat y div 2 ^ v + 2 ^ (64 - v) * (unat h mod 2 ^ v)) * 2 ^ v
      = ?N * (unat y mod 2 ^ v + unat y div 2 ^ v * 2 ^ v) + limbs_val (rev ys) + ?N * (unat h mod 2 ^ v) * (2 ^ (64 - v) * 2 ^ v)"
    by (simp only: algebra_simps)
  also have "2 ^ (64 - v) * 2 ^ v = (2 ^ 64 :: nat)" using assms by (simp add: power_add [symmetric])
  also have "unat y mod 2 ^ v + unat y div 2 ^ v * 2 ^ v = unat y" by (rule mod_div_mult_eq)
  also have "?N * unat y + limbs_val (rev ys) + ?N * (unat h mod 2 ^ v) * 2 ^ 64
      = unat h mod 2 ^ v * 2 ^ (64 * length (y # ys)) + limbs_val (rev (y # ys))"
    by (simp add: limbs_val_append power_add algebra_simps)
  finally show ?case using Cons.IH [of y] by simp
qed

lemma limbs_shift_r_ok:
  "\<exists>Z. limbs_shift_r X count = ok Z \<and> limbs_val (mpi_p Z) = limbs_val (mpi_p X) div 2 ^ count
    \<and> (limbs_val (mpi_p Z) \<noteq> 0 \<longrightarrow> mpi_s Z = mpi_s X) \<and> (mpi_wf X \<longrightarrow> mpi_wf Z) \<and> length (mpi_p Z) \<le> max 1 (length (mpi_p X))"
proof -
  define v0 v1 n where "v0 = count div 64" and "v1 = count mod 64" and "n = length (mpi_p X)"
  have count: "count = 64 * v0 + v1" "v1 < 64" by (simp_all add: v0_def v1_def)
  have ex: "(2 :: nat) ^ count = 2 ^ (64 * v0) * 2 ^ v1" by (simp add: count(1) power_add)
  show ?thesis
  proof (cases "v0 > n \<or> v0 = n \<and> v1 > 0")
    case True
    then have "64 * n \<le> count" using count by auto
    then have "(2 :: nat) ^ (64 * n) \<le> 2 ^ count" by (rule power_increasing) simp
    then have "limbs_val (mpi_p X) < 2 ^ count"
      using limbs_val_bound [of "mpi_p X"] unfolding n_def by (rule less_le_trans [rotated])
    moreover have "limbs_shift_r X count = mpi_lset X 0"
      using True unfolding limbs_shift_r_def v0_def [symmetric] v1_def [symmetric] n_def [symmetric] by (simp add: Let_def)
    ultimately show ?thesis by (auto simp: mpi_lset_ok mpi_wf_def n_def)
  next
    case False
    then have v0: "v0 \<le> n" by auto
    define q where "q = (if v0 > 0 then drop v0 (mpi_p X) @ replicate v0 0 else mpi_p X)"
    have q: "length q = n" "limbs_val q = limbs_val (mpi_p X) div 2 ^ (64 * v0)"
      using v0 by (auto simp: q_def limbs_val_append limbs_val_drop n_def)
    define r where "r = (if v1 > 0 then rev (shift_down v1 0 (rev q)) else q)"
    have "length r = n \<and> limbs_val r = limbs_val (mpi_p X) div 2 ^ count"
    proof (cases "v1 > 0")
      case True
      then show ?thesis
        using shift_down_val [OF True count(2), of 0 "rev q"] q by (simp add: r_def ex div_mult2_eq)
    qed (simp add: r_def q ex)
    moreover have "limbs_shift_r X count = ok (X\<lparr>mpi_p := r\<rparr>)"
    proof -
      have "(v0 > n \<or> v0 = n \<and> v1 > 0) = False" using False by simp
      then show ?thesis
        unfolding limbs_shift_r_def Let_def v0_def [symmetric] v1_def [symmetric] n_def [symmetric]
        by (simp only: if_False q_def r_def)
    qed
    ultimately show ?thesis by (simp add: mpi_wf_def n_def)
  qed
qed

section \<open>The interface to the values\<close>





text \<open>Adding a number to itself in place doubles every limb on its own and loses the carries between
  them: the second operand of each limb addition is the limb that has just been changed.  The result is the
  double exactly when no limb has its top bit set.\<close>

lemma doubling_in_place:
  assumes "fits A"
  shows "mpi_add_mpi All_same A A A = ok (A\<lparr>mpi_p := map (\<lambda>x. x + x) (mpi_p A)\<rparr>)
    \<and> (mpi_val (A\<lparr>mpi_p := map (\<lambda>x. x + x) (mpi_p A)\<rparr>) = 2 * mpi_val A \<longleftrightarrow> list_all (\<lambda>x. x < 2 ^ 63) (mpi_p A))"
proof -
  have s: "mpi_s A = 1 \<or> mpi_s A = - 1" using assms by (simp add: fits_def mpi_wf_def)
  then have "mpi_add_mpi All_same A A A = ok (A\<lparr>mpi_p := map (\<lambda>x. x + x) (mpi_p A)\<rparr>)"
    using mpi_add_abs_same [of A] assms by (auto simp: mpi_add_mpi_def Let_def fits_def)
  moreover have "mpi_val (A\<lparr>mpi_p := map (\<lambda>x. x + x) (mpi_p A)\<rparr>) = 2 * mpi_val A \<longleftrightarrow> list_all (\<lambda>x. x < 2 ^ 63) (mpi_p A)"
    using s unfolding double_limbs [symmetric] by (auto simp: mpi_val_def)
  ultimately show ?thesis by blast
qed

end
