(* ===== verification/Mpi_Div.thy ===== *)
theory Mpi_Div
  imports Mpi_Limbs "HOL-Library.Signed_Division"
begin

text \<open>
  Long division on limbs (\<open>mbedtls_mpi_div_mpi\<close>, \<open>mbedtls_mpi_mod_mpi\<close> and the division of a double limb in
  \<open>bignum.c\<close>), and the proof that it gives the quotient and the remainder of the values.
\<close>

section \<open>Runs\<close>

text \<open>\<open>None\<close> is a loop that does not end.\<close>

type_synonym 'a crun = "'a chk option"

abbreviation done_with :: "'a \<Rightarrow> 'a crun" where
  "done_with x \<equiv> Some (ok x)"

definition crun_bind :: "'a crun \<Rightarrow> ('a \<Rightarrow> 'b crun) \<Rightarrow> 'b crun" where
  "crun_bind m f =
     (case m of None \<Rightarrow> None | Some (Inl e) \<Rightarrow> Some (Inl e) | Some (Inr (Inl c)) \<Rightarrow> Some (fail c) | Some (Inr (Inr x)) \<Rightarrow> f x)"

lemma crun_bind_simps [simp]:
  "crun_bind None f = None"
  "crun_bind (Some (Inl e)) f = Some (Inl e)"
  "crun_bind (Some (fail c)) f = Some (fail c)"
  "crun_bind (done_with x) f = f x"
  by (simp_all add: crun_bind_def)

section \<open>Dividing a double limb\<close>

text \<open>The variant for compilers with a 128-bit type; the quotient and \<open>*r\<close>.\<close>

definition int_div_int :: "u64 \<Rightarrow> u64 \<Rightarrow> u64 \<Rightarrow> u64 \<times> u64" where
  "int_div_int u1 u0 d =
     (if 0 = d \<or> u1 \<ge> d then (NOT 0, NOT 0)
      else
        let dividend = push_bit 64 (ucast u1 :: 128 word) OR ucast u0;
            quotient = dividend div ucast d;
            quotient = (if quotient > push_bit 64 1 - 1 then push_bit 64 1 - 1 else quotient)
        in (ucast quotient, ucast (dividend - quotient * ucast d)))"

section \<open>Long division\<close>

text \<open>The first loop, on \<open>Z.p[n - t]\<close> and \<open>X\<close>.\<close>

partial_function (option) top_loop :: "mpi \<Rightarrow> u64 \<Rightarrow> mpi \<Rightarrow> (u64 \<times> mpi) crun" where
  "top_loop Y z X =
     (if mpi_cmp_mpi X Y \<ge> 0 then
        (case mpi_sub_mpi X_is_A X X Y of
           Inl e \<Rightarrow> Some (Inl e)
         | Inr r \<Rightarrow> (case r of Inl c \<Rightarrow> Some (fail c) | Inr X \<Rightarrow> top_loop Y (z + 1) X))
      else done_with (z, X))"

text \<open>The two numbers that are compared to correct a digit.\<close>

definition digit_t1 :: "limbs \<Rightarrow> nat \<Rightarrow> u64 \<Rightarrow> mpi \<Rightarrow> mpi chk" where
  "digit_t1 Y t q T1 =
     chk_bind (mpi_lset T1 0) (\<lambda>T1.
     let T1 = T1\<lparr>mpi_p := (mpi_p T1)[0 := if t < 1 then 0 else Y ! (t - 1), 1 := Y ! t]\<rparr> in
     mpi_mul_int T1 T1 q)"

definition digit_t2 :: "limbs \<Rightarrow> nat \<Rightarrow> mpi \<Rightarrow> mpi chk" where
  "digit_t2 X i T2 =
     chk_bind (mpi_lset T2 0) (\<lambda>T2.
     ok (T2\<lparr>mpi_p := (mpi_p T2)[0 := if i < 2 then 0 else X ! (i - 2), 1 := if i < 1 then 0 else X ! (i - 1), 2 := X ! i]\<rparr>))"

partial_function (option) digit_loop :: "limbs \<Rightarrow> nat \<Rightarrow> limbs \<Rightarrow> nat \<Rightarrow> u64 \<Rightarrow> mpi \<Rightarrow> mpi \<Rightarrow> (u64 \<times> mpi \<times> mpi) crun" where
  "digit_loop Y t X i z T1 T2 =
     (case chk_bind (digit_t1 Y t (z - 1) T1) (\<lambda>T1. chk_bind (digit_t2 X i T2) (\<lambda>T2. ok (T1, T2))) of
        Inl e \<Rightarrow> Some (Inl e)
      | Inr r \<Rightarrow>
          (case r of
             Inl c \<Rightarrow> Some (fail c)
           | Inr TT \<Rightarrow>
               if mpi_cmp_mpi (fst TT) (snd TT) > 0 then digit_loop Y t X i (z - 1) (fst TT) (snd TT)
               else done_with (z - 1, TT)))"

definition first_digit :: "limbs \<Rightarrow> nat \<Rightarrow> limbs \<Rightarrow> nat \<Rightarrow> u64" where
  "first_digit Y t X i =
     (if X ! i \<ge> Y ! t then NOT 0 else fst (int_div_int (X ! i) (X ! (i - 1)) (Y ! t)))"

text \<open>The rest of the body of the loop over the digits: the digit, \<open>X\<close> and \<open>T1\<close>.\<close>

definition take_digit :: "mpi \<Rightarrow> nat \<Rightarrow> u64 \<Rightarrow> mpi \<Rightarrow> mpi \<Rightarrow> (u64 \<times> mpi \<times> mpi) chk" where
  "take_digit Y s z X T1 =
     chk_bind (mpi_mul_int T1 Y z) (\<lambda>T1.
     chk_bind (mpi_shift_l T1 (64 * s)) (\<lambda>T1.
     chk_bind (mpi_sub_mpi X_is_A X X T1) (\<lambda>X.
     if mpi_cmp_int X 0 < 0 then
       chk_bind (mpi_copy T1 Y) (\<lambda>T1.
       chk_bind (mpi_shift_l T1 (64 * s)) (\<lambda>T1.
       chk_bind (mpi_add_mpi X_is_A X X T1) (\<lambda>X. ok (z - 1, X, T1))))
     else ok (z, X, T1))))"

text \<open>The loop from \<open>i = t + m\<close> down to \<open>t + 1\<close>.\<close>

fun div_loop :: "mpi \<Rightarrow> nat \<Rightarrow> nat \<Rightarrow> mpi \<Rightarrow> limbs \<Rightarrow> mpi \<Rightarrow> mpi \<Rightarrow> (mpi \<times> limbs) crun" where
  "div_loop Y t 0 X Z T1 T2 = done_with (X, Z)"
| "div_loop Y t (Suc s) X Z T1 T2 =
     (let i = t + Suc s in
      crun_bind (digit_loop (mpi_p Y) t (mpi_p X) i (first_digit (mpi_p Y) t (mpi_p X) i + 1) T1 T2) (\<lambda>(z, T1, T2).
      crun_bind (Some (take_digit Y s z X T1)) (\<lambda>(z, X, T1).
      div_loop Y t s X (Z[s := z]) T1 T2)))"

text \<open>The magnitudes: the digits of the quotient, and the remainder shifted left by the second component.\<close>

definition div_limbs :: "mpi \<Rightarrow> mpi \<Rightarrow> (mpi \<times> nat \<times> mpi) crun" where
  "div_limbs A B =
     crun_bind (Some (mpi_copy mpi_init A)) (\<lambda>X.
     crun_bind (Some (mpi_copy mpi_init B)) (\<lambda>Y.
     let X = X\<lparr>mpi_s := 1\<rparr>; Y = Y\<lparr>mpi_s := 1\<rparr> in
     crun_bind (Some (mpi_grow mpi_init (length (mpi_p A) + 2))) (\<lambda>Z.
     crun_bind (Some (mpi_lset Z 0)) (\<lambda>Z.
     crun_bind (Some (mpi_grow mpi_init 2)) (\<lambda>T1.
     crun_bind (Some (mpi_grow mpi_init 3)) (\<lambda>T2.
     let k = mpi_bitlen Y mod 64; k = (if k < 63 then 63 - k else 0) in
     crun_bind (Some (if k > 0 then mpi_shift_l X k else ok X)) (\<lambda>X.
     crun_bind (Some (if k > 0 then mpi_shift_l Y k else ok Y)) (\<lambda>Y.
     let n = length (mpi_p X) - 1; t = length (mpi_p Y) - 1 in
     crun_bind (Some (mpi_shift_l Y (64 * (n - t)))) (\<lambda>Y.
     crun_bind (top_loop Y (mpi_p Z ! (n - t)) X) (\<lambda>(z, X).
     crun_bind (Some (limbs_shift_r Y (64 * (n - t)))) (\<lambda>Y.
     crun_bind (div_loop Y t (n - t) X ((mpi_p Z)[n - t := z]) T1 T2) (\<lambda>(X, q).
     done_with (Z\<lparr>mpi_p := q\<rparr>, k, X)))))))))))))"

text \<open>
  \<open>None\<close> is a null pointer for the quotient or the remainder.  With \<open>q_is_a\<close> the quotient is stored in the
  dividend, whose sign and value are then read again.
\<close>

definition mpi_div_mpi :: "bool \<Rightarrow> mpi option \<Rightarrow> mpi option \<Rightarrow> mpi \<Rightarrow> mpi \<Rightarrow> (mpi option \<times> mpi option) crun" where
  "mpi_div_mpi q_is_a Q R A B =
     (if mpi_cmp_int B 0 = 0 then Some (fail ERR_MPI_DIVISION_BY_ZERO)
      else if mpi_cmp_abs A B < 0 then
        crun_bind (Some (case Q of None \<Rightarrow> ok None | Some Q \<Rightarrow> chk_bind (mpi_lset Q 0) (\<lambda>Q. ok (Some Q)))) (\<lambda>Q.
        let A = (case Q of Some q \<Rightarrow> if q_is_a then q else A | None \<Rightarrow> A) in
        crun_bind (Some (case R of None \<Rightarrow> ok None | Some R \<Rightarrow> chk_bind (mpi_copy R A) (\<lambda>R. ok (Some R)))) (\<lambda>R.
        done_with (Q, R)))
      else
        crun_bind (div_limbs A B) (\<lambda>(Z, k, X).
        crun_bind (Some (case Q of None \<Rightarrow> ok None | Some Q \<Rightarrow> chk_bind (mpi_copy Q Z) (\<lambda>Q.
          let s = (if q_is_a then mpi_s Q else mpi_s A) in ok (Some (Q\<lparr>mpi_s := s * mpi_s B\<rparr>))))) (\<lambda>Q.
        let s = (case Q of Some q \<Rightarrow> if q_is_a then mpi_s q else mpi_s A | None \<Rightarrow> mpi_s A) in
        crun_bind (Some (case R of None \<Rightarrow> ok None | Some R \<Rightarrow>
          chk_bind (limbs_shift_r X k) (\<lambda>X.
          chk_bind (mpi_copy R (X\<lparr>mpi_s := s\<rparr>)) (\<lambda>R.
          ok (Some (if mpi_cmp_int R 0 = 0 then R\<lparr>mpi_s := 1\<rparr> else R)))))) (\<lambda>R.
        done_with (Q, R)))))"

definition mpi_div_int :: "bool \<Rightarrow> mpi option \<Rightarrow> mpi option \<Rightarrow> mpi \<Rightarrow> int \<Rightarrow> (mpi option \<times> mpi option) crun" where
  "mpi_div_int q_is_a Q R A b = mpi_div_mpi q_is_a Q R A (mpi_of_int b)"

partial_function (option) mod_up :: "mpi \<Rightarrow> mpi \<Rightarrow> mpi crun" where
  "mod_up B R =
     (if mpi_cmp_int R 0 < 0 then
        (case mpi_add_mpi X_is_A R R B of
           Inl e \<Rightarrow> Some (Inl e)
         | Inr r \<Rightarrow> (case r of Inl c \<Rightarrow> Some (fail c) | Inr R \<Rightarrow> mod_up B R))
      else done_with R)"

partial_function (option) mod_down :: "mpi \<Rightarrow> mpi \<Rightarrow> mpi crun" where
  "mod_down B R =
     (if mpi_cmp_mpi R B \<ge> 0 then
        (case mpi_sub_mpi X_is_A R R B of
           Inl e \<Rightarrow> Some (Inl e)
         | Inr r \<Rightarrow> (case r of Inl c \<Rightarrow> Some (fail c) | Inr R \<Rightarrow> mod_down B R))
      else done_with R)"

text \<open>\<open>R\<close> is not \<open>B\<close>.\<close>

definition mpi_mod_mpi :: "mpi \<Rightarrow> mpi \<Rightarrow> mpi \<Rightarrow> mpi crun" where
  "mpi_mod_mpi R A B =
     (if mpi_cmp_int B 0 < 0 then Some (fail ERR_MPI_NEGATIVE_VALUE)
      else
        crun_bind (mpi_div_mpi False None (Some R) A B) (\<lambda>(_, R).
        crun_bind (mod_up B (the R)) (mod_down B)))"

text \<open>\<open>mbedtls_mpi_mod_int\<close> for a positive \<open>mbedtls_mpi_sint\<close>: half a limb at a time.\<close>

fun mod_int_loop :: "u64 \<Rightarrow> limbs \<Rightarrow> u64 \<Rightarrow> u64" where
  "mod_int_loop b [] y = y"
| "mod_int_loop b (x # xs) y =
     (let y = push_bit 32 y OR drop_bit 32 x; z = y div b; y = y - z * b;
          x = push_bit 32 x; y = push_bit 32 y OR drop_bit 32 x; z = y div b; y = y - z * b
      in mod_int_loop b xs y)"

definition mpi_mod_int :: "mpi \<Rightarrow> int \<Rightarrow> u64 chk" where
  "mpi_mod_int A b =
     (if b = 0 then fail ERR_MPI_DIVISION_BY_ZERO
      else if b < 0 then fail ERR_MPI_NEGATIVE_VALUE
      else if b = 1 then ok 0
      else if b = 2 then (if mpi_p A = [] then Inl UB else ok (mpi_p A ! 0 AND 1))
      else let y = mod_int_loop (word_of_int b) (rev (mpi_p A)) 0 in
        ok (if mpi_s A < 0 \<and> y \<noteq> 0 then word_of_int b - y else y))"


section \<open>Dividing a double limb, by value\<close>

lemma double_limb_val:
  "unat (push_bit 64 (ucast u1 :: 128 word) OR ucast u0) = 2 ^ 64 * unat u1 + unat u0" for u1 u0 :: u64
proof -
  let ?a = "push_bit 64 (ucast u1 :: 128 word)" and ?b = "ucast u0 :: 128 word"
  have a: "unat ?a = 2 ^ 64 * unat u1"
    using limb_bound [of u1] by (simp only: unsigned_push_bit_eq) (simp add: push_bit_eq_mult take_bit_eq_mod unsigned_ucast_eq)
  have b: "unat ?b = unat u0" using limb_bound [of u0] by (simp add: unsigned_ucast_eq take_bit_eq_mod)
  have "?a AND ?b = 0"
  proof (rule bit_word_eqI)
    fix k
    show "bit (?a AND ?b) k \<longleftrightarrow> bit (0 :: 128 word) k"
      by (auto simp: bit_and_iff bit_push_bit_iff bit_ucast_iff dest: bit_imp_le_length)
  qed
  then have "?a OR ?b = ?a + ?b" by (simp add: disjunctive_add_eq_or)
  moreover have "unat ?a + unat ?b < 2 ^ 128" using limb_bound [of u1] limb_bound [of u0] unfolding a b by simp
  ultimately show ?thesis unfolding a [symmetric] b [symmetric] by (simp add: unat_word_ariths(1))
qed

lemma int_div_int_val:
  assumes "u1 < d"
  shows "unat (fst (int_div_int u1 u0 d)) = (2 ^ 64 * unat u1 + unat u0) div unat d"
proof -
  let ?n = "2 ^ 64 * unat u1 + unat u0"
  have d: "unat u1 < unat d" using assms by (simp add: word_less_nat_alt)
  let ?q = "(push_bit 64 (ucast u1 :: 128 word) OR ucast u0) div ucast d"
  have "unat (ucast d :: 128 word) = unat d" using limb_bound [of d] by (simp add: unsigned_ucast_eq take_bit_eq_mod)
  then have q: "unat ?q = ?n div unat d" by (simp add: unat_div double_limb_val)
  have "?n < unat d * 2 ^ 64"
  proof -
    have "?n < 2 ^ 64 * (unat u1 + 1)" using limb_bound [of u0] by (simp add: distrib_left)
    also have "\<dots> \<le> 2 ^ 64 * unat d" using d by (intro mult_le_mono2) simp
    finally show ?thesis by (simp add: mult.commute)
  qed
  then have lt: "?n div unat d < 2 ^ 64" by (simp add: less_mult_imp_div_less mult.commute)
  have "\<not> ?q > push_bit 64 1 - 1" using lt by (simp add: word_less_nat_alt q not_less)
  moreover have "\<not> (0 = d \<or> u1 \<ge> d)" using assms d by (auto simp: not_le)
  ultimately have "fst (int_div_int u1 u0 d) = ucast ?q" by (simp add: int_div_int_def Let_def)
  then show ?thesis using lt q by (simp add: unsigned_ucast_eq take_bit_eq_mod)
qed

section \<open>The loops, by value\<close>

definition positive :: "mpi \<Rightarrow> bool" where
  "positive X \<longleftrightarrow> mpi_s X = 1 \<and> length (mpi_p X) < MPI_MAX_LIMBS"

lemma positive_fits: "positive X \<Longrightarrow> fits X" and positive_wf: "positive X \<Longrightarrow> mpi_wf X"
  and positive_val: "positive X \<Longrightarrow> mpi_val X = int (limbs_val (mpi_p X))"
  by (simp_all add: positive_def fits_def mpi_wf_def mpi_val_def)

lemma sub_in_place:
  assumes "positive X" "positive Y" "limbs_val (mpi_p Y) \<le> limbs_val (mpi_p X)"
  shows "\<exists>Z. mpi_sub_mpi X_is_A X X Y = ok Z \<and> mpi_s Z = 1 \<and> limbs_val (mpi_p Z) = limbs_val (mpi_p X) - limbs_val (mpi_p Y)
    \<and> length (mpi_p Z) = length (mpi_p X)"
proof -
  have "mpi_cmp_abs X Y \<ge> 0" using assms(3) by (simp add: mpi_cmp_abs_val sgn_if)
  then show ?thesis
    using mpi_sub_abs_ok [of X X Y X_is_A] assms by (auto simp: mpi_sub_mpi_def Let_def positive_def)
qed

lemma top_loop_ok:
  assumes "positive Y" "0 < limbs_val (mpi_p Y)"
  shows "positive X \<Longrightarrow> \<exists>Z. top_loop Y z X = done_with (z + word_of_nat (limbs_val (mpi_p X) div limbs_val (mpi_p Y)), Z)
    \<and> mpi_s Z = 1 \<and> limbs_val (mpi_p Z) = limbs_val (mpi_p X) mod limbs_val (mpi_p Y) \<and> length (mpi_p Z) = length (mpi_p X)"
proof (induction "limbs_val (mpi_p X)" arbitrary: X z rule: less_induct)
  case less
  let ?x = "limbs_val (mpi_p X)" and ?y = "limbs_val (mpi_p Y)"
  have c: "mpi_cmp_mpi X Y \<ge> 0 \<longleftrightarrow> ?y \<le> ?x"
    using mpi_cmp_mpi_val [of X Y] less.prems assms(1) by (simp add: positive_wf positive_val sgn_if)
  show ?case
  proof (cases "?y \<le> ?x")
    case False
    then show ?thesis using c less.prems by (simp add: top_loop.simps positive_def)
  next
    case True
    obtain X' where X': "mpi_sub_mpi X_is_A X X Y = ok X'" "mpi_s X' = 1" "limbs_val (mpi_p X') = ?x - ?y"
        "length (mpi_p X') = length (mpi_p X)"
      using sub_in_place [OF less.prems assms(1) True] by blast
    have "positive X'" using X' less.prems by (simp add: positive_def)
    then obtain Z where Z: "top_loop Y (z + 1) X' = done_with (z + 1 + word_of_nat ((?x - ?y) div ?y), Z)"
        "mpi_s Z = 1" "limbs_val (mpi_p Z) = (?x - ?y) mod ?y" "length (mpi_p Z) = length (mpi_p X)"
      using less.hyps [of X' "z + 1"] X' assms(2) True by auto
    have "?x div ?y = Suc ((?x - ?y) div ?y)" using True assms(2) by (simp add: le_div_geq)
    moreover have "?x mod ?y = (?x - ?y) mod ?y" using True by (simp add: le_mod_geq)
    moreover have "top_loop Y z X = top_loop Y (z + 1) X'" using True c X'(1) by (subst top_loop.simps) simp
    ultimately show ?thesis using Z by (simp add: add.assoc)
  qed
qed


text \<open>The two top limbs of the divisor and the three of the remainder that a digit is estimated from.\<close>

definition top2 :: "limbs \<Rightarrow> nat \<Rightarrow> nat" where
  "top2 Y t = (if t < 1 then 0 else unat (Y ! (t - 1))) + 2 ^ 64 * unat (Y ! t)"

definition top3 :: "limbs \<Rightarrow> nat \<Rightarrow> nat" where
  "top3 X i = (if i < 2 then 0 else unat (X ! (i - 2))) + 2 ^ 64 * ((if i < 1 then 0 else unat (X ! (i - 1))) + 2 ^ 64 * unat (X ! i))"

lemma two_limbs: "2 \<le> n \<Longrightarrow> limbs_val ((x # replicate (n - 1) 0)[0 := a, 1 := b]) = unat a + 2 ^ 64 * unat b"
  by (cases n; cases "n - 1") (auto simp: numeral_2_eq_2)

lemma three_limbs:
  "3 \<le> n \<Longrightarrow> limbs_val ((x # replicate (n - 1) 0)[0 := a, 1 := b, 2 := c]) = unat a + 2 ^ 64 * (unat b + 2 ^ 64 * unat c)"
  by (cases n; cases "n - 1"; cases "n - 2") (auto simp: numeral_2_eq_2)

lemma top2_bound: "top2 Y t < 2 ^ (64 * 2)"
  using limb_bound [of "Y ! t"] limb_bound [of "Y ! (t - 1)"] by (cases t) (simp_all add: top2_def)

lemma digit_t1_ok:
  assumes "2 \<le> length (mpi_p T1)"
  shows "\<exists>T. digit_t1 Y t q T1 = ok T \<and> mpi_val T = int (top2 Y t * unat q) \<and> mpi_wf T
    \<and> 2 \<le> length (mpi_p T) \<and> length (mpi_p T) \<le> max 3 (length (mpi_p T1))"
proof -
  define p where "p = (word_of_int \<bar>0\<bar> # replicate (length (mpi_p T1) - 1) 0)[0 := if t < 1 then 0 else Y ! (t - 1), 1 := Y ! t]"
  have v: "limbs_val p = top2 Y t" unfolding p_def using two_limbs [OF assms] by (simp add: top2_def)
  have l: "length p = length (mpi_p T1)" using assms(1) by (simp add: p_def)
  let ?T = "\<lparr>mpi_s = 1, mpi_p = p\<rparr>"
  have u: "used_limbs p (length p) \<le> 2" by (rule used_limbs_bound) (simp only: v top2_bound)
  have "digit_t1 Y t q T1 = mpi_mul_int ?T ?T q" by (simp add: digit_t1_def Let_def mpi_lset_ok p_def)
  moreover obtain Z where "mpi_mul_int ?T ?T q = ok Z" "mpi_val Z = mpi_val ?T * int (unat q)" "mpi_wf Z" "length p \<le> length (mpi_p Z)"
     "length (mpi_p Z) \<le> max 1 (max (length p) (Suc (used_limbs p (length p))))"
    using mpi_mul_int_ok [of ?T ?T q] u by (auto simp: mpi_wf_def MPI_MAX_LIMBS_def)
  ultimately show ?thesis using l v u assms by (auto simp: mpi_val_def)
qed

lemma digit_t2_ok:
  assumes "3 \<le> length (mpi_p T2)"
  shows "\<exists>T. digit_t2 X i T2 = ok T \<and> mpi_val T = int (top3 X i) \<and> mpi_wf T \<and> length (mpi_p T) = length (mpi_p T2)"
  using three_limbs [OF assms] assms by (auto simp: digit_t2_def mpi_lset_ok mpi_val_def mpi_wf_def top3_def)

lemma unat_pred: "w \<noteq> 0 \<Longrightarrow> unat (w - 1) = unat w - 1" for w :: u64
  using unat_minus_one [of w] by simp

lemma digit_loop_ok:
  "3 \<le> length (mpi_p T2) \<Longrightarrow> 2 \<le> length (mpi_p T1) \<Longrightarrow>
   \<exists>q T1' T2'. digit_loop Y t X i (w + 1) T1 T2 = done_with (q, T1', T2')
    \<and> unat q \<le> unat w \<and> unat q * top2 Y t \<le> top3 X i
    \<and> (\<forall>k. k \<le> unat w \<longrightarrow> k * top2 Y t \<le> top3 X i \<longrightarrow> k \<le> unat q)
    \<and> 2 \<le> length (mpi_p T1') \<and> length (mpi_p T1') \<le> max 3 (length (mpi_p T1)) \<and> length (mpi_p T2') = length (mpi_p T2)"
proof (induction "unat w" arbitrary: w T1 T2 rule: less_induct)
  case less
  obtain A where A: "digit_t1 Y t w T1 = ok A" "mpi_val A = int (top2 Y t * unat w)" "mpi_wf A" "2 \<le> length (mpi_p A)"
      "length (mpi_p A) \<le> max 3 (length (mpi_p T1))"
    using digit_t1_ok [OF less.prems(2)] by blast
  obtain B where B: "digit_t2 X i T2 = ok B" "mpi_val B = int (top3 X i)" "mpi_wf B" "length (mpi_p B) = length (mpi_p T2)"
    using digit_t2_ok [OF less.prems(1)] by blast
  have c: "mpi_cmp_mpi A B > 0 \<longleftrightarrow> top3 X i < unat w * top2 Y t"
    using mpi_cmp_mpi_val [OF A(3) B(3)] A(2) B(2) by (simp add: sgn_if mult.commute flip: of_nat_mult)
  show ?case
  proof (cases "top3 X i < unat w * top2 Y t")
    case False
    then have "digit_loop Y t X i (w + 1) T1 T2 = done_with (w, A, B)"
      using A(1) B(1) c by (subst digit_loop.simps) simp
    then show ?thesis using False A(4,5) B(4) by simp
  next
    case True
    then have nz: "w \<noteq> 0" by (intro notI) simp
    note w = unat_pred [OF nz]
    have "unat w \<noteq> 0" using nz by (simp add: unat_eq_0)
    then have lt: "unat (w - 1) < unat w" using w by simp
    obtain q T1' T2' where q: "digit_loop Y t X i (w - 1 + 1) A B = done_with (q, T1', T2')" "unat q \<le> unat (w - 1)"
        "unat q * top2 Y t \<le> top3 X i" "\<forall>k. k \<le> unat (w - 1) \<longrightarrow> k * top2 Y t \<le> top3 X i \<longrightarrow> k \<le> unat q"
        "2 \<le> length (mpi_p T1')" "length (mpi_p T1') \<le> max 3 (length (mpi_p A))" "length (mpi_p T2') = length (mpi_p B)"
      using less.hyps [OF lt, of B A] A(4) B(4) less.prems(1) by metis
    have "digit_loop Y t X i (w + 1) T1 T2 = digit_loop Y t X i (w - 1 + 1) A B"
      using A(1) B(1) c True by (subst digit_loop.simps) simp
    moreover have "k \<le> unat q" if "k \<le> unat w" "k * top2 Y t \<le> top3 X i" for k
    proof -
      have "k \<noteq> unat w" using that(2) True by auto
      then show ?thesis using that q(4) w by auto
    qed
    moreover have "length (mpi_p T1') \<le> max 3 (length (mpi_p T1))" using q(6) A(5) by simp
    moreover have "unat q \<le> unat w" using q(2) lt by linarith
    ultimately show ?thesis using q(1,3,5,7) B(4) by metis
  qed
qed

section \<open>One digit\<close>

lemma bitlen_bound: "limbs_val (mpi_p X) < 2 ^ k \<Longrightarrow> mpi_bitlen X \<le> k"
proof (cases "limbs_val (mpi_p X) = 0")
  case True
  then show ?thesis using mpi_bitlen_val [of X] by simp
next
  case False
  assume "limbs_val (mpi_p X) < 2 ^ k"
  moreover have "2 ^ (mpi_bitlen X - 1) \<le> limbs_val (mpi_p X)" using mpi_bitlen_val [of X] False by simp
  ultimately have "2 ^ (mpi_bitlen X - 1) < (2 :: nat) ^ k" by (rule le_less_trans [rotated])
  then have "mpi_bitlen X - 1 < k" by (rule power_less_imp_less_exp [rotated]) simp
  then show ?thesis by simp
qed

lemma mpi_mul_int_sign: "mpi_mul_int X A b = ok Z \<Longrightarrow> mpi_s Z = mpi_s A"
  by (auto simp: mpi_mul_int_def mpi_mul_mpi_def Let_def chk_bind_def split: sum.splits)

lemma mpi_sub_zero:
  assumes "limbs_val (mpi_p B) = 0" "length (mpi_p A) \<le> MPI_MAX_LIMBS"
  shows "mpi_add_abs X_is_A A A B = ok (A\<lparr>mpi_s := 1\<rparr>)"
proof -
  have "used_limbs (mpi_p B) (length (mpi_p B)) = 0" using assms(1) by (simp add: used_limbs_0)
  then show ?thesis using assms(2) by (simp add: mpi_add_abs_def Let_def mpi_grow_ok carry_loop.simps)
qed

text \<open>Subtracting from the remainder in place; it is positive, or a zero from which a zero is taken.\<close>

lemma sub_from_remainder:
  assumes "mpi_wf X" "mpi_s T = 1" "mpi_s X = 1 \<or> limbs_val (mpi_p T) = 0"
    and "length (mpi_p X) < MPI_MAX_LIMBS" "length (mpi_p T) < MPI_MAX_LIMBS" "mpi_p T \<noteq> []"
  shows "\<exists>Z. mpi_sub_mpi X_is_A X X T = ok Z \<and> mpi_val Z = mpi_val X - mpi_val T \<and> mpi_wf Z
    \<and> length (mpi_p X) \<le> length (mpi_p Z) \<and> length (mpi_p Z) \<le> max (length (mpi_p X)) (length (mpi_p T))
    \<and> (mpi_val T \<le> mpi_val X \<longrightarrow> mpi_s X = 1 \<longrightarrow> mpi_s Z = 1)"
proof (cases "mpi_s X = 1")
  case False
  then have "mpi_s X = - 1" "limbs_val (mpi_p T) = 0" using assms(1,3) by (auto simp: mpi_wf_def)
  then show ?thesis
    using mpi_sub_zero [of T X] assms(2,4) by (simp add: mpi_sub_mpi_def Let_def mpi_val_def mpi_wf_def)
next
  case True
  show ?thesis
  proof (cases "limbs_val (mpi_p T) \<le> limbs_val (mpi_p X)")
    case le: True
    then have "mpi_cmp_abs X T \<ge> 0" by (simp add: mpi_cmp_abs_val sgn_if)
    then show ?thesis
      using mpi_sub_abs_ok [OF assms(4,4,5) le, of X_is_A] True assms(2) le
      by (auto simp: mpi_sub_mpi_def Let_def mpi_val_def mpi_wf_def of_nat_diff)
  next
    case lt: False
    then have le: "limbs_val (mpi_p X) \<le> limbs_val (mpi_p T)" by simp
    have "\<not> mpi_cmp_abs X T \<ge> 0" using lt by (simp add: mpi_cmp_abs_val sgn_if)
    then show ?thesis
      using mpi_sub_abs_ok [OF assms(4,5,4) le, of X_is_B] True assms(2,6) le lt
      by (auto simp: mpi_sub_mpi_def Let_def mpi_val_def mpi_wf_def of_nat_diff)
  qed
qed

lemma add_to_remainder:
  assumes "mpi_s X = - 1" "mpi_s T = 1"
    and "length (mpi_p X) < MPI_MAX_LIMBS" "length (mpi_p T) < MPI_MAX_LIMBS" "mpi_p T \<noteq> []"
  shows "\<exists>Z. mpi_add_mpi X_is_A X X T = ok Z \<and> mpi_val Z = mpi_val X + mpi_val T \<and> mpi_wf Z
    \<and> length (mpi_p X) \<le> length (mpi_p Z) \<and> length (mpi_p Z) \<le> max (length (mpi_p X)) (length (mpi_p T))
    \<and> (0 < mpi_val Z \<longrightarrow> mpi_s Z = 1)"
proof (cases "limbs_val (mpi_p T) \<le> limbs_val (mpi_p X)")
  case le: True
  then have "mpi_cmp_abs X T \<ge> 0" by (simp add: mpi_cmp_abs_val sgn_if)
  then show ?thesis
    using mpi_sub_abs_ok [OF assms(3,3,4) le, of X_is_A] assms(1,2) le
    by (auto simp: mpi_add_mpi_def Let_def mpi_val_def mpi_wf_def of_nat_diff)
next
  case lt: False
  then have le: "limbs_val (mpi_p X) \<le> limbs_val (mpi_p T)" by simp
  have "\<not> mpi_cmp_abs X T \<ge> 0" using lt by (simp add: mpi_cmp_abs_val sgn_if)
  then show ?thesis
    using mpi_sub_abs_ok [OF assms(3,4,3) le, of X_is_B] assms(1,2,5) le
    by (auto simp: mpi_add_mpi_def Let_def mpi_val_def mpi_wf_def of_nat_diff)
qed

lemma shifted_ok:
  assumes "mpi_s T = 1" "limbs_val (mpi_p T) < 2 ^ (64 * k)" "k + s \<le> L" "L \<le> MPI_MAX_LIMBS" "length (mpi_p T) \<le> L" "2 \<le> length (mpi_p T)"
  shows "\<exists>Z. mpi_shift_l T (64 * s) = ok Z \<and> mpi_s Z = 1 \<and> limbs_val (mpi_p Z) = 2 ^ (64 * s) * limbs_val (mpi_p T)
    \<and> length (mpi_p Z) \<le> L \<and> 2 \<le> length (mpi_p Z)"
proof -
  have b: "mpi_bitlen T + 64 * s \<le> 64 * L" using bitlen_bound [OF assms(2)] assms(3) by linarith
  then have "mpi_bitlen T + 64 * s \<le> 64 * MPI_MAX_LIMBS" using assms(4) by linarith
  then show ?thesis using mpi_shift_l_ok [of T "64 * s"] assms(1,5,6) b by fastforce
qed

lemma take_digit_ok:
  fixes x :: nat
  assumes Y: "mpi_s Y = 1" "limbs_val (mpi_p Y) < 2 ^ (64 * Suc t)" "0 < limbs_val (mpi_p Y)" "length (mpi_p Y) \<le> L"
    and X: "mpi_wf X" "mpi_val X = int x" "mpi_s X = 1 \<or> x = 0" "length (mpi_p X) \<le> L"
    and T: "2 \<le> length (mpi_p T1)" "length (mpi_p T1) \<le> L"
    and L: "t + 2 + s \<le> L" "L < MPI_MAX_LIMBS"
    and z: "x div (2 ^ (64 * s) * limbs_val (mpi_p Y)) \<le> unat z" "unat z \<le> Suc (x div (2 ^ (64 * s) * limbs_val (mpi_p Y)))"
      "x = 0 \<Longrightarrow> z = 0"
  shows "\<exists>X' T1'. take_digit Y s z X T1 = ok (word_of_nat (x div (2 ^ (64 * s) * limbs_val (mpi_p Y))), X', T1')
    \<and> mpi_wf X' \<and> mpi_val X' = int (x mod (2 ^ (64 * s) * limbs_val (mpi_p Y)))
    \<and> (mpi_s X' = 1 \<or> x mod (2 ^ (64 * s) * limbs_val (mpi_p Y)) = 0)
    \<and> length (mpi_p X) \<le> length (mpi_p X') \<and> length (mpi_p X') \<le> L \<and> 2 \<le> length (mpi_p T1') \<and> length (mpi_p T1') \<le> L"
proof -
  let ?y = "limbs_val (mpi_p Y)"
  define D q where "D = 2 ^ (64 * s) * ?y" and "q = x div D"
  have D: "0 < D" using Y(3) by (simp add: D_def)
  have u: "used_limbs (mpi_p Y) (length (mpi_p Y)) \<le> Suc t" by (rule used_limbs_bound) (rule Y(2))
  obtain A where A: "mpi_mul_int T1 Y z = ok A" "mpi_val A = mpi_val Y * int (unat z)" "mpi_wf A"
      "length (mpi_p T1) \<le> length (mpi_p A)" "length (mpi_p A) \<le> max 1 (max (length (mpi_p T1)) (Suc (Suc t)))"
    using mpi_mul_int_ok [of Y T1 z] Y(1) u L by (fastforce simp: mpi_wf_def)
  have As: "mpi_s A = 1" using mpi_mul_int_sign [OF A(1)] Y(1) by simp
  then have "int (limbs_val (mpi_p A)) = int (?y * unat z)" using A(2) Y(1) by (simp add: mpi_val_def)
  then have Av: "limbs_val (mpi_p A) = ?y * unat z" by (simp only: of_nat_eq_iff)
  have "?y * unat z < 2 ^ (64 * Suc t) * 2 ^ 64" using Y(2) limb_bound [of z] by (intro mult_strict_mono) simp_all
  then have Ab: "limbs_val (mpi_p A) < 2 ^ (64 * (t + 2))" unfolding Av by (simp add: power_add)
  have Al: "length (mpi_p A) \<le> L" "2 \<le> length (mpi_p A)" using A(4,5) T L by auto
  obtain B where B: "mpi_shift_l A (64 * s) = ok B" "mpi_s B = 1" "limbs_val (mpi_p B) = D * unat z" "length (mpi_p B) \<le> L" "2 \<le> length (mpi_p B)"
    using shifted_ok [OF As Ab L(1) _ Al] L(2) Av by (auto simp: D_def mult.assoc)
  have Bv: "mpi_val B = int (D * unat z)" using B(2,3) by (simp add: mpi_val_def)
  have ne: "mpi_p B \<noteq> []" using B(5) by auto
  have "mpi_s X = 1 \<or> limbs_val (mpi_p B) = 0" using X(3) z(3) B(3) by auto
  then obtain X1 where X1: "mpi_sub_mpi X_is_A X X B = ok X1" "mpi_val X1 = int x - int (D * unat z)" "mpi_wf X1"
      "length (mpi_p X) \<le> length (mpi_p X1)" "length (mpi_p X1) \<le> L" "D * unat z \<le> x \<Longrightarrow> mpi_s X = 1 \<Longrightarrow> mpi_s X1 = 1"
    using sub_from_remainder [OF X(1) B(2) _ _ _ ne] X(2,4) B(4) L(2) Bv by fastforce
  have xq: "x = D * q + x mod D" by (simp add: q_def)
  then have xi: "int x = int (D * q) + int (x mod D)" by (metis of_nat_add)
  show ?thesis
  proof (cases "unat z = q")
    case True
    have le: "D * unat z \<le> x" using xq True by simp
    have "mpi_val X1 = int (x mod D)" using X1(2) xi unfolding True by linarith
    moreover have "\<not> mpi_cmp_int X1 0 < 0" using mpi_cmp_int_val [OF X1(3), of 0] calculation by simp
    moreover have "z = word_of_nat q" unfolding True [symmetric] by simp
    moreover have "mpi_s X1 = 1 \<or> x mod D = 0" using X1(6) [OF le] X(3) by auto
    ultimately show ?thesis
      using A(1) B(1,4,5) X1(1,3,4,5) unfolding D_def [symmetric] q_def [symmetric] by (simp add: take_digit_def)
  next
    case False
    then have zq: "unat z = Suc q" using z(1,2) unfolding D_def [symmetric] q_def [symmetric] by simp
    have "int (D * Suc q) = int (D * q) + int D" by simp
    then have v1: "mpi_val X1 = int (x mod D) - int D" using X1(2) xi unfolding zq by linarith
    have neg: "mpi_val X1 < 0" using v1 D by simp
    then have s1: "mpi_s X1 = - 1" using X1(3) by (auto simp: mpi_val_def mpi_wf_def)
    have "mpi_cmp_int X1 0 < 0" using mpi_cmp_int_val [OF X1(3), of 0] neg by simp
    moreover obtain E where E: "mpi_copy B Y = ok E" "limbs_val (mpi_p E) = ?y" "mpi_s E = 1" "length (mpi_p E) \<le> L" "2 \<le> length (mpi_p E)"
      using mpi_copy_ok [of Y B] Y L(2) B(4,5) by fastforce
    moreover obtain F where F: "mpi_shift_l E (64 * s) = ok F" "mpi_s F = 1" "limbs_val (mpi_p F) = D" "length (mpi_p F) \<le> L" "2 \<le> length (mpi_p F)"
      using shifted_ok [OF E(3), of "Suc t" s L] E(2,4,5) Y(2) L by (auto simp: D_def)
    have nf: "mpi_p F \<noteq> []" using F(5) by auto
    have Fv: "mpi_val F = int D" using F(2,3) by (simp add: mpi_val_def)
    obtain X2 where X2: "mpi_add_mpi X_is_A X1 X1 F = ok X2" "mpi_val X2 = int (x mod D)" "mpi_wf X2"
       "length (mpi_p X1) \<le> length (mpi_p X2)" "length (mpi_p X2) \<le> L" "0 < mpi_val X2 \<Longrightarrow> mpi_s X2 = 1"
      using add_to_remainder [OF s1 F(2) _ _ nf] X1(5) F(4) L(2) Fv v1 by fastforce
    moreover have "z - 1 = word_of_nat q"
    proof -
      have "z \<noteq> 0" using zq by auto
      then have zq1: "unat (z - 1) = q" using zq by (simp add: unat_pred)
      show ?thesis unfolding zq1 [symmetric] by simp
    qed
    moreover have "mpi_s X2 = 1 \<or> x mod D = 0" using X2(2,6) by fastforce
    ultimately show ?thesis
      using A(1) B(1) X1(1,4) F(1,4,5) unfolding D_def [symmetric] q_def [symmetric] by (simp add: take_digit_def)
  qed
qed

section \<open>The estimate of a digit\<close>

lemma limb_at: "i < length p \<Longrightarrow> limbs_val (drop i p) = unat (p ! i) + 2 ^ 64 * limbs_val (drop (Suc i) p)"
  by (simp add: Cons_nth_drop_Suc [symmetric])

lemma no_limbs_above: "limbs_val p < 2 ^ (64 * n) \<Longrightarrow> n \<le> length p \<Longrightarrow> limbs_val (drop n p) = 0"
  by (simp add: limbs_val_drop)

lemma top_limb_val:
  assumes "i < length p" "limbs_val p < 2 ^ (64 * Suc i)"
  shows "unat (p ! i) = limbs_val p div 2 ^ (64 * i)"
  using limb_at [OF assms(1)] no_limbs_above [OF assms(2)] assms(1) by (simp add: limbs_val_drop)

lemma two_limbs_val:
  assumes "Suc i < length p" "limbs_val p < 2 ^ (64 * Suc (Suc i))"
  shows "unat (p ! i) + 2 ^ 64 * unat (p ! Suc i) = limbs_val p div 2 ^ (64 * i)"
  using limb_at [of i p] limb_at [OF assms(1)] no_limbs_above [OF assms(2)] assms(1) by (simp add: limbs_val_drop)

lemma top2_val:
  assumes "t < length p" "limbs_val p < 2 ^ (64 * Suc t)"
  shows "top2 p t = 2 ^ 64 * limbs_val p div 2 ^ (64 * t)"
proof (cases t)
  case 0
  then show ?thesis using top_limb_val [OF assms] by (simp add: top2_def)
next
  case (Suc n)
  have "2 ^ 64 * limbs_val p div 2 ^ (64 * t) = limbs_val p div 2 ^ (64 * n)" by (simp add: Suc power_add)
  then show ?thesis using two_limbs_val [of n p] assms by (simp add: top2_def Suc)
qed

lemma top3_val:
  assumes "i < length p" "limbs_val p < 2 ^ (64 * Suc i)" "0 < i"
  shows "top3 p i = 2 ^ 64 * (2 ^ 64 * limbs_val p) div 2 ^ (64 * i)"
proof (cases "i = 1")
  case True
  then show ?thesis using two_limbs_val [of 0 p] assms by (simp add: top3_def)
next
  case False
  define n where "n = i - 2"
  have i: "i = Suc (Suc n)" using False assms(3) by (simp add: n_def)
  have "2 ^ 64 * (2 ^ 64 * limbs_val p) div 2 ^ (64 * i) = limbs_val p div 2 ^ (64 * n)"
    by (simp add: i power_add)
  moreover have "limbs_val (drop n p) = unat (p ! n) + 2 ^ 64 * (unat (p ! Suc n) + 2 ^ 64 * unat (p ! Suc (Suc n)))"
    using limb_at [of n p] limb_at [of "Suc n" p] limb_at [of "Suc (Suc n)" p] no_limbs_above [OF assms(2)] assms(1)
    by (simp add: i)
  ultimately show ?thesis using assms(1) by (simp add: top3_def i limbs_val_drop)
qed

text \<open>In numbers: \<open>b\<close> is the base, \<open>y\<close> the divisor with \<open>t + 1\<close> digits, \<open>y * p\<close> what the digit counts.\<close>

lemma digit_fits:
  fixes b x y p t :: nat
  assumes "0 < b"
  shows "x div (p * y) * (b * y div b ^ t) \<le> b * (b * x) div (b ^ t * p * b)"
proof (cases "p = 0")
  case False
  define q w where "q = x div (p * y)" and "w = b * y div b ^ t"
  have q: "q * (p * y) \<le> x" unfolding q_def by simp
  have w: "w * b ^ t \<le> b * y" unfolding w_def by simp
  have "q * w * (b ^ t * p * b) = q * p * b * (w * b ^ t)" by (simp add: algebra_simps)
  also have "\<dots> \<le> q * p * b * (b * y)" using w by (rule mult_le_mono2)
  also have "\<dots> = b * b * (q * (p * y))" by (simp add: algebra_simps)
  also have "\<dots> \<le> b * b * x" using q by (rule mult_le_mono2)
  also have "\<dots> = b * (b * x)" by (rule mult.assoc)
  finally show ?thesis
    using assms False unfolding q_def [symmetric] w_def [symmetric] by (simp add: less_eq_div_iff_mult_less_eq)
qed simp

lemma digit_close:
  fixes b x y p t k :: nat
  assumes "k * (b * y div b ^ t) \<le> b * (b * x) div (b ^ t * p * b)" "k < b" "b ^ t \<le> y" "0 < p"
  shows "k \<le> Suc (x div (p * y))"
proof -
  define q w i where "q = x div (p * y)" and "w = b * y div b ^ t" and "i = b ^ t * p * b"
  have b: "0 < b" using assms(2) by simp
  have y: "0 < y" using assms(3) b by (metis less_le_trans zero_less_power)
  have D: "0 < p * y" using assms(4) y by simp
  have up: "b * y \<le> (w + 1) * b ^ t"
  proof -
    have "b * y = w * b ^ t + b * y mod b ^ t" unfolding w_def by (rule div_mult_mod_eq [symmetric])
    moreover have "b * y mod b ^ t \<le> b ^ t" using b by (simp add: less_imp_le)
    ultimately show ?thesis by (simp add: distrib_right)
  qed
  have "b * b * (k * (p * y)) = k * p * b * (b * y)" by (simp add: algebra_simps)
  also have "\<dots> \<le> k * p * b * ((w + 1) * b ^ t)" using up by (rule mult_le_mono2)
  also have "\<dots> = k * w * i + k * i" unfolding i_def by (simp add: algebra_simps)
  also have "k * w * i \<le> b * b * x"
  proof -
    have "k * w * i \<le> b * (b * x) div i * i" using assms(1) unfolding w_def [symmetric] i_def [symmetric] by (rule mult_le_mono1)
    also have "\<dots> \<le> b * (b * x)" by simp
    finally show ?thesis by (simp add: mult.assoc)
  qed
  also have "k * i < b * b * (p * y)"
  proof -
    have "k * i < b * i" using assms(2,4) b by (simp add: i_def)
    also have "\<dots> = b * b * (p * b ^ t)" by (simp add: i_def algebra_simps)
    also have "\<dots> \<le> b * b * (p * y)" using assms(3) by simp
    finally show ?thesis .
  qed
  finally have "b * b * (k * (p * y)) < b * b * (x + p * y)" by (simp add: distrib_left)
  then have "k * (p * y) < x + p * y" using b by simp
  also have "x < Suc q * (p * y)" unfolding q_def by (simp add: dividend_less_div_times [OF D])
  then have "x + p * y < Suc (Suc q) * (p * y)" by simp
  finally have "k < Suc (Suc q)" using D by (metis mult_less_cancel2)
  then show ?thesis unfolding q_def by simp
qed

lemma digit_below:
  fixes b x y p t :: nat
  assumes "0 < b" "0 < p" "b ^ t \<le> y"
  shows "x div (p * y) \<le> x div (b ^ t * p) div (y div b ^ t)"
proof -
  have "x div (p * y) * (y div b ^ t) * (b ^ t * p) = x div (p * y) * p * (y div b ^ t * b ^ t)" by (simp add: algebra_simps)
  also have "\<dots> \<le> x div (p * y) * p * y" by (intro mult_le_mono2) simp
  also have "\<dots> = x div (p * y) * (p * y)" by (simp add: mult.assoc)
  also have "\<dots> \<le> x" by simp
  finally have "x div (p * y) * (y div b ^ t) \<le> x div (b ^ t * p)" using assms(1,2) by (simp add: less_eq_div_iff_mult_less_eq)
  moreover have "0 < y div b ^ t" using assms(1,3) by (simp add: div_greater_zero_iff)
  ultimately show ?thesis by (simp add: less_eq_div_iff_mult_less_eq)
qed

lemma base_power: "(2 ^ 64 :: nat) ^ n = 2 ^ (64 * n)"
  by (rule power_mult [symmetric])

lemma first_digit_ok:
  assumes "t < length Y" "limbs_val Y < 2 ^ (64 * Suc t)" "2 ^ (64 * t) \<le> limbs_val Y"
    and "t + Suc s < length X" "limbs_val X < 2 ^ (64 * Suc s) * limbs_val Y"
  shows "limbs_val X div (2 ^ (64 * s) * limbs_val Y) \<le> unat (first_digit Y t X (t + Suc s))"
proof (cases "X ! (t + Suc s) \<ge> Y ! t")
  case True
  have "limbs_val X < 2 ^ 64 * (2 ^ (64 * s) * limbs_val Y)" using assms(5) by (simp add: power_add mult.assoc)
  then have "limbs_val X div (2 ^ (64 * s) * limbs_val Y) < 2 ^ 64" by (rule less_mult_imp_div_less)
  then show ?thesis using True by (simp add: first_digit_def unsigned_minus_1_eq_mask mask_eq_exp_minus_1)
next
  case False
  have x: "limbs_val X < 2 ^ (64 * Suc (Suc (t + s)))"
  proof -
    have "2 ^ (64 * Suc s) * limbs_val Y < 2 ^ (64 * Suc s) * 2 ^ (64 * Suc t)" using assms(2) by simp
    also have "\<dots> = 2 ^ (64 * Suc (Suc (t + s)))" by (simp add: power_add)
    finally show ?thesis using assms(5) by (rule less_trans [rotated])
  qed
  have y: "unat (Y ! t) = limbs_val Y div 2 ^ (64 * t)" by (rule top_limb_val [OF assms(1,2)])
  have "unat (X ! (t + s)) + 2 ^ 64 * unat (X ! Suc (t + s)) = limbs_val X div 2 ^ (64 * (t + s))"
    using two_limbs_val [of "t + s" X] x assms(4) by simp
  moreover have "(2 :: nat) ^ (64 * (t + s)) = (2 ^ 64) ^ t * 2 ^ (64 * s)" unfolding base_power by (simp add: power_add distrib_left)
  ultimately have "unat (first_digit Y t X (t + Suc s)) = limbs_val X div ((2 ^ 64) ^ t * 2 ^ (64 * s)) div (limbs_val Y div (2 ^ 64) ^ t)"
    using False y int_div_int_val [of "X ! Suc (t + s)" "Y ! t" "X ! (t + s)"]
    unfolding base_power by (simp add: first_digit_def add.commute)
  then show ?thesis
    using digit_below [of "2 ^ 64" "2 ^ (64 * s)" t "limbs_val Y" "limbs_val X"] assms(3) unfolding base_power by simp
qed

lemma estimate_ok:
  fixes Y X :: limbs and s :: nat
  defines "q \<equiv> limbs_val X div (2 ^ (64 * s) * limbs_val Y)"
  assumes Y: "t < length Y" "limbs_val Y < 2 ^ (64 * Suc t)" "2 ^ (64 * t) \<le> limbs_val Y"
    and X: "t + Suc s < length X" "limbs_val X < 2 ^ (64 * Suc s) * limbs_val Y"
    and T: "3 \<le> length (mpi_p T2)" "2 \<le> length (mpi_p T1)"
  shows "\<exists>z T1' T2'. digit_loop Y t X (t + Suc s) (first_digit Y t X (t + Suc s) + 1) T1 T2 = done_with (z, T1', T2')
    \<and> q \<le> unat z \<and> unat z \<le> Suc q \<and> (limbs_val X = 0 \<longrightarrow> z = 0)
    \<and> 2 \<le> length (mpi_p T1') \<and> length (mpi_p T1') \<le> max 3 (length (mpi_p T1)) \<and> length (mpi_p T2') = length (mpi_p T2)"
proof -
  let ?x = "limbs_val X" and ?y = "limbs_val Y" and ?i = "t + Suc s"
  have x: "?x < 2 ^ (64 * Suc ?i)"
  proof -
    have "2 ^ (64 * Suc s) * ?y < 2 ^ (64 * Suc s) * 2 ^ (64 * Suc t)" using Y(2) by simp
    also have "\<dots> = 2 ^ (64 * Suc ?i)" by (simp add: power_add)
    finally show ?thesis using X(2) by (rule less_trans [rotated])
  qed
  have pw: "(2 :: nat) ^ (64 * ?i) = (2 ^ 64) ^ t * 2 ^ (64 * s) * 2 ^ 64" unfolding base_power by (simp add: power_add distrib_left)
  have t2: "top2 Y t = 2 ^ 64 * ?y div (2 ^ 64) ^ t" unfolding base_power by (rule top2_val [OF Y(1,2)])
  have t3: "top3 X ?i = 2 ^ 64 * (2 ^ 64 * ?x) div ((2 ^ 64) ^ t * 2 ^ (64 * s) * 2 ^ 64)"
    using top3_val [OF X(1) x] unfolding pw by simp
  obtain z T1' T2' where z: "digit_loop Y t X ?i (first_digit Y t X ?i + 1) T1 T2 = done_with (z, T1', T2')"
      "unat z * top2 Y t \<le> top3 X ?i" "\<forall>k. k \<le> unat (first_digit Y t X ?i) \<longrightarrow> k * top2 Y t \<le> top3 X ?i \<longrightarrow> k \<le> unat z"
      "2 \<le> length (mpi_p T1')" "length (mpi_p T1') \<le> max 3 (length (mpi_p T1))" "length (mpi_p T2') = length (mpi_p T2)"
    using digit_loop_ok [OF T, of Y t X ?i "first_digit Y t X ?i"] by blast
  have "q * top2 Y t \<le> top3 X ?i"
    unfolding t2 t3 q_def by (rule digit_fits) simp
  then have low: "q \<le> unat z" using z(3) first_digit_ok [OF Y X] unfolding q_def by blast
  have up: "unat z \<le> Suc q"
    unfolding q_def
  proof (rule digit_close)
    show "unat z * (2 ^ 64 * ?y div (2 ^ 64) ^ t) \<le> 2 ^ 64 * (2 ^ 64 * ?x) div ((2 ^ 64) ^ t * 2 ^ (64 * s) * 2 ^ 64)"
      using z(2) unfolding t2 t3 .
    show "unat z < 2 ^ 64" by (rule limb_bound)
    show "(2 ^ 64) ^ t \<le> ?y" unfolding base_power by (rule Y(3))
  qed simp
  have "z = 0" if "?x = 0"
  proof -
    have "0 < unat (Y ! t)" using top_limb_val [OF Y(1,2)] Y(3) by (simp add: div_greater_zero_iff)
    then have "0 < top2 Y t" by (simp add: top2_def)
    moreover have "unat z * top2 Y t = 0" using z(2) that unfolding t3 by simp
    ultimately show ?thesis by (simp add: unat_eq_0)
  qed
  then have "?x = 0 \<longrightarrow> z = 0" by blast
  then show ?thesis using z(1,4-6) low up by (intro exI conjI)
qed

section \<open>All digits\<close>

lemma div_loop_ok:
  assumes Y: "mpi_s Y = 1" "limbs_val (mpi_p Y) < 2 ^ (64 * Suc t)" "2 ^ (64 * t) \<le> limbs_val (mpi_p Y)"
      "t < length (mpi_p Y)" "length (mpi_p Y) \<le> L" "3 \<le> L" "L < MPI_MAX_LIMBS"
  shows "mpi_wf X \<Longrightarrow> mpi_val X = int x \<Longrightarrow> mpi_s X = 1 \<or> x = 0 \<Longrightarrow> t + s < length (mpi_p X) \<Longrightarrow> length (mpi_p X) \<le> L \<Longrightarrow>
    x < 2 ^ (64 * s) * limbs_val (mpi_p Y) \<Longrightarrow> 2 \<le> length (mpi_p T1) \<Longrightarrow> length (mpi_p T1) \<le> L \<Longrightarrow> 3 \<le> length (mpi_p T2) \<Longrightarrow>
    s \<le> length Z \<Longrightarrow>
    \<exists>X' Z'. div_loop Y t s X Z T1 T2 = done_with (X', Z') \<and> mpi_wf X' \<and> mpi_val X' = int (x mod limbs_val (mpi_p Y))
      \<and> length (mpi_p X') \<le> L \<and> mpi_p X' \<noteq> []
      \<and> length Z' = length Z \<and> drop s Z' = drop s Z \<and> limbs_val (take s Z') = x div limbs_val (mpi_p Y)"
proof (induction s arbitrary: X x Z T1 T2)
  case 0
  then show ?case by auto
next
  case (Suc s)
  let ?y = "limbs_val (mpi_p Y)"
  define D where "D = 2 ^ (64 * s) * ?y"
  have y: "0 < ?y" using Y(3) by (metis less_le_trans zero_less_numeral zero_less_power)
  have xv: "limbs_val (mpi_p X) = x"
  proof -
    have "mpi_s X * int (limbs_val (mpi_p X)) = int x" using Suc.prems(2) by (simp add: mpi_val_def)
    then show ?thesis using Suc.prems(3) Suc.prems(1) by (auto simp: mpi_wf_def)
  qed
  obtain z T1a T2a where z: "digit_loop (mpi_p Y) t (mpi_p X) (t + Suc s) (first_digit (mpi_p Y) t (mpi_p X) (t + Suc s) + 1) T1 T2 = done_with (z, T1a, T2a)"
      "x div D \<le> unat z" "unat z \<le> Suc (x div D)" "x = 0 \<longrightarrow> z = 0"
      "2 \<le> length (mpi_p T1a)" "length (mpi_p T1a) \<le> max 3 (length (mpi_p T1))" "length (mpi_p T2a) = length (mpi_p T2)"
    using estimate_ok [OF Y(4,2,3) Suc.prems(4) _ Suc.prems(9,7)] Suc.prems(6) unfolding xv D_def by blast
  have T1a: "length (mpi_p T1a) \<le> L" using z(6) Suc.prems(8) Y(6) by linarith
  have tL: "t + 2 + s \<le> L" using Suc.prems(4,5) by linarith
  have z0: "x = 0 \<Longrightarrow> z = 0" using z(4) by blast
  obtain X1 T1b where d: "take_digit Y s z X T1a = ok (word_of_nat (x div D), X1, T1b)" "mpi_wf X1" "mpi_val X1 = int (x mod D)"
      "mpi_s X1 = 1 \<or> x mod D = 0" "length (mpi_p X) \<le> length (mpi_p X1)" "length (mpi_p X1) \<le> L"
      "2 \<le> length (mpi_p T1b)" "length (mpi_p T1b) \<le> L"
    using take_digit_ok [OF Y(1,2) y Y(5) Suc.prems(1,2,3,5) z(5) T1a tL Y(7) z(2,3) [unfolded D_def] z0]
    unfolding D_def [symmetric] by auto
  have xD: "x mod D < D" using y by (simp add: D_def)
  obtain X' Z' where r: "div_loop Y t s X1 (Z[s := word_of_nat (x div D)]) T1b T2a = done_with (X', Z')" "mpi_wf X'"
      "mpi_val X' = int (x mod D mod ?y)" "length (mpi_p X') \<le> L" "mpi_p X' \<noteq> []" "length Z' = length Z"
      "drop s Z' = drop s (Z[s := word_of_nat (x div D)])" "limbs_val (take s Z') = x mod D div ?y"
    using Suc.IH [OF d(2,3,4) _ d(6) _ d(7,8), of T2a "Z[s := word_of_nat (x div D)]"] d(5) xD z(7) Suc.prems(4,9,10)
    unfolding D_def by auto
  have q: "x div D < 2 ^ 64"
    using Suc.prems(6) by (intro less_mult_imp_div_less) (simp add: D_def power_add mult.assoc)
  have Z: "take (Suc s) Z' = take s Z' @ [word_of_nat (x div D)]" "drop (Suc s) Z' = drop (Suc s) Z"
  proof -
    have "drop s Z' = word_of_nat (x div D) # drop (Suc s) Z"
      using r(7) Suc.prems(10) by (simp add: drop_update_swap Cons_nth_drop_Suc [symmetric])
    moreover have s: "s < length Z'" using r(6) Suc.prems(10) by simp
    ultimately show "take (Suc s) Z' = take s Z' @ [word_of_nat (x div D)]" "drop (Suc s) Z' = drop (Suc s) Z"
      unfolding Cons_nth_drop_Suc [OF s, symmetric] by (simp_all add: take_Suc_conv_app_nth [OF s])
  qed
  have div: "x mod D div ?y + 2 ^ (64 * s) * (x div D) = x div ?y"
  proof -
    have "D * (x div D) = ?y * (2 ^ (64 * s) * (x div D))" by (simp add: D_def)
    then have "x = x mod D + ?y * (2 ^ (64 * s) * (x div D))" by (metis mod_mult_div_eq)
    then have "x div ?y = (x mod D + ?y * (2 ^ (64 * s) * (x div D))) div ?y" by simp
    then show ?thesis using y by simp
  qed
  have "limbs_val (take (Suc s) Z') = x div ?y"
    using Z(1) r(6,8) Suc.prems(10) q div by (simp add: limbs_val_append unat_of_nat)
  moreover have "x mod D mod ?y = x mod ?y" by (rule mod_mod_cancel) (simp add: D_def)
  moreover have "div_loop Y t (Suc s) X Z T1 T2 = done_with (X', Z')"
    using z(1) d(1) r(1) by (simp add: Let_def)
  ultimately show ?case using r(2-6) Z(2) by auto
qed

section \<open>The whole division\<close>

lemma last_nonzero_tight:
  assumes "0 < limbs_val p"
  shows "last_nonzero p (length p - 1) < length p" "2 ^ (64 * last_nonzero p (length p - 1)) \<le> limbs_val p"
proof -
  let ?l = "last_nonzero p (length p - 1)"
  have p: "p \<noteq> []" using assms by auto
  then show l: "?l < length p" using last_nonzero_le [of p "length p - 1"] by (cases p) auto
  have u: "Suc ?l = max 1 (used_limbs p (length p))"
    using last_nonzero_used [of "length p - 1" p] p by (cases p) auto
  show "2 ^ (64 * ?l) \<le> limbs_val p"
  proof (cases "used_limbs p (length p)")
    case 0
    then show ?thesis using assms by (simp add: used_limbs_0)
  next
    case (Suc i)
    then show ?thesis using used_limbs_lower [OF Suc] u by simp
  qed
qed

lemma copy_fresh:
  assumes "0 < limbs_val (mpi_p A)" "length (mpi_p A) \<le> MPI_MAX_LIMBS"
  shows "\<exists>Z n. mpi_copy mpi_init A = ok Z \<and> limbs_val (mpi_p Z) = limbs_val (mpi_p A) \<and> length (mpi_p Z) = Suc n
    \<and> 2 ^ (64 * n) \<le> limbs_val (mpi_p A) \<and> n < length (mpi_p A)"
proof -
  let ?n = "last_nonzero (mpi_p A) (length (mpi_p A) - 1)"
  have p: "mpi_p A \<noteq> []" using assms(1) by auto
  note t = last_nonzero_tight [OF assms(1)]
  let ?Z = "\<lparr>mpi_s = mpi_s A, mpi_p = take (Suc ?n) (mpi_p A)\<rparr>"
  have "mpi_copy mpi_init A = ok ?Z"
    using p t(1) assms(2) by (simp add: mpi_copy_def mpi_init_def mpi_grow_ok Let_def)
  then show ?thesis using limbs_val_last [OF p] t by (intro exI [of _ ?Z] exI [of _ ?n]) simp
qed

lemma shift_tight:
  assumes "length (mpi_p X) = Suc n" "2 ^ (64 * n) \<le> limbs_val (mpi_p X)" "k < 64" "n + 2 \<le> MPI_MAX_LIMBS"
  shows "\<exists>Z m. (if k > 0 then mpi_shift_l X k else ok X) = ok Z \<and> mpi_s Z = mpi_s X
    \<and> limbs_val (mpi_p Z) = 2 ^ k * limbs_val (mpi_p X) \<and> length (mpi_p Z) = Suc m
    \<and> 2 ^ (64 * m) \<le> 2 ^ k * limbs_val (mpi_p X) \<and> m \<le> Suc n"
proof (cases "k > 0")
  case False
  then show ?thesis using assms(1,2) by auto
next
  case True
  let ?l = "mpi_bitlen X"
  have lo: "64 * n < ?l"
  proof (rule ccontr)
    assume "\<not> 64 * n < ?l"
    then have "2 ^ ?l \<le> (2 :: nat) ^ (64 * n)" by (intro power_increasing) simp_all
    moreover have "limbs_val (mpi_p X) < 2 ^ ?l" using mpi_bitlen_val [of X] by simp
    ultimately show False using assms(2) by linarith
  qed
  have up: "?l \<le> 64 * Suc n" using bitlen_bound limbs_val_bound [of "mpi_p X"] assms(1) by metis
  define m where "m = (?l + k + 63) div 64 - 1"
  have m: "max (Suc n) ((?l + k + 63) div 64) = Suc m" "64 * m < ?l + k" "m \<le> Suc n"
  proof -
    have "?l + k + 63 < 64 * n + 192" using up assms(3) by simp
    then have "?l + k + 63 < (n + 3) * 64" by simp
    then have "(?l + k + 63) div 64 < n + 3" by (rule less_mult_imp_div_less)
    then show "m \<le> Suc n" unfolding m_def by linarith
    have "Suc n * 64 \<le> ?l + k + 63" using lo True by simp
    then have "Suc n \<le> (?l + k + 63) div 64" by (simp add: less_eq_div_iff_mult_less_eq)
    then show "max (Suc n) ((?l + k + 63) div 64) = Suc m" unfolding m_def by linarith
    have "(?l + k + 63) div 64 * 64 \<le> ?l + k + 63" by simp
    then show "64 * m < ?l + k" using \<open>Suc n \<le> (?l + k + 63) div 64\<close> unfolding m_def by linarith
  qed
  have fit: "?l + k \<le> 64 * MPI_MAX_LIMBS" using up assms(3,4) by simp
  have nz: "limbs_val (mpi_p X) \<noteq> 0" using assms(2) by (metis not_le zero_less_numeral zero_less_power)
  have "2 ^ (64 * m) \<le> 2 ^ k * limbs_val (mpi_p X)"
  proof -
    have "2 ^ (64 * m) \<le> (2 :: nat) ^ (k + (?l - 1))" using m(2) lo by (intro power_increasing) linarith+
    also have "\<dots> = 2 ^ k * 2 ^ (?l - 1)" by (rule power_add)
    also have "\<dots> \<le> 2 ^ k * limbs_val (mpi_p X)" using mpi_bitlen_val [of X] nz by simp
    finally show ?thesis .
  qed
  then show ?thesis using mpi_shift_l_ok [OF fit] m(1,3) True assms(1) by auto
qed

lemma div_limbs_ok:
  assumes B: "0 < limbs_val (mpi_p B)" "limbs_val (mpi_p B) \<le> limbs_val (mpi_p A)" "length (mpi_p B) \<le> MPI_MAX_LIMBS"
    and A: "length (mpi_p A) + 2 \<le> MPI_MAX_LIMBS"
  shows "\<exists>Z k X. div_limbs A B = done_with (Z, k, X) \<and> limbs_val (mpi_p Z) = limbs_val (mpi_p A) div limbs_val (mpi_p B)
    \<and> length (mpi_p Z) = length (mpi_p A) + 2
    \<and> mpi_wf X \<and> mpi_val X = int (2 ^ k * (limbs_val (mpi_p A) mod limbs_val (mpi_p B))) \<and> length (mpi_p X) \<le> max 3 (Suc (length (mpi_p A)))
    \<and> mpi_p X \<noteq> []"
proof -
  let ?a = "limbs_val (mpi_p A)" and ?b = "limbs_val (mpi_p B)"
  have a: "0 < ?a" using B by simp
  obtain X0 n0 where X0: "mpi_copy mpi_init A = ok X0" "limbs_val (mpi_p X0) = ?a" "length (mpi_p X0) = Suc n0"
      "2 ^ (64 * n0) \<le> ?a" "n0 < length (mpi_p A)"
    using copy_fresh [OF a] A by auto
  obtain Y0 t0 where Y0: "mpi_copy mpi_init B = ok Y0" "limbs_val (mpi_p Y0) = ?b" "length (mpi_p Y0) = Suc t0"
      "2 ^ (64 * t0) \<le> ?b"
    using copy_fresh [OF B(1,3)] by auto
  have t0: "t0 \<le> n0"
  proof (rule ccontr)
    assume "\<not> t0 \<le> n0"
    then have "(2 :: nat) ^ (64 * Suc n0) \<le> 2 ^ (64 * t0)" by (intro power_increasing) simp_all
    moreover have "?a < 2 ^ (64 * Suc n0)" using limbs_val_bound [of "mpi_p X0"] X0(2,3) by simp
    ultimately show False using B(2) Y0(4) by linarith
  qed
  define Y1 where "Y1 = Y0\<lparr>mpi_s := 1\<rparr>"
  define X1 where "X1 = X0\<lparr>mpi_s := 1\<rparr>"
  define k where "k = (if mpi_bitlen Y1 mod 64 < 63 then 63 - mpi_bitlen Y1 mod 64 else 0)"
  have k: "k < 64" unfolding k_def by (auto intro: le_less_trans [OF diff_le_self])
  obtain X2 n where X2: "(if k > 0 then mpi_shift_l X1 k else ok X1) = ok X2" "mpi_s X2 = 1" "limbs_val (mpi_p X2) = 2 ^ k * ?a"
      "length (mpi_p X2) = Suc n" "n \<le> Suc n0"
    using shift_tight [of X1 n0 k] X0 k A by (auto simp: X1_def)
  obtain Y2 t where Y2: "(if k > 0 then mpi_shift_l Y1 k else ok Y1) = ok Y2" "mpi_s Y2 = 1" "limbs_val (mpi_p Y2) = 2 ^ k * ?b"
      "length (mpi_p Y2) = Suc t" "2 ^ (64 * t) \<le> 2 ^ k * ?b"
    using shift_tight [of Y1 t0 k] Y0 k t0 X0(5) A by (auto simp: Y1_def)
  define x y L where "x = 2 ^ k * ?a" and "y = 2 ^ k * ?b" and "L = max 3 (Suc n)"
  have xy: "y \<le> x" "0 < y" using B by (simp_all add: x_def y_def)
  have xn: "x < 2 ^ (64 * Suc n)" using limbs_val_bound [of "mpi_p X2"] X2(3,4) by (simp add: x_def)
  have yt: "y < 2 ^ (64 * Suc t)" "2 ^ (64 * t) \<le> y" using limbs_val_bound [of "mpi_p Y2"] Y2(3-5) by (simp_all add: y_def)
  have tn: "t \<le> n"
  proof (rule ccontr)
    assume "\<not> t \<le> n"
    then have "(2 :: nat) ^ (64 * Suc n) \<le> 2 ^ (64 * t)" by (intro power_increasing) simp_all
    then show False using xn yt(2) xy(1) by linarith
  qed
  have L: "L < MPI_MAX_LIMBS" "L \<le> max 3 (Suc (length (mpi_p A)))" using A X2(5) X0(5) by (auto simp: L_def MPI_MAX_LIMBS_def)
  define D where "D = 2 ^ (64 * (n - t)) * y"
  have bl: "mpi_bitlen Y2 + 64 * (n - t) \<le> 64 * Suc n"
    using bitlen_bound [of Y2 "64 * Suc t"] yt(1) Y2(3) tn by (simp add: y_def)
  moreover have "64 * Suc n \<le> 64 * MPI_MAX_LIMBS" using L(1) by (simp add: L_def)
  ultimately obtain Y3 where Y3: "mpi_shift_l Y2 (64 * (n - t)) = ok Y3" "mpi_s Y3 = 1" "limbs_val (mpi_p Y3) = D" "length (mpi_p Y3) \<le> Suc n"
    using mpi_shift_l_ok [of Y2 "64 * (n - t)"] Y2(2,3,4) tn by (fastforce simp: D_def y_def)
  have D: "0 < D" using xy(2) by (simp add: D_def)
  have "positive Y3" "positive X2" using Y3 X2 L(1) by (auto simp: positive_def L_def)
  then obtain X3 where X3: "top_loop Y3 0 X2 = done_with (word_of_nat (x div D), X3)" "mpi_s X3 = 1"
      "limbs_val (mpi_p X3) = x mod D" "length (mpi_p X3) = Suc n"
    using top_loop_ok [of Y3 X2 0] Y3(3) D X2(3,4) by (auto simp: x_def)
  obtain Y4 where Y4: "limbs_shift_r Y3 (64 * (n - t)) = ok Y4" "limbs_val (mpi_p Y4) = y" "mpi_s Y4 = 1" "length (mpi_p Y4) \<le> Suc n"
  proof -
    have "D div 2 ^ (64 * (n - t)) = y" by (simp add: D_def)
    then show ?thesis using that limbs_shift_r_ok [of Y3 "64 * (n - t)"] Y3(2,3,4) xy(2) by auto
  qed
  have t: "t < length (mpi_p Y4)"
  proof (rule ccontr)
    assume "\<not> t < length (mpi_p Y4)"
    then have "(2 :: nat) ^ (64 * length (mpi_p Y4)) \<le> 2 ^ (64 * t)" by (intro power_increasing) simp_all
    then show False using limbs_val_bound [of "mpi_p Y4"] Y4(2) yt(2) by linarith
  qed
  define N where "N = length (mpi_p A) + 2"
  define z Zp where "z = (word_of_nat (x div D) :: u64)" and "Zp = (replicate (N) 0)[n - t := z]"
  have qz: "unat z = x div D"
  proof -
    have "64 * Suc n = 64 + (64 * (n - t) + 64 * t)" using tn by simp
    then have "(2 :: nat) ^ (64 * Suc n) = 2 ^ 64 * (2 ^ (64 * (n - t)) * 2 ^ (64 * t))" by (simp only: power_add)
    then have "x < 2 ^ 64 * D" using xn yt(2) unfolding D_def by (metis mult_le_mono2 less_le_trans)
    then have "x div D < 2 ^ 64" by (rule less_mult_imp_div_less)
    then show ?thesis by (simp add: z_def unat_of_nat)
  qed
  have lz: "length Zp = N" unfolding Zp_def length_list_update length_replicate ..
  have nt: "n - t < length Zp" using X2(5) X0(5) unfolding lz N_def by linarith
  have "mpi_wf X3" "mpi_val X3 = int (x mod D)" using X3(2,3) by (simp_all add: mpi_wf_def mpi_val_def)
  moreover have "length (mpi_p Y4) \<le> L" "3 \<le> L" "length (mpi_p X3) \<le> L" using Y4(4) X3(4) by (simp_all add: L_def)
  moreover have "x mod D < 2 ^ (64 * (n - t)) * limbs_val (mpi_p Y4)" using D Y4(2) by (simp add: D_def)
  ultimately obtain X4 Z4 where d: "div_loop Y4 t (n - t) X3 Zp \<lparr>mpi_s = 1, mpi_p = [0, 0]\<rparr> \<lparr>mpi_s = 1, mpi_p = [0, 0, 0]\<rparr> = done_with (X4, Z4)"
      "mpi_wf X4" "mpi_val X4 = int (x mod D mod y)" "length (mpi_p X4) \<le> L" "mpi_p X4 \<noteq> []"
      "length Z4 = length Zp" "drop (n - t) Z4 = drop (n - t) Zp" "limbs_val (take (n - t) Z4) = x mod D div y"
    using div_loop_ok [of Y4 t L X3 "x mod D" "n - t" "\<lparr>mpi_s = 1, mpi_p = [0, 0]\<rparr>" "\<lparr>mpi_s = 1, mpi_p = [0, 0, 0]\<rparr>" Zp]
      Y4(2,3) yt t L(1) X3(2,4) tn nt by auto
  have g: "mpi_grow mpi_init (N) = ok \<lparr>mpi_s = 1, mpi_p = replicate (N) 0\<rparr>"
      "mpi_grow mpi_init 2 = ok \<lparr>mpi_s = 1, mpi_p = [0, 0]\<rparr>" "mpi_grow mpi_init 3 = ok \<lparr>mpi_s = 1, mpi_p = [0, 0, 0]\<rparr>"
    using A by (simp_all add: mpi_grow_ok mpi_init_def MPI_MAX_LIMBS_def N_def eval_nat_numeral del: replicate.simps)
      (simp_all add: numeral_2_eq_2 numeral_3_eq_3)
  have z0: "mpi_lset \<lparr>mpi_s = 1, mpi_p = replicate (N) 0\<rparr> 0 = ok \<lparr>mpi_s = 1, mpi_p = replicate (N) 0\<rparr>"
  proof -
    have "0 # replicate (N - 1) 0 = (replicate N 0 :: limbs)" unfolding N_def by simp
    then show ?thesis by (simp add: mpi_lset_ok)
  qed
  have run: "div_limbs A B = done_with (\<lparr>mpi_s = 1, mpi_p = Z4\<rparr>, k, X4)"
    unfolding div_limbs_def N_def [symmetric] X0(1) Y0(1) crun_bind_simps Let_def X1_def [symmetric] Y1_def [symmetric] g z0 k_def [symmetric]
      X2(1) Y2(1) X2(4) Y2(4) diff_Suc_1 Y3(1)
    using X3(1) Y4(1) d(1) nt unfolding lz N_def [symmetric] by (simp add: Zp_def z_def)
  have "drop (n - t) Zp = z # replicate (N - Suc (n - t)) 0"
  proof -
    have "drop (n - t) Zp = Zp ! (n - t) # drop (Suc (n - t)) Zp" by (rule Cons_nth_drop_Suc [OF nt, symmetric])
    moreover have "Zp ! (n - t) = z" using nt unfolding lz by (simp only: Zp_def) (rule nth_list_update_eq, simp)
    moreover have "drop (Suc (n - t)) Zp = replicate (N - Suc (n - t)) 0" by (simp only: Zp_def) (simp add: drop_update_cancel del: replicate.simps)
    ultimately show ?thesis by simp
  qed
  then have "limbs_val Z4 = x mod D div y + 2 ^ (64 * (n - t)) * (x div D)"
    using limbs_val_split [of "n - t" Z4] d(6,7,8) nt qz by simp
  also have "\<dots> = x div y"
  proof -
    have "D * (x div D) = y * (2 ^ (64 * (n - t)) * (x div D))" by (simp add: D_def)
    then have "x = x mod D + y * (2 ^ (64 * (n - t)) * (x div D))" by (metis mod_mult_div_eq)
    then have "x div y = (x mod D + y * (2 ^ (64 * (n - t)) * (x div D))) div y" by simp
    then show ?thesis using xy(2) by simp
  qed
  also have "\<dots> = ?a div ?b" by (simp add: x_def y_def)
  finally have q: "limbs_val Z4 = ?a div ?b" .
  have "x mod D mod y = x mod y" by (rule mod_mod_cancel) (simp add: D_def)
  also have "x mod y = 2 ^ k * (?a mod ?b)" unfolding x_def y_def by (rule mult_mod_right [symmetric])
  finally have "mpi_val X4 = int (2 ^ k * (?a mod ?b))" unfolding d(3) by (rule arg_cong)
  moreover have "length (mpi_p X4) \<le> max 3 (Suc (length (mpi_p A)))" using d(4) L(2) by (rule le_trans)
  moreover have "length Z4 = length (mpi_p A) + 2" using d(6) lz N_def by simp
  ultimately show ?thesis using run q d(2,5) by (intro exI [of _ "\<lparr>mpi_s = 1, mpi_p = Z4\<rparr>"] exI [of _ k] exI [of _ X4]) simp
qed

lemma crun_bind_eq: "crun_bind m f = done_with y \<Longrightarrow> \<exists>x. m = done_with x \<and> f x = done_with y"
  by (auto simp: crun_bind_def split: option.splits sum.splits)

lemma div_limbs_sign: "div_limbs A B = done_with (Z, k, X) \<Longrightarrow> mpi_s Z = 1"
  by (auto simp: div_limbs_def Let_def mpi_lset_ok mpi_grow_def split: if_splits dest!: crun_bind_eq)

lemma wf_val_abs: "mpi_wf X \<Longrightarrow> \<bar>mpi_val X\<bar> = int (limbs_val (mpi_p X))"
  by (auto simp: mpi_val_def mpi_wf_def)

lemma sgn_wf: "mpi_wf X \<Longrightarrow> sgn (mpi_val X) = (if limbs_val (mpi_p X) = 0 then 0 else mpi_s X)"
  by (auto simp: mpi_val_def mpi_wf_def sgn_mult)

lemma copy_signed:
  assumes "length (mpi_p Y) \<le> MPI_MAX_LIMBS" "mpi_wf Y"
  shows "\<exists>Z. mpi_copy X Y = ok Z \<and> mpi_val Z = mpi_val Y \<and> mpi_wf Z \<and> limbs_val (mpi_p Z) = limbs_val (mpi_p Y)
    \<and> length (mpi_p Z) \<le> max (length (mpi_p X)) (length (mpi_p Y))
    \<and> (mpi_p Y \<noteq> [] \<longrightarrow> mpi_s Z = mpi_s Y \<and> length (mpi_p X) \<le> length (mpi_p Z))"
proof -
  obtain Z where "mpi_copy X Y = ok Z" "mpi_wf Z" "limbs_val (mpi_p Z) = limbs_val (mpi_p Y)"
      "length (mpi_p Z) \<le> max (length (mpi_p X)) (length (mpi_p Y))"
      "mpi_p Y \<noteq> [] \<longrightarrow> mpi_s Z = mpi_s Y \<and> length (mpi_p X) \<le> length (mpi_p Z)"
    using mpi_copy_ok [OF assms(1), of X] assms(2) by blast
  then show ?thesis using mpi_copy_val [OF assms(1)] by blast
qed

text \<open>The remainder is stored with the sign of the dividend.\<close>

lemma shift_down_Nil: "shift_down v r xs = [] \<longleftrightarrow> xs = []"
  by (cases xs) simp_all

lemma shift_nonempty: "mpi_p X \<noteq> [] \<Longrightarrow> limbs_shift_r X k = ok Z \<Longrightarrow> mpi_p Z \<noteq> []"
  by (auto simp: limbs_shift_r_def Let_def mpi_lset_ok shift_down_Nil split: if_splits)

lemma store_remainder:
  assumes "mpi_wf X" "mpi_val X = int (2 ^ k * r)" "mpi_p X \<noteq> []" "length (mpi_p X) \<le> MPI_MAX_LIMBS" "s = 1 \<or> s = - 1" "length (mpi_p R) \<le> MPI_MAX_LIMBS"
  shows "\<exists>R'. chk_bind (limbs_shift_r X k) (\<lambda>X. chk_bind (mpi_copy R (X\<lparr>mpi_s := s\<rparr>)) (\<lambda>R.
      ok (Some (if mpi_cmp_int R 0 = 0 then R\<lparr>mpi_s := 1\<rparr> else R)))) = ok (Some R')
    \<and> mpi_val R' = s * int r \<and> mpi_wf R' \<and> length (mpi_p R') \<le> max (length (mpi_p R)) (max 1 (length (mpi_p X)))
    \<and> (s = 1 \<longrightarrow> mpi_s R' = 1) \<and> length (mpi_p R) \<le> length (mpi_p R')"
proof -
  have xv: "limbs_val (mpi_p X) = 2 ^ k * r" using wf_val_abs [OF assms(1)] assms(2) by (metis abs_of_nat of_nat_eq_iff)
  obtain X1 where X1: "limbs_shift_r X k = ok X1" "limbs_val (mpi_p X1) = r" "length (mpi_p X1) \<le> max 1 (length (mpi_p X))"
    using limbs_shift_r_ok [of X k] xv by auto
  have "length (mpi_p (X1\<lparr>mpi_s := s\<rparr>)) \<le> MPI_MAX_LIMBS" "mpi_wf (X1\<lparr>mpi_s := s\<rparr>)"
    using X1(3) assms(4,5) by (auto simp: MPI_MAX_LIMBS_def mpi_wf_def)
  then obtain R1 where R1: "mpi_copy R (X1\<lparr>mpi_s := s\<rparr>) = ok R1" "mpi_val R1 = s * int r" "mpi_wf R1" "limbs_val (mpi_p R1) = r"
      "length (mpi_p R1) \<le> max (length (mpi_p R)) (length (mpi_p X1))" "mpi_s R1 = s" "length (mpi_p R) \<le> length (mpi_p R1)"
    using copy_signed [of "X1\<lparr>mpi_s := s\<rparr>" R] X1(2) shift_nonempty [OF assms(3) X1(1)] by (auto simp: mpi_val_def)
  have "mpi_cmp_int R1 0 = 0 \<longleftrightarrow> r = 0" using mpi_cmp_int_val [OF R1(3), of 0] R1(2) assms(5) by (auto simp: sgn_0_0)
  then show ?thesis using X1(1,3) R1 by (auto simp: mpi_val_def mpi_wf_def)
qed

lemma div_mpi_ok:
  assumes wf: "mpi_wf A" "mpi_wf B" and B: "mpi_val B \<noteq> 0" "length (mpi_p B) \<le> MPI_MAX_LIMBS"
    and A: "length (mpi_p A) + 2 \<le> MPI_MAX_LIMBS"
    and lens: "length (mpi_p R) \<le> MPI_MAX_LIMBS"
  shows "\<exists>Q' R'. mpi_div_mpi False Q (Some R) A B = done_with (Q', Some R')
    \<and> (case Q' of None \<Rightarrow> Q = None | Some q \<Rightarrow> Q \<noteq> None \<and> mpi_wf q \<and> mpi_val q = mpi_val A sdiv mpi_val B)
    \<and> mpi_wf R' \<and> mpi_val R' = mpi_val A smod mpi_val B
    \<and> length (mpi_p R') \<le> max (length (mpi_p R)) (max 3 (Suc (length (mpi_p A))))
    \<and> (mpi_s A = 1 \<longrightarrow> mpi_p A \<noteq> [] \<longrightarrow> mpi_s R' = 1 \<and> length (mpi_p R) \<le> length (mpi_p R'))"
proof -
  let ?a = "limbs_val (mpi_p A)" and ?b = "limbs_val (mpi_p B)"
  have b: "0 < ?b" using B(1) by (auto simp: mpi_val_def)
  have nz: "mpi_cmp_int B 0 \<noteq> 0" using mpi_cmp_int_val [OF wf(2), of 0] B(1) by (simp add: sgn_0_0)
  have abs: "\<bar>mpi_val A\<bar> = int ?a" "\<bar>mpi_val B\<bar> = int ?b" using wf by (simp_all add: wf_val_abs)
  have c: "mpi_cmp_abs A B < 0 \<longleftrightarrow> ?a < ?b" by (simp add: mpi_cmp_abs_val sgn_if)
  have sA: "mpi_s A = 1 \<or> mpi_s A = - 1" using wf(1) by (simp add: mpi_wf_def)
  have sB: "sgn (mpi_val B) = mpi_s B" using sgn_wf [OF wf(2)] b by simp
  have sr: "mpi_val A smod mpi_val B = mpi_s A * int (?a mod ?b)"
    using sgn_wf [OF wf(1)] by (simp add: signed_modulo_int_def abs zmod_int)
  have sq: "mpi_val A sdiv mpi_val B = mpi_s A * mpi_s B * int (?a div ?b)"
    using sgn_wf [OF wf(1)] sB by (simp add: signed_divide_int_def abs zdiv_int)
  show ?thesis
  proof (cases "?a < ?b")
    case True
    obtain R' where R': "mpi_copy R A = ok R'" "mpi_val R' = mpi_val A" "mpi_wf R'"
        "length (mpi_p R') \<le> max (length (mpi_p R)) (length (mpi_p A))"
        "mpi_p A \<noteq> [] \<longrightarrow> mpi_s R' = mpi_s A \<and> length (mpi_p R) \<le> length (mpi_p R')"
      using copy_signed [of A R] A wf(1) by auto
    have r: "mpi_val A smod mpi_val B = mpi_val A" unfolding sr using True by (simp add: mpi_val_def)
    have q: "mpi_val A sdiv mpi_val B = 0" unfolding sq using True by simp
    show ?thesis
      using nz c True R' r q by (cases Q) (auto simp: mpi_div_mpi_def Let_def mpi_lset_ok mpi_val_def mpi_wf_def)
  next
    case False
    then have le: "?b \<le> ?a" by simp
    obtain Z k X where d: "div_limbs A B = done_with (Z, k, X)" "limbs_val (mpi_p Z) = ?a div ?b" "length (mpi_p Z) = length (mpi_p A) + 2"
        "mpi_wf X" "mpi_val X = int (2 ^ k * (?a mod ?b))" "length (mpi_p X) \<le> max 3 (Suc (length (mpi_p A)))"
        "mpi_p X \<noteq> []"
      using div_limbs_ok [OF b le B(2) A] by blast
    have Xl: "length (mpi_p X) \<le> MPI_MAX_LIMBS" using d(6) A by (simp add: MPI_MAX_LIMBS_def)
    obtain R' where R': "chk_bind (limbs_shift_r X k) (\<lambda>X. chk_bind (mpi_copy R (X\<lparr>mpi_s := mpi_s A\<rparr>)) (\<lambda>R.
        ok (Some (if mpi_cmp_int R 0 = 0 then R\<lparr>mpi_s := 1\<rparr> else R)))) = ok (Some R')"
        "mpi_val R' = mpi_s A * int (?a mod ?b)" "mpi_wf R'" "length (mpi_p R') \<le> max (length (mpi_p R)) (max 1 (length (mpi_p X)))"
        "mpi_s A = 1 \<longrightarrow> mpi_s R' = 1" "length (mpi_p R) \<le> length (mpi_p R')"
      using store_remainder [OF d(4,5,7) Xl sA lens] by blast
    have rl: "length (mpi_p R') \<le> max (length (mpi_p R)) (max 3 (Suc (length (mpi_p A))))" using R'(4) d(6) by auto
    show ?thesis
    proof (cases Q)
      case None
      then show ?thesis using nz c False d(1) R' rl sr by (simp add: mpi_div_mpi_def)
    next
      case (Some Q0)
      obtain Q1 where Q1: "mpi_copy Q0 Z = ok Q1" "limbs_val (mpi_p Q1) = ?a div ?b"
        using mpi_copy_ok [of Z Q0] d(2,3) A by auto
      have "mpi_wf (Q1\<lparr>mpi_s := mpi_s A * mpi_s B\<rparr>)" using wf by (auto simp: mpi_wf_def)
      moreover have "mpi_val (Q1\<lparr>mpi_s := mpi_s A * mpi_s B\<rparr>) = mpi_val A sdiv mpi_val B" using Q1(2) sq by (simp add: mpi_val_def)
      ultimately show ?thesis
        using nz c False d(1) R' rl sr Q1(1) Some by (simp add: mpi_div_mpi_def)
    qed
  qed
qed

lemma mod_mpi_ok:
  assumes wf: "mpi_wf A" "mpi_wf B" and B: "0 < mpi_val B" "length (mpi_p B) < MPI_MAX_LIMBS"
    and A: "length (mpi_p A) + 2 \<le> MPI_MAX_LIMBS" and R: "length (mpi_p R) < MPI_MAX_LIMBS"
  shows "\<exists>R'. mpi_mod_mpi R A B = done_with R' \<and> mpi_wf R' \<and> mpi_val R' = mpi_val A mod mpi_val B
    \<and> (mpi_s A = 1 \<longrightarrow> mpi_p A \<noteq> [] \<longrightarrow> mpi_s R' = 1 \<and> length (mpi_p R) \<le> length (mpi_p R') \<and> length (mpi_p R') < MPI_MAX_LIMBS)"
proof -
  let ?a = "mpi_val A" and ?b = "mpi_val B"
  obtain Q1 R1 where d: "mpi_div_mpi False None (Some R) A B = done_with (Q1, Some R1)" "mpi_wf R1" "mpi_val R1 = ?a smod ?b"
      "length (mpi_p R1) \<le> max (length (mpi_p R)) (max 3 (Suc (length (mpi_p A))))"
      "mpi_s A = 1 \<longrightarrow> mpi_p A \<noteq> [] \<longrightarrow> mpi_s R1 = 1 \<and> length (mpi_p R) \<le> length (mpi_p R1)"
    using div_mpi_ok [OF wf _ _ A, of R None] B R by fastforce
  have r: "mpi_val R1 = ?a mod ?b - (if ?a mod ?b \<noteq> 0 \<and> ?a < 0 then ?b else 0)"
    unfolding d(3) using B(1) by (auto simp: signed_modulo_int_eq_modulo_int dvd_eq_mod_eq_0 sgn_if)
  have fits: "fits R1" "fits B" using d(2,4) wf(2) B(2) A R by (auto simp: fits_def MPI_MAX_LIMBS_def)
  have down: "mod_down B X = done_with X" if "mpi_wf X" "mpi_val X < ?b" for X
    using mpi_cmp_mpi_val [OF that(1) wf(2)] that(2) by (subst mod_down.simps) (simp add: sgn_if)
  have b: "0 \<le> ?a mod ?b" "?a mod ?b < ?b" using B(1) by simp_all
  have "\<exists>X. mod_up B R1 = done_with X \<and> mpi_wf X \<and> mpi_val X = ?a mod ?b \<and> (mpi_s R1 = 1 \<longrightarrow> X = R1)"
  proof (cases "mpi_val R1 < 0")
    case False
    then have "\<not> mpi_cmp_int R1 0 < 0" using mpi_cmp_int_val [OF d(2), of 0] by simp
    then have "mod_up B R1 = done_with R1" by (subst mod_up.simps) simp
    moreover have "mpi_val R1 = ?a mod ?b" using r False b by (auto split: if_splits)
    ultimately show ?thesis using d(2) by blast
  next
    case True
    then have neg: "mpi_cmp_int R1 0 < 0" using mpi_cmp_int_val [OF d(2), of 0] by simp
    obtain X where X: "mpi_add_mpi X_is_A R1 R1 B = ok X" "mpi_val X = mpi_val R1 + ?b" "mpi_wf X"
      using mpi_add_mpi_ok [of X_is_A R1 R1 B] fits by (auto simp: fits_def)
    have v: "mpi_val X = ?a mod ?b" using X(2) r True b by (auto split: if_splits)
    then have "\<not> mpi_cmp_int X 0 < 0" using mpi_cmp_int_val [OF X(3), of 0] b by simp
    then have "mod_up B X = done_with X" by (subst mod_up.simps) simp
    moreover have "mpi_s R1 \<noteq> 1" using True by (auto simp: mpi_val_def)
    ultimately show ?thesis using neg X(1,3) v by (subst mod_up.simps) simp
  qed
  then obtain X where X: "mod_up B R1 = done_with X" "mpi_wf X" "mpi_val X = ?a mod ?b" "mpi_s R1 = 1 \<longrightarrow> X = R1" by blast
  have "\<not> mpi_cmp_int B 0 < 0" using mpi_cmp_int_val [OF wf(2), of 0] B(1) by simp
  then show ?thesis using d(1,5) X down [OF X(2)] b(2) fits(1) by (auto simp: mpi_mod_mpi_def fits_def)
qed

section \<open>A single-limb modulus, by value\<close>

lemma half_limb_step:
  fixes y h :: u64 and b :: nat
  assumes "unat y < b" "b \<le> 2 ^ 32" "unat h < 2 ^ 32" "0 < b"
  defines "w \<equiv> push_bit 32 y OR h"
  shows "unat (w - w div word_of_nat b * word_of_nat b) = (2 ^ 32 * unat y + unat h) mod b"
proof -
  have y: "unat y < 2 ^ 32" using assms(1,2) by simp
  have "unat w = unat (push_bit 32 y) + unat h" unfolding w_def by (rule disjoint_or [OF assms(3)]) simp
  moreover have "unat (push_bit 32 y) = 2 ^ 32 * unat y" using unat_push_bit [of 32 y] y by simp
  ultimately have w: "unat w = 2 ^ 32 * unat y + unat h" by simp
  have b: "unat (word_of_nat b :: u64) = b" using assms(2) by (simp add: unat_of_nat)
  have m: "w - w div word_of_nat b * word_of_nat b = w mod word_of_nat b" by (rule minus_div_mult_eq_mod)
  show ?thesis unfolding m unat_mod b w ..
qed

lemma mod_int_loop_val:
  assumes "0 < b" "b \<le> 2 ^ 32"
  shows "unat y < b \<Longrightarrow> unat (mod_int_loop (word_of_nat b) xs y) = (unat y * 2 ^ (64 * length xs) + limbs_val (rev xs)) mod b
    \<and> unat (mod_int_loop (word_of_nat b) xs y) < b"
proof (induction xs arbitrary: y)
  case Nil
  then show ?case by simp
next
  case (Cons x xs)
  define h l where "h = drop_bit 32 x" and "l = drop_bit 32 (push_bit 32 x)"
  have h: "unat h = unat x div 2 ^ 32" by (simp add: h_def unat_drop_bit del: drop_bit_numeral_minus_bit1)
  have l: "unat l = unat x mod 2 ^ 32"
    unfolding l_def unat_drop_bit using unat_push_bit [of 32 x] by simp
  have hl: "unat h < 2 ^ 32" "unat l < 2 ^ 32" using limb_bound [of x] unfolding h l by (simp_all add: less_mult_imp_div_less)
  define y1 where "y1 = (let w = push_bit 32 y OR h in w - w div word_of_nat b * word_of_nat b)"
  define y2 where "y2 = (let w = push_bit 32 y1 OR l in w - w div word_of_nat b * word_of_nat b)"
  have y1: "unat y1 = (2 ^ 32 * unat y + unat h) mod b"
    unfolding y1_def Let_def using half_limb_step [OF Cons.prems assms(2) hl(1) assms(1)] .
  then have "unat y1 < b" using assms(1) by simp
  then have y2: "unat y2 = (2 ^ 32 * unat y1 + unat l) mod b"
    unfolding y2_def Let_def using half_limb_step [OF _ assms(2) hl(2) assms(1)] by blast
  have x: "unat x = 2 ^ 32 * unat h + unat l" unfolding h l by simp
  have y2b: "unat y2 < b" using y2 assms(1) by simp
  have "unat y2 = (2 ^ 64 * unat y + unat x) mod b"
  proof -
    have "unat y2 = (2 ^ 32 * (2 ^ 32 * unat y + unat h) + unat l) mod b" unfolding y2 y1 by (metis mod_add_left_eq mod_mult_right_eq)
    then show ?thesis unfolding x by (simp add: algebra_simps)
  qed
  then have "(unat y2 * 2 ^ (64 * length xs) + limbs_val (rev xs)) mod b
      = ((2 ^ 64 * unat y + unat x) * 2 ^ (64 * length xs) + limbs_val (rev xs)) mod b"
    by (metis mod_add_left_eq mod_mult_left_eq)
  also have "\<dots> = (unat y * 2 ^ (64 * length (x # xs)) + limbs_val (rev (x # xs))) mod b"
    by (simp add: limbs_val_append power_add algebra_simps)
  finally have e: "(unat y2 * 2 ^ (64 * length xs) + limbs_val (rev xs)) mod b
      = (unat y * 2 ^ (64 * length (x # xs)) + limbs_val (rev (x # xs))) mod b" .
  have "mod_int_loop (word_of_nat b) (x # xs) y = mod_int_loop (word_of_nat b) xs y2"
    by (simp only: mod_int_loop.simps Let_def y2_def y1_def h_def l_def)
  then show ?case using Cons.IH [OF y2b] e by simp
qed

lemma mod_int_ok:
  assumes "0 < b" "b \<le> 2 ^ 32" "mpi_wf A" "mpi_p A \<noteq> []"
  shows "\<exists>r. mpi_mod_int A (int b) = ok r \<and> int (unat r) = mpi_val A mod int b"
proof -
  let ?a = "limbs_val (mpi_p A)"
  have s: "mpi_s A = 1 \<or> mpi_s A = - 1" using assms(3) by (simp add: mpi_wf_def)
  consider "b = 1" | "b = 2" | "b \<noteq> 1" "b \<noteq> 2" by blast
  then show ?thesis
  proof cases
    case 1
    then show ?thesis by (simp add: mpi_mod_int_def)
  next
    case 2
    obtain x xs where p: "mpi_p A = x # xs" using assms(4) by (cases "mpi_p A") auto
    have "odd (unat x) \<longleftrightarrow> odd x" by (simp add: bit_unsigned_iff flip: bit_0)
    then have "even ?a \<longleftrightarrow> even x" by (simp add: p)
    then have "odd (mpi_val A) \<longleftrightarrow> odd x" using s by (auto simp: mpi_val_def)
    then show ?thesis using 2 p by (simp add: mpi_mod_int_def and_one_eq mod2_eq_if)
  next
    case 3
    define y where "y = mod_int_loop (word_of_nat b) (rev (mpi_p A)) 0"
    have y: "unat y = ?a mod b" "unat y < b"
      using mod_int_loop_val [OF assms(1,2), of 0 "rev (mpi_p A)"] assms(1) by (simp_all add: y_def)
    have e: "mpi_mod_int A (int b) = ok (if mpi_s A < 0 \<and> y \<noteq> 0 then word_of_nat b - y else y)"
      using 3 assms(1) by (simp add: mpi_mod_int_def y_def Let_def)
    show ?thesis
    proof (cases "mpi_s A < 0 \<and> y \<noteq> 0")
      case True
      then have sA: "mpi_s A = - 1" using s by auto
      have ny: "?a mod b \<noteq> 0" using True y(1) by (metis unat_eq_0)
      have b: "unat (word_of_nat b :: u64) = b" using assms(2) by (simp add: unat_of_nat)
      have "y \<le> word_of_nat b" using y(2) by (simp add: word_le_nat_alt b)
      then have u: "unat (word_of_nat b - y) = b - ?a mod b" by (simp add: unat_sub b y(1))
      have "?a mod b \<le> b" using assms(1) by (simp add: less_imp_le)
      then have "int (unat (word_of_nat b - y)) = int b - int (?a mod b)" unfolding u by (rule of_nat_diff)
      moreover have "mpi_val A mod int b = int b - int ?a mod int b"
        using ny by (simp add: mpi_val_def sA zmod_zminus1_eq_if flip: zmod_int)
      ultimately show ?thesis using True e by (simp only: zmod_int) simp
    next
      case False
      have "mpi_val A mod int b = int (?a mod b)"
      proof (cases "y = 0")
        case True
        then have "?a mod b = 0" using y(1) by simp
        then have "int (?a mod b) = 0" by simp
        then have "int ?a mod int b = 0" by (simp only: zmod_int)
        then show ?thesis using s \<open>?a mod b = 0\<close> by (auto simp: mpi_val_def zmod_zminus1_eq_if)
      next
        case ny: False
        then show ?thesis using False s by (auto simp: mpi_val_def zmod_int)
      qed
      then have "mpi_val A mod int b = int (unat y)" unfolding y(1) .
      then show ?thesis using False e by auto
    qed
  qed
qed

section \<open>The interface to the values\<close>



text \<open>C25: Two results that an operand in place loses.  Adding a number to itself in place is the double only when
  no limb has its top bit set.  A quotient stored in the dividend has the sign of the divisor alone, because
  the sign of the dividend is read after it has been overwritten; it is the quotient only of a dividend that
  is not negative or is smaller than the divisor.\<close>

lemma in_place_results:
  assumes "fits A" "fits B" "mpi_val B \<noteq> 0" "length (mpi_p A) + 2 \<le> MPI_MAX_LIMBS"
  shows "(\<exists>X. mpi_add_mpi All_same A A A = ok X \<and> (mpi_val X = 2 * mpi_val A \<longleftrightarrow> list_all (\<lambda>x. x < 2 ^ 63) (mpi_p A)))
    \<and> (\<exists>Q. mpi_div_mpi True (Some A) None A B = done_with (Some Q, None)
        \<and> mpi_val Q = sgn (mpi_val B) * (\<bar>mpi_val A\<bar> div \<bar>mpi_val B\<bar>)
        \<and> (mpi_val Q = mpi_val A sdiv mpi_val B \<longleftrightarrow> 0 \<le> mpi_val A \<or> \<bar>mpi_val A\<bar> < \<bar>mpi_val B\<bar>))"
proof -
  let ?a = "limbs_val (mpi_p A)" and ?b = "limbs_val (mpi_p B)"
  have wf: "mpi_wf A" "mpi_wf B" and lB: "length (mpi_p B) \<le> MPI_MAX_LIMBS" using assms(1,2) by (simp_all add: fits_def)
  have b: "0 < ?b" using assms(3) by (auto simp: mpi_val_def)
  have nz: "mpi_cmp_int B 0 \<noteq> 0" using mpi_cmp_int_val [OF wf(2), of 0] assms(3) by (simp add: sgn_0_0)
  have c: "mpi_cmp_abs A B < 0 \<longleftrightarrow> ?a < ?b" by (simp add: mpi_cmp_abs_val sgn_if)
  have abs: "\<bar>mpi_val A\<bar> = int ?a" "\<bar>mpi_val B\<bar> = int ?b" using wf by (simp_all add: wf_val_abs)
  have sB: "sgn (mpi_val B) = mpi_s B" using sgn_wf [OF wf(2)] b by simp
  have "\<exists>Q. mpi_div_mpi True (Some A) None A B = done_with (Some Q, None) \<and> mpi_val Q = mpi_s B * int (?a div ?b)"
  proof (cases "?a < ?b")
    case True
    then show ?thesis using nz c by (simp add: mpi_div_mpi_def Let_def mpi_lset_ok mpi_val_def)
  next
    case False
    then have le: "?b \<le> ?a" by simp
    obtain Z k X where d: "div_limbs A B = done_with (Z, k, X)" "limbs_val (mpi_p Z) = ?a div ?b" "length (mpi_p Z) = length (mpi_p A) + 2"
      using div_limbs_ok [OF b le lB assms(4)] by blast
    have s: "mpi_s Z = 1" using d(1) by (rule div_limbs_sign)
    have "mpi_p Z \<noteq> []" using d(3) by auto
    then obtain Q1 where "mpi_copy A Z = ok Q1" "limbs_val (mpi_p Q1) = ?a div ?b" "mpi_s Q1 = 1"
      using mpi_copy_ok [of Z A] d(2,3) assms(4) s by auto
    then show ?thesis using nz c False d(1) by (simp add: mpi_div_mpi_def Let_def mpi_val_def)
  qed
  then obtain Q where Q: "mpi_div_mpi True (Some A) None A B = done_with (Some Q, None)"
      "mpi_val Q = sgn (mpi_val B) * (\<bar>mpi_val A\<bar> div \<bar>mpi_val B\<bar>)"
    unfolding sB abs zdiv_int by blast
  have "mpi_val Q = mpi_val A sdiv mpi_val B \<longleftrightarrow> 0 \<le> mpi_val A \<or> \<bar>mpi_val A\<bar> < \<bar>mpi_val B\<bar>"
  proof (cases "\<bar>mpi_val A\<bar> < \<bar>mpi_val B\<bar>")
    case True
    then show ?thesis by (simp add: Q(2) signed_divide_int_def)
  next
    case False
    then have "\<bar>mpi_val A\<bar> div \<bar>mpi_val B\<bar> \<noteq> 0" using assms(3) pos_imp_zdiv_pos_iff [of "\<bar>mpi_val B\<bar>" "\<bar>mpi_val A\<bar>"] by auto
    then show ?thesis using assms(3) False by (auto simp: Q(2) signed_divide_int_def sgn_if)
  qed
  then show ?thesis using doubling_in_place [OF assms(1)] Q by auto
qed

lemma in_place_results_witness:
  "(\<exists>Q. mpi_div_mpi True (Some \<lparr>mpi_s = - 1, mpi_p = [2 ^ 63]\<rparr>) None \<lparr>mpi_s = - 1, mpi_p = [2 ^ 63]\<rparr> \<lparr>mpi_s = 1, mpi_p = [2]\<rparr>
      = done_with (Some Q, None) \<and> mpi_val Q = 2 ^ 62)
    \<and> (\<exists>X. mpi_add_mpi All_same \<lparr>mpi_s = - 1, mpi_p = [2 ^ 63]\<rparr> \<lparr>mpi_s = - 1, mpi_p = [2 ^ 63]\<rparr> \<lparr>mpi_s = - 1, mpi_p = [2 ^ 63]\<rparr> = ok X
      \<and> mpi_val X \<noteq> - (2 ^ 64))"
  using in_place_results [of "\<lparr>mpi_s = - 1, mpi_p = [2 ^ 63]\<rparr>" "\<lparr>mpi_s = 1, mpi_p = [2]\<rparr>"]
  by (auto simp: fits_def mpi_wf_def MPI_MAX_LIMBS_def mpi_val_def)

text \<open>C26: The remainder by a small divisor, half a limb at a time, is the residue of the number for every divisor
  up to 2 to the 32.  Above that the intermediate remainder no longer fits into half a limb and its high bits
  are shifted out, although the parameter allows 63 bits.\<close>

lemma mod_int_half_limb:
  assumes "0 < b" "b \<le> 2 ^ 32" "mpi_wf A" "mpi_p A \<noteq> []"
  shows "(\<exists>r. mpi_mod_int A b = ok r \<and> uint r = mpi_val A mod b)
    \<and> mpi_mod_int \<lparr>mpi_s = 1, mpi_p = [0, 2 ^ 32]\<rparr> (2 ^ 33 + 1) = ok 0
    \<and> mpi_val \<lparr>mpi_s = 1, mpi_p = [0, 2 ^ 32]\<rparr> mod (2 ^ 33 + 1) = 2 ^ 30"
proof -
  obtain n where "b = int n" using assms(1) by (metis less_imp_le nonneg_int_cases)
  moreover have "mpi_mod_int \<lparr>mpi_s = 1, mpi_p = [0, 2 ^ 32]\<rparr> (2 ^ 33 + 1) = ok 0" by (simp add: mpi_mod_int_def)
  moreover have "mpi_val \<lparr>mpi_s = 1, mpi_p = [0, 2 ^ 32]\<rparr> mod (2 ^ 33 + 1) = 2 ^ 30" by (simp add: mpi_val_def)
  ultimately show ?thesis using mod_int_ok [of n A] assms by auto
qed

lemma mod_int_half_limb_witness:
  "\<exists>r. mpi_mod_int \<lparr>mpi_s = - 1, mpi_p = [7, 1]\<rparr> 10 = ok r \<and> uint r = 7"
  using mod_int_half_limb [of 10 "\<lparr>mpi_s = - 1, mpi_p = [7, 1]\<rparr>"] by (auto simp: mpi_wf_def mpi_val_def)

end
