(* ===== verification/Mpi_Window.thy ===== *)
theory Mpi_Window
  imports Mpi_Div
begin

text \<open>
  The sliding windows of \<open>mbedtls_mpi_exp_mod\<close> (\<open>bignum.c\<close>): the table of powers, the state machine that reads
  the bits of the exponent, and the bits left at the end.  They are proved over any multiplication that
  obeys the contract of the locale \<open>multiplication\<close>.
\<close>

section \<open>Windows\<close>

definition window_size :: "nat \<Rightarrow> nat" where
  "window_size i = (let w = (if i > 671 then 6 else if i > 239 then 5 else if i > 79 then 4 else if i > 23 then 3 else 1) in
     if w > 6 then 6 else w)"

fun squares :: "(mpi \<Rightarrow> mpi \<Rightarrow> mpi res) \<Rightarrow> nat \<Rightarrow> mpi \<Rightarrow> mpi res" where
  "squares mul 0 X = Inr X"
| "squares mul (Suc k) X = bind_res (mul X X) (squares mul k)"

text \<open>The table \<open>W\<close>: \<open>k\<close> entries from \<open>i\<close> on, each the one before times \<open>W[1]\<close>.\<close>

fun fill_table :: "(mpi \<Rightarrow> mpi \<Rightarrow> mpi res) \<Rightarrow> nat \<Rightarrow> nat \<Rightarrow> nat \<Rightarrow> mpi list \<Rightarrow> mpi list chk" where
  "fill_table mul n 0 i W = ok W"
| "fill_table mul n (Suc k) i W =
     chk_bind (mpi_grow (W ! i) (n + 1)) (\<lambda>Wi.
     chk_bind (mpi_copy Wi (W ! (i - 1))) (\<lambda>Wi.
     chk_bind (chk_res (mul Wi (W ! 1))) (\<lambda>Wi.
     fill_table mul n k (Suc i) (W[i := Wi]))))"

definition exp_table :: "(mpi \<Rightarrow> mpi \<Rightarrow> mpi res) \<Rightarrow> nat \<Rightarrow> nat \<Rightarrow> mpi list \<Rightarrow> mpi list chk" where
  "exp_table mul n wsize W =
     (if wsize > 1 then
        let j = 2 ^ (wsize - 1) in
        chk_bind (mpi_grow (W ! j) (n + 1)) (\<lambda>Wj.
        chk_bind (mpi_copy Wj (W ! 1)) (\<lambda>Wj.
        chk_bind (chk_res (squares mul (wsize - 1) Wj)) (\<lambda>Wj.
        fill_table mul n (2 ^ wsize - (j + 1)) (j + 1) (W[j := Wj]))))
      else ok W)"

record exp_state =
  ex_X :: mpi
  ex_nbits :: nat
  ex_wbits :: nat
  ex_state :: nat

text \<open>One bit of the exponent.\<close>

definition exp_bit :: "(mpi \<Rightarrow> mpi \<Rightarrow> mpi res) \<Rightarrow> nat \<Rightarrow> mpi list \<Rightarrow> nat \<Rightarrow> exp_state \<Rightarrow> exp_state res" where
  "exp_bit mul wsize W ei st =
     (if ei = 0 \<and> ex_state st = 0 then Inr st
      else if ei = 0 \<and> ex_state st = 1 then bind_res (mul (ex_X st) (ex_X st)) (\<lambda>X. Inr (st\<lparr>ex_X := X\<rparr>))
      else
        let nbits = ex_nbits st + 1; wbits = ex_wbits st OR push_bit (wsize - nbits) ei in
        if nbits = wsize then
          bind_res (squares mul wsize (ex_X st)) (\<lambda>X.
          bind_res (mul X (W ! wbits)) (\<lambda>X. Inr \<lparr>ex_X = X, ex_nbits = 0, ex_wbits = 0, ex_state = 1\<rparr>))
        else Inr (st\<lparr>ex_nbits := nbits, ex_wbits := wbits, ex_state := 2\<rparr>))"

text \<open>The loop over the bits of the exponent, the highest first.\<close>

function exp_loop :: "(mpi \<Rightarrow> mpi \<Rightarrow> mpi res) \<Rightarrow> nat \<Rightarrow> mpi list \<Rightarrow> limbs \<Rightarrow> nat \<Rightarrow> nat \<Rightarrow> exp_state \<Rightarrow> exp_state res" where
  "exp_loop mul wsize W E nblimbs bufsize st =
     (if bufsize = 0 \<and> nblimbs = 0 then Inr st
      else
        let (nblimbs, bufsize) = (if bufsize = 0 then (nblimbs - 1, 64) else (nblimbs, bufsize));
            bufsize = bufsize - 1;
            ei = unat (drop_bit bufsize (E ! nblimbs) AND 1)
        in bind_res (exp_bit mul wsize W ei st) (exp_loop mul wsize W E nblimbs bufsize))"
  by pat_completeness auto
termination
  by (relation "measure (\<lambda>(mul, wsize, W, E, nblimbs, bufsize, st). 64 * nblimbs + bufsize)") (auto split: if_splits)

declare exp_loop.simps [simp del]

fun exp_tail :: "(mpi \<Rightarrow> mpi \<Rightarrow> mpi res) \<Rightarrow> nat \<Rightarrow> mpi \<Rightarrow> nat \<Rightarrow> nat \<Rightarrow> mpi \<Rightarrow> mpi res" where
  "exp_tail mul wsize W1 0 wbits X = Inr X"
| "exp_tail mul wsize W1 (Suc k) wbits X =
     bind_res (mul X X) (\<lambda>X.
     let wbits = push_bit 1 wbits in
     bind_res (if wbits AND push_bit wsize 1 \<noteq> 0 then mul X W1 else Inr X) (\<lambda>X.
     exp_tail mul wsize W1 k wbits X))"

section \<open>Sliding windows over any multiplication\<close>

text \<open>
  What the windows need: \<open>rep X a\<close> says that \<open>X\<close> stands for \<open>a\<close>; multiplying keeps it, and so does copying into
  an entry of the table.
\<close>

locale multiplication =
  fixes mul :: "mpi \<Rightarrow> mpi \<Rightarrow> mpi res" and rep :: "mpi \<Rightarrow> int \<Rightarrow> bool" and n :: nat
  assumes mul_rep: "rep X a \<Longrightarrow> rep Y c \<Longrightarrow> \<exists>Z. mul X Y = Inr Z \<and> rep Z (a * c)"
    and copy_rep: "rep Y a \<Longrightarrow> mpi_p V = [] \<Longrightarrow> \<exists>V1 Z. mpi_grow V (n + 1) = ok V1 \<and> mpi_copy V1 Y = ok Z \<and> rep Z a"
begin

lemma squares_ok: "rep X a \<Longrightarrow> \<exists>Z. squares mul k X = Inr Z \<and> rep Z (a ^ 2 ^ k)"
proof (induction k arbitrary: X a)
  case 0
  then show ?case by simp
next
  case (Suc k)
  obtain Y where "mul X X = Inr Y" "rep Y (a * a)" using mul_rep [OF Suc.prems Suc.prems] by blast
  moreover have "(a * a) ^ 2 ^ k = a ^ 2 ^ Suc k" by (simp add: power_mult power2_eq_square)
  ultimately show ?case using Suc.IH [of Y "a * a"] by simp
qed

lemma fill_table_ok:
  "rep (W ! 1) a \<Longrightarrow> rep (W ! (i - 1)) (a ^ (i - 1)) \<Longrightarrow> 1 < i \<Longrightarrow> i + k \<le> length W \<Longrightarrow>
    (\<And>v. i \<le> v \<Longrightarrow> v < length W \<Longrightarrow> mpi_p (W ! v) = []) \<Longrightarrow>
    \<exists>W'. fill_table mul n k i W = ok W' \<and> length W' = length W \<and> (\<forall>v < i. W' ! v = W ! v)
      \<and> (\<forall>v. i \<le> v \<longrightarrow> v < i + k \<longrightarrow> rep (W' ! v) (a ^ v))"
proof (induction k arbitrary: i W)
  case 0
  then show ?case by simp
next
  case (Suc k)
  obtain V1 V2 where V: "mpi_grow (W ! i) (n + 1) = ok V1" "mpi_copy V1 (W ! (i - 1)) = ok V2" "rep V2 (a ^ (i - 1))"
    using copy_rep [OF Suc.prems(2), of "W ! i"] Suc.prems(4,5) by auto
  obtain V3 where V3: "mul V2 (W ! 1) = Inr V3" "rep V3 (a ^ (i - 1) * a)" using mul_rep [OF V(3) Suc.prems(1)] by blast
  have p: "a ^ (i - 1) * a = a ^ i" using Suc.prems(3) by (cases i) simp_all
  have u: "(W[i := V3]) ! 1 = W ! 1" "(W[i := V3]) ! i = V3" using Suc.prems(3,4) by simp_all
  obtain W' where W': "fill_table mul n k (Suc i) (W[i := V3]) = ok W'" "length W' = length W"
      "\<forall>v < Suc i. W' ! v = W[i := V3] ! v" "\<forall>v. Suc i \<le> v \<longrightarrow> v < Suc i + k \<longrightarrow> rep (W' ! v) (a ^ v)"
    using Suc.IH [of "W[i := V3]" "Suc i"] Suc.prems V3(2) p u by auto
  have "rep (W' ! i) (a ^ i)" using W'(3) u(2) V3(2) p by simp
  then have "\<forall>v. i \<le> v \<longrightarrow> v < i + Suc k \<longrightarrow> rep (W' ! v) (a ^ v)" using W'(4) by (metis Suc_leI add_Suc_shift le_neq_implies_less)
  moreover have "\<forall>v < i. W' ! v = W ! v" using W'(3) by simp
  ultimately show ?case using V(1,2) V3(1) W'(1,2) by simp
qed

definition table_ok :: "nat \<Rightarrow> mpi list \<Rightarrow> int \<Rightarrow> bool" where
  "table_ok wsize W a \<longleftrightarrow> rep (W ! 1) a \<and> (\<forall>v. 2 ^ (wsize - 1) \<le> v \<longrightarrow> v < 2 ^ wsize \<longrightarrow> rep (W ! v) (a ^ v))"

lemma exp_table_ok:
  assumes "rep (W ! 1) a" "1 \<le> wsize" "2 ^ wsize \<le> length W" "\<And>v. 1 < v \<Longrightarrow> v < length W \<Longrightarrow> mpi_p (W ! v) = []"
  shows "\<exists>W'. exp_table mul n wsize W = ok W' \<and> table_ok wsize W' a"
proof (cases "wsize = 1")
  case True
  have "rep (W ! v) (a ^ v)" if "1 \<le> v" "v < 2" for v
  proof -
    have "v = 1" using that by simp
    then show ?thesis using assms(1) by simp
  qed
  then show ?thesis using True assms(1) by (simp add: exp_table_def table_ok_def)
next
  case False
  define j where "j = (2 :: nat) ^ (wsize - 1)"
  have j: "2 * j = 2 ^ wsize" "2 \<le> j"
  proof -
    have "wsize = Suc (wsize - 1)" using assms(2) by simp
    then show "2 * j = 2 ^ wsize" unfolding j_def by (metis power_Suc)
    have "(2 :: nat) ^ 1 \<le> 2 ^ (wsize - 1)" using False assms(2) by (intro power_increasing) simp_all
    then show "2 \<le> j" by (simp add: j_def)
  qed
  obtain V1 V2 where V: "mpi_grow (W ! j) (n + 1) = ok V1" "mpi_copy V1 (W ! 1) = ok V2" "rep V2 a"
    using copy_rep [OF assms(1), of "W ! j"] assms(3,4) j by auto
  obtain V3 where V3: "squares mul (wsize - 1) V2 = Inr V3" "rep V3 (a ^ j)" using squares_ok [OF V(3)] unfolding j_def by blast
  have jl: "j < length W" using j assms(3) by linarith
  have u: "W[j := V3] ! 1 = W ! 1" "W[j := V3] ! j = V3" using j(2) jl by simp_all
  have "j + 1 + (2 ^ wsize - (j + 1)) \<le> length (W[j := V3])" using assms(3) j by simp
  then obtain W' where W': "fill_table mul n (2 ^ wsize - (j + 1)) (j + 1) (W[j := V3]) = ok W'"
      "\<forall>v < j + 1. W' ! v = W[j := V3] ! v" "\<forall>v. j + 1 \<le> v \<longrightarrow> v < j + 1 + (2 ^ wsize - (j + 1)) \<longrightarrow> rep (W' ! v) (a ^ v)"
    using fill_table_ok [of "W[j := V3]" a "j + 1" "2 ^ wsize - (j + 1)"] assms(1,4) u V3(2) j by auto
  have "rep (W' ! v) (a ^ v)" if "j \<le> v" "v < 2 ^ wsize" for v
  proof (cases "v = j")
    case True
    then show ?thesis using W'(2) u(2) V3(2) by simp
  next
    case False
    then show ?thesis using W'(3) that by simp
  qed
  moreover have "W' ! 1 = W ! 1" using W'(2) u(1) j(2) by simp
  ultimately have "table_ok wsize W' a" using assms(1) by (simp add: table_ok_def j_def)
  moreover have "1 < wsize" using False assms(2) by simp
  ultimately show ?thesis using V(1,2) V3(1) W'(1) by (simp add: exp_table_def Let_def j_def)
qed

text \<open>The bits read so far are \<open>e\<close>: those in front of the window have gone into \<open>X\<close>.\<close>

definition window_inv :: "nat \<Rightarrow> int \<Rightarrow> nat \<Rightarrow> exp_state \<Rightarrow> bool" where
  "window_inv wsize a e st \<longleftrightarrow> (\<exists>e0 w. e = e0 * 2 ^ ex_nbits st + w \<and> w < 2 ^ ex_nbits st
     \<and> ex_wbits st = w * 2 ^ (wsize - ex_nbits st) \<and> ex_nbits st < wsize \<and> rep (ex_X st) (a ^ e0)
     \<and> (if ex_state st = 2 then 0 < ex_nbits st \<and> 2 ^ (ex_nbits st - 1) \<le> w
        else ex_nbits st = 0 \<and> (if ex_state st = 0 then e = 0 else ex_state st = 1)))"

lemma window_bits: "k < wsize \<Longrightarrow> ei \<le> 1 \<Longrightarrow> w * 2 ^ (wsize - k) OR push_bit (wsize - Suc k) ei = (2 * w + ei) * 2 ^ (wsize - Suc k)" for ei :: nat
proof -
  assume k: "k < wsize" and ei: "ei \<le> 1"
  have "wsize - k = Suc (wsize - Suc k)" using k by simp
  then have "w * 2 ^ (wsize - k) = 2 * w * 2 ^ (wsize - Suc k)" by (simp only: power_Suc)
  then have "w * 2 ^ (wsize - k) = push_bit (wsize - Suc k) (2 * w)" by (simp only: push_bit_eq_mult)
  moreover have "push_bit (wsize - Suc k) (2 * w) OR push_bit (wsize - Suc k) ei = push_bit (wsize - Suc k) (2 * w OR ei)"
    by (rule push_bit_or [symmetric])
  moreover have "2 * w OR ei = 2 * w + ei"
  proof (cases "ei = 0")
    case False
    then have "ei = 1" using ei by simp
    then show ?thesis by (simp only: or_one_eq) simp
  qed simp
  ultimately show ?thesis by (simp only: push_bit_eq_mult)
qed

lemma exp_bit_ok:
  assumes tab: "table_ok wsize W a" and inv: "window_inv wsize a e st" and ei: "ei \<le> 1"
  shows "\<exists>st'. exp_bit mul wsize W ei st = Inr st' \<and> window_inv wsize a (2 * e + ei) st'"
proof -
  obtain e0 w where i: "e = e0 * 2 ^ ex_nbits st + w" "w < 2 ^ ex_nbits st" "ex_wbits st = w * 2 ^ (wsize - ex_nbits st)"
      "ex_nbits st < wsize" "rep (ex_X st) (a ^ e0)"
      "if ex_state st = 2 then 0 < ex_nbits st \<and> 2 ^ (ex_nbits st - 1) \<le> w
        else ex_nbits st = 0 \<and> (if ex_state st = 0 then e = 0 else ex_state st = 1)"
    using inv unfolding window_inv_def by blast
  have "ei = 0 \<or> ei = 1" "ex_state st = 0 \<or> ex_state st = 1 \<or> ex_state st = 2" using ei i(6) by (auto split: if_splits)
  then consider (skip) "ei = 0" "ex_state st = 0" | (square) "ei = 0" "ex_state st = 1"
    | (add) "ei = 1 \<or> ex_state st = 2" by metis
  then show ?thesis
  proof cases
    case skip
    then show ?thesis using inv i(6) by (auto simp: exp_bit_def)
  next
    case square
    then have nb: "ex_nbits st = 0" "w = 0" "e = e0" using i by auto
    obtain Z where Z: "mul (ex_X st) (ex_X st) = Inr Z" "rep Z (a ^ e0 * a ^ e0)" using mul_rep [OF i(5) i(5)] by blast
    have "window_inv wsize a (2 * e + ei) (st\<lparr>ex_X := Z\<rparr>)"
      unfolding window_inv_def using nb square i(3,4) Z(2) by (intro exI [of _ "2 * e"] exI [of _ 0]) (simp add: mult_2 power_add)
    then show ?thesis using square Z(1) by (simp add: exp_bit_def)
  next
    case add
    let ?k = "ex_nbits st" and ?w = "2 * w + ei"
    have ne: "\<not> (ei = 0 \<and> ex_state st = 0)" "\<not> (ei = 0 \<and> ex_state st = 1)" using add by auto
    have wb: "ex_wbits st OR push_bit (wsize - (?k + 1)) ei = ?w * 2 ^ (wsize - Suc ?k)"
      unfolding i(3) using window_bits [OF i(4) ei] by simp
    have e: "2 * e + ei = e0 * 2 ^ Suc ?k + ?w" unfolding i(1) by (simp add: algebra_simps)
    have w: "?w < 2 ^ Suc ?k" using i(2) ei by simp
    have w': "2 ^ ?k \<le> ?w"
    proof (cases "ex_state st = 2")
      case True
      then have "0 < ?k" "2 ^ (?k - 1) \<le> w" using i(6) by simp_all
      then have "2 ^ ?k \<le> 2 * w" by (cases ?k) simp_all
      then show ?thesis by simp
    next
      case False
      then show ?thesis using add i(6) by simp
    qed
    show ?thesis
    proof (cases "Suc ?k = wsize")
      case True
      obtain Z where Z: "squares mul wsize (ex_X st) = Inr Z" "rep Z ((a ^ e0) ^ 2 ^ wsize)" using squares_ok [OF i(5)] by blast
      have "rep (W ! ?w) (a ^ ?w)" using tab w w' True unfolding table_ok_def by auto
      then obtain Z' where Z': "mul Z (W ! ?w) = Inr Z'" "rep Z' ((a ^ e0) ^ 2 ^ wsize * a ^ ?w)" using mul_rep [OF Z(2)] by blast
      have "(a ^ e0) ^ 2 ^ wsize * a ^ ?w = a ^ (2 * e + ei)" unfolding e True by (simp only: power_add power_mult)
      then have "window_inv wsize a (2 * e + ei) \<lparr>ex_X = Z', ex_nbits = 0, ex_wbits = 0, ex_state = 1\<rparr>"
        unfolding window_inv_def using Z'(2) i(4) by simp
      moreover have "exp_bit mul wsize W ei st = Inr \<lparr>ex_X = Z', ex_nbits = 0, ex_wbits = 0, ex_state = 1\<rparr>"
        using Z(1) Z'(1) wb True ne unfolding exp_bit_def by (simp only: if_False Let_def) simp
      ultimately show ?thesis by blast
    next
      case False
      have "window_inv wsize a (2 * e + ei) (st\<lparr>ex_nbits := Suc ?k, ex_wbits := ?w * 2 ^ (wsize - Suc ?k), ex_state := 2\<rparr>)"
        unfolding window_inv_def using e w w' i(4,5) False by (intro exI [of _ e0] exI [of _ ?w]) simp
      moreover have "exp_bit mul wsize W ei st = Inr (st\<lparr>ex_nbits := Suc ?k, ex_wbits := ?w * 2 ^ (wsize - Suc ?k), ex_state := 2\<rparr>)"
        using wb False ne unfolding exp_bit_def by (simp only: if_False Let_def) simp
      ultimately show ?thesis by blast
    qed
  qed
qed

lemma limb_bit: "i < length E \<Longrightarrow> k < 64 \<Longrightarrow>
    limbs_val E div 2 ^ (64 * i + k) = 2 * (limbs_val E div 2 ^ (64 * i + Suc k)) + unat (drop_bit k (E ! i) AND 1)"
proof -
  assume i: "i < length E" and k: "k < 64"
  define v x where "v = limbs_val E div 2 ^ (64 * i)" and "x = unat (E ! i)"
  have v: "v = x + 2 ^ 64 * limbs_val (drop (Suc i) E)" using limb_at [OF i] i by (simp add: v_def x_def limbs_val_drop)
  have "limbs_val E div 2 ^ (64 * i + k) = v div 2 ^ k" by (simp add: v_def div_mult2_eq power_add)
  moreover have "limbs_val E div 2 ^ (64 * i + Suc k) = v div 2 ^ k div 2"
    by (simp add: v_def power_add ac_simps flip: div_mult2_eq)
  moreover have "v div 2 ^ k mod 2 = x div 2 ^ k mod 2"
  proof -
    have "(2 :: nat) ^ 64 = 2 ^ k * (2 * 2 ^ (63 - k))" using k by (simp flip: power_Suc power_add)
    then have "v = x + 2 ^ k * (2 * (2 ^ (63 - k) * limbs_val (drop (Suc i) E)))" unfolding v by (simp only: mult.assoc)
    then have "v div 2 ^ k = 2 * (2 ^ (63 - k) * limbs_val (drop (Suc i) E)) + x div 2 ^ k" by simp
    then show ?thesis by simp
  qed
  moreover have "unat (drop_bit k (E ! i) AND 1) = x div 2 ^ k mod 2"
    by (simp only: unsigned_and_eq unat_drop_bit x_def) (simp add: and_one_eq)
  ultimately show ?thesis by (metis mult_div_mod_eq)
qed

lemma exp_loop_ok:
  assumes tab: "table_ok wsize W a"
  shows "window_inv wsize a (limbs_val E div 2 ^ (64 * nb + bs)) st \<Longrightarrow> bs \<le> 64 \<Longrightarrow> (if bs = 0 then nb \<le> length E else nb < length E) \<Longrightarrow>
    \<exists>st'. exp_loop mul wsize W E nb bs st = Inr st' \<and> window_inv wsize a (limbs_val E) st'"
proof (induction "64 * nb + bs" arbitrary: nb bs st rule: less_induct)
  case less
  show ?case
  proof (cases "bs = 0 \<and> nb = 0")
    case True
    then show ?thesis using less.prems by (subst exp_loop.simps) simp
  next
    case False
    define nb' bs' where "nb' = (if bs = 0 then nb - 1 else nb)" and "bs' = (if bs = 0 then 63 else bs - 1)"
    have b: "nb' < length E" "bs' < 64" "64 * nb' + Suc bs' = 64 * nb + bs" "64 * nb' + bs' < 64 * nb + bs"
      using False less.prems(2,3) by (auto simp: nb'_def bs'_def split: if_splits)
    define ei where "ei = unat (drop_bit bs' (E ! nb') AND 1)"
    have "ei \<le> 1" unfolding ei_def by (simp only: unsigned_and_eq) (simp add: and_one_eq)
    then obtain st1 where st1: "exp_bit mul wsize W ei st = Inr st1" "window_inv wsize a (2 * (limbs_val E div 2 ^ (64 * nb + bs)) + ei) st1"
      using exp_bit_ok [OF tab less.prems(1)] by blast
    have "2 * (limbs_val E div 2 ^ (64 * nb + bs)) + ei = limbs_val E div 2 ^ (64 * nb' + bs')"
      unfolding limb_bit [OF b(1,2)] b(3) ei_def ..
    then obtain st2 where "exp_loop mul wsize W E nb' bs' st1 = Inr st2" "window_inv wsize a (limbs_val E) st2"
    proof -
      have "if bs' = 0 then nb' \<le> length E else nb' < length E" using b(1) by simp
      moreover have "bs' \<le> 64" using b(2) by simp
      ultimately show ?thesis using that less.hyps [OF b(4), of st1] st1(2)
        unfolding \<open>2 * (limbs_val E div 2 ^ (64 * nb + bs)) + ei = limbs_val E div 2 ^ (64 * nb' + bs')\<close> by blast
    qed
    moreover have "exp_loop mul wsize W E nb bs st = bind_res (exp_bit mul wsize W ei st) (exp_loop mul wsize W E nb' bs')"
      using False by (subst exp_loop.simps) (auto simp: nb'_def bs'_def ei_def Let_def)
    ultimately show ?thesis using st1(1) by simp
  qed
qed

lemma exp_tail_ok:
  assumes "rep W1 a"
  shows "rep X (a ^ e) \<Longrightarrow> k \<le> wsize \<Longrightarrow>
    \<exists>Z. exp_tail mul wsize W1 k wb X = Inr Z \<and> rep Z (a ^ (e * 2 ^ k + wb div 2 ^ (wsize - k) mod 2 ^ k))"
proof (induction k arbitrary: X e wb)
  case 0
  then show ?case by simp
next
  case (Suc k)
  define b where "b = wb div 2 ^ (wsize - 1) mod 2"
  obtain Y where Y: "mul X X = Inr Y" "rep Y (a ^ e * a ^ e)" using mul_rep [OF Suc.prems(1,1)] by blast
  have w: "wsize - 1 = k + (wsize - Suc k)" "wsize = Suc (wsize - 1)" using Suc.prems(2) by simp_all
  have bit: "push_bit 1 wb AND push_bit wsize 1 \<noteq> 0 \<longleftrightarrow> b = 1"
  proof -
    have "push_bit 1 wb AND push_bit wsize 1 = (0 :: nat) \<longleftrightarrow> \<not> bit (push_bit 1 wb) wsize"
      by (simp add: push_bit_eq_mult and_exp_eq_0_iff_not_bit)
    also have "\<dots> \<longleftrightarrow> \<not> bit wb (wsize - 1)" using Suc.prems(2) by (simp only: bit_push_bit_iff_nat) simp
    also have "\<dots> \<longleftrightarrow> b \<noteq> 1" by (simp add: b_def bit_iff_odd odd_iff_mod_2_eq_one)
    finally show ?thesis by simp
  qed
  have "\<exists>Y'. (if push_bit 1 wb AND push_bit wsize 1 \<noteq> 0 then mul Y W1 else Inr Y) = Inr Y' \<and> rep Y' (a ^ (2 * e + b))"
  proof (cases "b = 1")
    case True
    have "a ^ e * a ^ e * a = a ^ (2 * e + b)" unfolding True by (simp add: mult_2 power_add)
    then show ?thesis using mul_rep [OF Y(2) assms] bit True by metis
  next
    case False
    then have "b = 0" by (simp add: b_def)
    then have "a ^ e * a ^ e = a ^ (2 * e + b)" by (simp add: mult_2 power_add)
    then show ?thesis using Y(2) bit False by auto
  qed
  then obtain Y' where Y': "(if push_bit 1 wb AND push_bit wsize 1 \<noteq> 0 then mul Y W1 else Inr Y) = Inr Y'" "rep Y' (a ^ (2 * e + b))" by blast
  obtain Z where Z: "exp_tail mul wsize W1 k (push_bit 1 wb) Y' = Inr Z"
      "rep Z (a ^ ((2 * e + b) * 2 ^ k + push_bit 1 wb div 2 ^ (wsize - k) mod 2 ^ k))"
    using Suc.IH [OF Y'(2), of "push_bit 1 wb"] Suc.prems(2) by auto
  define v where "v = wb div 2 ^ (wsize - Suc k)"
  have "push_bit 1 wb div 2 ^ (wsize - k) = v"
  proof -
    have "wsize - k = Suc (wsize - Suc k)" using Suc.prems(2) by simp
    then show ?thesis by (simp add: v_def push_bit_eq_mult)
  qed
  moreover have "b = v div 2 ^ k mod 2"
  proof -
    have "(2 :: nat) ^ (wsize - 1) = 2 ^ (wsize - Suc k) * 2 ^ k" unfolding w(1) power_add by (rule mult.commute)
    then show ?thesis unfolding b_def v_def by (simp only: div_mult2_eq)
  qed
  moreover have "v mod 2 ^ Suc k = v div 2 ^ k mod 2 * 2 ^ k + v mod 2 ^ k"
    unfolding power_Suc2 mod_mult2_eq [of v "2 ^ k" 2] by (simp only: mult.commute)
  ultimately have "(2 * e + b) * 2 ^ k + push_bit 1 wb div 2 ^ (wsize - k) mod 2 ^ k = e * 2 ^ Suc k + v mod 2 ^ Suc k"
    by (simp add: algebra_simps)
  then show ?case using Y(1) Y'(1) Z by (simp add: Let_def v_def)
qed

lemma exponent_ok:
  assumes tab: "table_ok wsize W a" and X: "rep X 1" and w: "1 \<le> wsize"
  shows "\<exists>st Z. exp_loop mul wsize W E (length E) 0 \<lparr>ex_X = X, ex_nbits = 0, ex_wbits = 0, ex_state = 0\<rparr> = Inr st
    \<and> exp_tail mul wsize (W ! 1) (ex_nbits st) (ex_wbits st) (ex_X st) = Inr Z \<and> rep Z (a ^ limbs_val E)"
proof -
  have "limbs_val E div 2 ^ (64 * length E + 0) = 0" using limbs_val_bound [of E] by simp
  then have "window_inv wsize a (limbs_val E div 2 ^ (64 * length E + 0)) \<lparr>ex_X = X, ex_nbits = 0, ex_wbits = 0, ex_state = 0\<rparr>"
    using X w by (auto simp: window_inv_def)
  then obtain st where st: "exp_loop mul wsize W E (length E) 0 \<lparr>ex_X = X, ex_nbits = 0, ex_wbits = 0, ex_state = 0\<rparr> = Inr st"
      "window_inv wsize a (limbs_val E) st"
    using exp_loop_ok [OF tab, of E "length E" 0] by auto
  obtain e0 w where i: "limbs_val E = e0 * 2 ^ ex_nbits st + w" "w < 2 ^ ex_nbits st" "ex_wbits st = w * 2 ^ (wsize - ex_nbits st)"
      "ex_nbits st < wsize" "rep (ex_X st) (a ^ e0)"
    using st(2) unfolding window_inv_def by blast
  have "rep (W ! 1) a" using tab by (simp add: table_ok_def)
  then show ?thesis using exp_tail_ok [OF _ i(5), of "W ! 1" "ex_nbits st" wsize "ex_wbits st"] i(1-4) st(1) by auto
qed

end

end
