(* ===== verification/Mpi_Mont.thy ===== *)
theory Mpi_Mont
  imports Mpi_Window
begin

text \<open>
  Montgomery multiplication (\<open>mpi_montg_init\<close>, \<open>mpi_montmul\<close>, \<open>mpi_montred\<close> in \<open>bignum.c\<close>).  It stays inside its
  scratch number, and it obeys the contract the windows need for numbers in Montgomery form.
\<close>

section \<open>Montgomery multiplication\<close>

function newton_loop :: "nat \<Rightarrow> u64 \<Rightarrow> u64 \<Rightarrow> u64" where
  "newton_loop i m0 x = (if i \<ge> 8 then newton_loop (i div 2) m0 (x * (2 - m0 * x)) else x)"
  by pat_completeness auto
termination
  by (relation "measure (\<lambda>(i, m0, x). i)") auto

declare newton_loop.simps [simp del]

definition montg_init :: "limbs \<Rightarrow> u64" where
  "montg_init N =
     (let m0 = N ! 0; x = m0 + push_bit 1 ((m0 + 2) AND 4); x = newton_loop 64 m0 x in NOT x + 1)"

text \<open>The loop over the limbs of \<open>A\<close>; \<open>d\<close> is \<open>T\<close> from index \<open>i\<close> on.\<close>

fun montmul_loop :: "limbs \<Rightarrow> limbs \<Rightarrow> u64 \<Rightarrow> limbs \<Rightarrow> nat \<Rightarrow> limbs \<Rightarrow> limbs res" where
  "montmul_loop B N mm [] i T = Inr T"
| "montmul_loop B N mm (u0 # us) i T =
     (let d = drop i T; u1 = (d ! 0 + u0 * B ! 0) * mm in
      bind_res (mpi_mul_hlp (take (length N) B) d u0) (\<lambda>d.
      bind_res (mpi_mul_hlp N d u1) (\<lambda>d.
      if length T \<le> i + length N + 2 then Inl UB
      else montmul_loop B N mm us (Suc i) ((take i T @ d)[i := u0, i + length N + 2 := 0]))))"

text \<open>
  \<open>tn\<close> is the number of limbs of the scratch number \<open>T\<close>.  The subtraction of the other branch only takes the
  same time; it must not leave \<open>T\<close>.
\<close>

definition montmul :: "mpi \<Rightarrow> mpi \<Rightarrow> mpi \<Rightarrow> u64 \<Rightarrow> nat \<Rightarrow> mpi res" where
  "montmul A B N mm tn =
     (let n = length (mpi_p N) in
      if length (mpi_p A) < n + 1 \<or> n > 0 \<and> mpi_p B = [] then Inl UB
      else bind_res (montmul_loop (mpi_p B) (mpi_p N) mm (take n (mpi_p A)) 0 (replicate tn 0)) (\<lambda>T.
        if length T < 2 * n + 1 then Inl UB
        else
          let A = A\<lparr>mpi_p := take (n + 1) (drop n T) @ drop (n + 1) (mpi_p A)\<rparr> in
          if mpi_cmp_abs A N \<ge> 0 then bind_res (mpi_sub_hlp (mpi_p N) (mpi_p A)) (\<lambda>p. Inr (A\<lparr>mpi_p := p\<rparr>))
          else bind_res (mpi_sub_hlp (take n (mpi_p A)) T) (\<lambda>T. Inr A)))"

definition montred :: "mpi \<Rightarrow> mpi \<Rightarrow> u64 \<Rightarrow> nat \<Rightarrow> mpi res" where
  "montred A N mm tn = montmul A \<lparr>mpi_s = 1, mpi_p = [1]\<rparr> N mm tn"

section \<open>The inverse of the modulus\<close>

lemma newton_step: "1 - m * (x * (2 - m * x)) = (1 - m * x) * (1 - m * x)" for m x :: u64
  by (simp add: algebra_simps)

lemma base_zero: "(2 :: u64) ^ 64 = 0"
  using word_exp_length_eq_0 [where 'a = 64] by simp

lemma newton_loop_ok:
  assumes "1 - m0 * x = 16 * c"
  shows "m0 * newton_loop 64 m0 x = 1"
proof -
  define f where "f = (\<lambda>x :: u64. x * (2 - m0 * x))"
  have f: "1 - m0 * f y = (1 - m0 * y) * (1 - m0 * y)" for y unfolding f_def by (rule newton_step)
  have "newton_loop 64 m0 x = f (f (f (f x)))" by (simp add: newton_loop.simps f_def)
  moreover have "1 - m0 * f (f (f (f x))) = 0"
  proof -
    have s1: "1 - m0 * f x = 2 ^ 8 * (c * c)" unfolding f assms by (simp add: algebra_simps)
    have s2: "1 - m0 * f (f x) = 2 ^ 16 * (c * c * (c * c))" unfolding f [of "f x"] s1 by (simp add: algebra_simps)
    have s3: "1 - m0 * f (f (f x)) = 2 ^ 32 * (c * c * (c * c) * (c * c * (c * c)))"
      unfolding f [of "f (f x)"] s2 by (simp add: algebra_simps)
    define d where "d = c * c * (c * c) * (c * c * (c * c))"
    have "1 - m0 * f (f (f (f x))) = 2 ^ 64 * (d * d)"
      unfolding f [of "f (f (f x))"] s3 d_def [symmetric] by (simp add: algebra_simps)
    then show ?thesis by (simp only: base_zero mult_zero_left)
  qed
  ultimately show ?thesis by simp
qed

lemma and_4: "x AND 4 = (if bit x 2 then 4 else 0)" for x :: u64
proof (rule bit_word_eqI)
  fix k
  have "bit (4 :: u64) k \<longleftrightarrow> k = 2" if "k < 64" using that bit_exp_iff [where 'a = u64, of 2 k] by auto
  then show "bit (x AND 4) k \<longleftrightarrow> bit (if bit x 2 then 4 else 0 :: u64) k" if "k < LENGTH(64)" using that by (auto simp: bit_and_iff)
qed

lemma newton_start:
  fixes m0 :: u64
  assumes "odd m0"
  shows "\<exists>c. 1 - m0 * (m0 + push_bit 1 ((m0 + 2) AND 4)) = 16 * c"
proof -
  define n r where "n = unat m0 div 8" and "r = unat m0 mod 8"
  have m: "m0 = word_of_nat (8 * n + r)" by (simp add: n_def r_def)
  have "odd (unat m0)" using assms by (simp add: bit_unsigned_iff flip: bit_0)
  then have "odd r" "r < 8" by (simp_all add: r_def odd_iff_mod_2_eq_one mod_mod_cancel)
  then have r: "r = 1 \<or> r = 3 \<or> r = 5 \<or> r = 7" by presburger
  have b: "bit (m0 + 2) 2 \<longleftrightarrow> odd ((8 * n + r + 2) div 4)"
  proof -
    have "m0 + 2 = word_of_nat (8 * n + r + 2)" by (simp add: m)
    then show ?thesis by (simp only: bit_of_nat_iff) (simp add: bit_iff_odd)
  qed
  define q where "q = (word_of_nat n :: u64)"
  have q: "m0 = 8 * q + word_of_nat r" by (simp add: m q_def)
  from r show ?thesis
  proof (elim disjE)
    assume r: "r = 1"
    then have "even ((8 * n + r + 2) div 4)" by presburger
    then have "1 - m0 * (m0 + push_bit 1 ((m0 + 2) AND 4)) = 16 * (- (4 * q * q + q))"
      unfolding and_4 using b by (simp add: q r algebra_simps)
    then show ?thesis by blast
  next
    assume r: "r = 7"
    then have "even ((8 * n + r + 2) div 4)" by presburger
    then have "1 - m0 * (m0 + push_bit 1 ((m0 + 2) AND 4)) = 16 * (- (4 * q * q + 7 * q + 3))"
      unfolding and_4 using b by (simp add: q r algebra_simps)
    then show ?thesis by blast
  next
    assume r: "r = 3"
    then have "odd ((8 * n + r + 2) div 4)" by presburger
    then have "1 - m0 * (m0 + push_bit 1 ((m0 + 2) AND 4)) = 16 * (- (4 * q * q + 7 * q + 2))"
      unfolding and_4 using b by (simp add: q r algebra_simps push_bit_eq_mult)
    then show ?thesis by blast
  next
    assume r: "r = 5"
    then have "odd ((8 * n + r + 2) div 4)" by presburger
    then have "1 - m0 * (m0 + push_bit 1 ((m0 + 2) AND 4)) = 16 * (- (4 * q * q + 9 * q + 4))"
      unfolding and_4 using b by (simp add: q r algebra_simps push_bit_eq_mult)
    then show ?thesis by blast
  qed
qed

lemma montg_init_ok:
  assumes "odd (N ! 0)"
  shows "N ! 0 * montg_init N = - 1"
proof -
  obtain c where "1 - N ! 0 * (N ! 0 + push_bit 1 ((N ! 0 + 2) AND 4)) = 16 * c" using newton_start [OF assms] by blast
  from newton_loop_ok [OF this] show ?thesis by (simp add: montg_init_def Let_def not_eq_complement)
qed

section \<open>One multiplication, by value\<close>

lemma limbs_head_word: "xs \<noteq> [] \<Longrightarrow> word_of_nat (limbs_val xs) = xs ! 0" for xs :: limbs
proof (cases xs)
  case (Cons x ys)
  have "(word_of_nat (2 ^ 64 * limbs_val ys) :: u64) = 2 ^ 64 * word_of_nat (limbs_val ys)" by (simp only: of_nat_mult of_nat_power of_nat_numeral)
  then have "(word_of_nat (2 ^ 64 * limbs_val ys) :: u64) = 0" by (simp only: base_zero mult_zero_left)
  then show ?thesis using Cons by (simp only: limbs_val.simps of_nat_add) simp
qed simp

lemma limb_zero_above: "limbs_val xs < 2 ^ (64 * k) \<Longrightarrow> k < length xs \<Longrightarrow> xs[k := 0] = xs"
  using no_limbs_above [of xs k] limb_at [of k xs] by (simp add: list_update_id unat_eq_0) (metis list_update_id)

lemma limbs_below: "limbs_val xs < 2 ^ (64 * k) \<Longrightarrow> k \<le> length xs \<Longrightarrow> limbs_val (take k xs) = limbs_val xs"
  by (simp add: limbs_val_take)

lemma two_bases: "(2 :: nat) ^ (64 * (n + 2)) = 2 ^ 64 * (2 ^ 64 * 2 ^ (64 * n))"
  by (simp add: power_add)

text \<open>One round: \<open>d\<close> becomes \<open>d + u0 B + u1 N\<close>, which the base divides.\<close>

lemma montmul_round:
  fixes u0 :: u64
  assumes N: "0 < length N" "limbs_val N = M" and mm: "N ! 0 * mm = - 1"
    and B: "B \<noteq> []" "limbs_val B \<le> M" and d: "length N + 2 < length d" "limbs_val d < limbs_val B + M"
  defines "u1 \<equiv> (d ! 0 + u0 * B ! 0) * mm"
  shows "\<exists>d1 d2. mpi_mul_hlp (take (length N) B) d u0 = Inr d1 \<and> mpi_mul_hlp N d1 u1 = Inr d2 \<and> length d2 = length d
    \<and> limbs_val d2 = limbs_val d + unat u0 * limbs_val B + unat u1 * M \<and> 2 ^ 64 dvd limbs_val d2
    \<and> limbs_val d2 div 2 ^ 64 < limbs_val B + M"
proof -
  let ?n = "length N" and ?b = "limbs_val B" and ?v = "limbs_val d"
  have M: "M < 2 ^ (64 * ?n)" using limbs_val_bound [of N] N(2) by simp
  have tB: "limbs_val (take ?n B) = ?b"
  proof (cases "?n \<le> length B")
    case True
    then show ?thesis using B(2) M by (intro limbs_below) simp_all
  qed simp
  have S: "?v + unat u * ?b + unat w * M < 2 ^ 64 * (?b + M)" for u w :: u64
  proof -
    have "unat u * ?b \<le> (2 ^ 64 - 1) * ?b" "unat w * M \<le> (2 ^ 64 - 1) * M"
      using limb_bound [of u] limb_bound [of w] by (intro mult_le_mono1, simp)+
    then have "?v + unat u * ?b + unat w * M < (?b + M) + (2 ^ 64 - 1) * ?b + (2 ^ 64 - 1) * M" using d(2) by linarith
    then show ?thesis by simp
  qed
  have "2 ^ 64 * (?b + M) \<le> 2 ^ 64 * (2 ^ 64 * 2 ^ (64 * ?n))" using B(2) M by simp
  also have "\<dots> \<le> 2 ^ (64 * length d)" unfolding two_bases [symmetric] using d(1) by (intro power_increasing) simp_all
  finally have L: "2 ^ 64 * (?b + M) \<le> 2 ^ (64 * length d)" .
  have "?v + ?b * unat u0 < 2 ^ (64 * length d)" using S [of u0 0] L by (simp add: mult.commute)
  then obtain d1 where d1: "mpi_mul_hlp (take ?n B) d u0 = Inr d1" "length d1 = length d" "limbs_val d1 = ?v + ?b * unat u0"
  proof -
    have "length (take ?n B) < length d" using d(1) by (simp add: min_def)
    then show ?thesis
      using that mpi_mul_hlp_ok [of "take ?n B" d u0] tB \<open>?v + ?b * unat u0 < 2 ^ (64 * length d)\<close> by auto
  qed
  have "limbs_val d1 + M * unat u1 < 2 ^ (64 * length d)" using S [of u0 u1] L d1(3) by (simp add: mult.commute)
  then obtain d2 where d2: "mpi_mul_hlp N d1 u1 = Inr d2" "length d2 = length d" "limbs_val d2 = ?v + unat u0 * ?b + unat u1 * M"
    using mpi_mul_hlp_ok [of N d1 u1] N(2) d(1) d1(2,3) by (auto simp: mult.commute)
  have "(word_of_nat (limbs_val d2) :: u64) = d ! 0 + u0 * B ! 0 + u1 * N ! 0"
  proof -
    have "d \<noteq> []" "N \<noteq> []" using d(1) N(1) by auto
    then have "word_of_nat ?v = d ! 0" "word_of_nat ?b = B ! 0" "word_of_nat M = N ! 0"
      using B(1) N(2) limbs_head_word by auto
    then show ?thesis unfolding d2(3) by simp
  qed
  also have "\<dots> = d ! 0 + u0 * B ! 0 + (d ! 0 + u0 * B ! 0) * (N ! 0 * mm)" unfolding u1_def by (simp add: ac_simps)
  also have "\<dots> = 0" unfolding mm by simp
  finally have "2 ^ 64 dvd limbs_val d2" by (simp add: word_of_nat_eq_0_iff)
  moreover have "limbs_val d2 div 2 ^ 64 < ?b + M"
    using S [of u0 u1] unfolding d2(3) by (intro less_mult_imp_div_less) (simp add: mult.commute)
  ultimately show ?thesis using d1(1) d2 by blast
qed

lemma montmul_loop_ok:
  assumes N: "0 < length N" "limbs_val N = M" and mm: "N ! 0 * mm = - 1" and B: "B \<noteq> []" "limbs_val B \<le> M"
  shows "i + length us = length N \<Longrightarrow> length T = 2 * length N + 2 \<Longrightarrow> limbs_val (drop i T) < limbs_val B + M \<Longrightarrow>
    \<exists>D U. montmul_loop B N mm us i T = Inr (take i T @ us @ D) \<and> length D = length N + 2 \<and> limbs_val D < limbs_val B + M
      \<and> 2 ^ (64 * length us) * limbs_val D = limbs_val (drop i T) + limbs_val us * limbs_val B + U * M"
proof (induction us arbitrary: i T)
  case Nil
  then show ?case by (intro exI [of _ "drop i T"] exI [of _ 0]) simp
next
  case (Cons u0 us)
  define d where "d = drop i T"
  define u1 where "u1 = (d ! 0 + u0 * B ! 0) * mm"
  have i: "i < length N" using Cons.prems(1) by simp
  have dl: "length d = 2 * length N + 2 - i" using Cons.prems(2) by (simp add: d_def)
  have "length N + 2 < length d" "limbs_val d < limbs_val B + M" using dl i Cons.prems(3) by (simp_all add: d_def)
  then obtain d1 d2 where d: "mpi_mul_hlp (take (length N) B) d u0 = Inr d1" "mpi_mul_hlp N d1 u1 = Inr d2" "length d2 = length d"
      "limbs_val d2 = limbs_val d + unat u0 * limbs_val B + unat u1 * M" "2 ^ 64 dvd limbs_val d2"
      "limbs_val d2 div 2 ^ 64 < limbs_val B + M"
    using montmul_round [OF N mm B, of d u0] unfolding u1_def by blast
  obtain x ds where ds: "d2 = x # ds" using d(3) dl i by (cases d2) auto
  have dsv: "limbs_val ds = limbs_val d2 div 2 ^ 64" using limb_bound [of x] by (simp add: ds)
  have low: "limbs_val d2 = 2 ^ 64 * limbs_val ds" unfolding dsv using d(5) by simp
  have "limbs_val B + M \<le> 2 ^ (64 * (length N + 1))"
  proof -
    have "M < 2 ^ (64 * length N)" using limbs_val_bound [of N] N(2) by simp
    then have "limbs_val B + M \<le> 2 ^ 64 * 2 ^ (64 * length N)" using B(2) by simp
    then show ?thesis by (simp add: power_add)
  qed
  then have z: "ds[length N + 1 := 0] = ds"
    using dsv d(3,6) dl i by (intro limb_zero_above) (simp_all add: ds)
  define T1 where "T1 = take i T @ u0 # ds"
  have T1: "(take i T @ d2)[i := u0, i + length N + 2 := 0] = T1"
    using i Cons.prems(2) z by (simp add: T1_def ds list_update_append)
  have T1l: "length T1 = 2 * length N + 2" "drop (Suc i) T1 = ds" "take (Suc i) T1 = take i T @ [u0]"
    using d(3) dl i Cons.prems(2) by (simp_all add: T1_def ds)
  obtain D U where D: "montmul_loop B N mm us (Suc i) T1 = Inr (take (Suc i) T1 @ us @ D)" "length D = length N + 2"
      "limbs_val D < limbs_val B + M" "2 ^ (64 * length us) * limbs_val D = limbs_val ds + limbs_val us * limbs_val B + U * M"
    using Cons.IH [of "Suc i" T1] Cons.prems(1) T1l dsv d(6) by auto
  have "montmul_loop B N mm (u0 # us) i T = Inr (take i T @ (u0 # us) @ D)"
    using d(1,2) T1 D(1) T1l(3) i Cons.prems(2) by (simp add: Let_def d_def [symmetric] u1_def [symmetric])
  moreover have "2 ^ (64 * length (u0 # us)) * limbs_val D
      = limbs_val (drop i T) + limbs_val (u0 # us) * limbs_val B + (unat u1 + 2 ^ 64 * U) * M"
  proof -
    have "2 ^ (64 * length (u0 # us)) * limbs_val D = 2 ^ 64 * (2 ^ (64 * length us) * limbs_val D)" by (simp add: power_add)
    also have "\<dots> = 2 ^ 64 * limbs_val ds + 2 ^ 64 * (limbs_val us * limbs_val B + U * M)" unfolding D(4) by (simp only: distrib_left add.assoc)
    also have "\<dots> = limbs_val d + unat u0 * limbs_val B + unat u1 * M + 2 ^ 64 * (limbs_val us * limbs_val B + U * M)"
      unfolding low [symmetric] d(4) ..
    finally show ?thesis by (simp add: d_def algebra_simps)
  qed
  ultimately show ?case using D(2,3) by blast
qed

lemma odd_limbs: "xs \<noteq> [] \<Longrightarrow> odd (limbs_val xs) \<longleftrightarrow> odd (xs ! 0)"
proof (cases xs)
  case (Cons x ys)
  have "odd (unat x) \<longleftrightarrow> odd x" by (simp add: bit_unsigned_iff flip: bit_0)
  then show ?thesis using Cons by simp
qed simp

lemma montmul_ok:
  fixes A B N :: mpi
  defines "n \<equiv> length (mpi_p N)" and "M \<equiv> limbs_val (mpi_p N)"
  assumes N: "mpi_p N \<noteq> []" "odd (mpi_p N ! 0)" and A: "n < length (mpi_p A)" "limbs_val (mpi_p A) < 2 ^ (64 * n)"
    and B: "mpi_p B \<noteq> []" "limbs_val (mpi_p B) \<le> M"
  shows "\<exists>Z. montmul A B N (montg_init (mpi_p N)) (2 * n + 2) = Inr Z \<and> mpi_s Z = mpi_s A \<and> length (mpi_p Z) = length (mpi_p A)
    \<and> limbs_val (mpi_p Z) < M \<and> 2 ^ (64 * n) * limbs_val (mpi_p Z) mod M = limbs_val (mpi_p A) * limbs_val (mpi_p B) mod M"
proof -
  let ?a = "limbs_val (mpi_p A)" and ?b = "limbs_val (mpi_p B)"
  have n: "0 < n" using N(1) by (simp add: n_def)
  have M: "M < 2 ^ (64 * n)" using limbs_val_bound [of "mpi_p N"] by (simp add: n_def M_def)
  have M0: "0 < M" using odd_limbs [OF N(1)] N(2) odd_pos unfolding M_def by blast
  have us: "limbs_val (take n (mpi_p A)) = ?a" using A by (intro limbs_below) simp_all
  have "limbs_val (drop 0 (replicate (2 * n + 2) 0)) < ?b + M" using M0 by simp
  then obtain D U where D: "montmul_loop (mpi_p B) (mpi_p N) (montg_init (mpi_p N)) (take n (mpi_p A)) 0 (replicate (2 * n + 2) 0)
        = Inr (take n (mpi_p A) @ D)" "length D = n + 2" "limbs_val D < ?b + M" "2 ^ (64 * n) * limbs_val D = ?a * ?b + U * M"
    using montmul_loop_ok [of "mpi_p N" M "montg_init (mpi_p N)" "mpi_p B" 0 "take n (mpi_p A)" "replicate (2 * n + 2) 0"]
      n A(1) B N(2) us montg_init_ok by (auto simp: n_def [symmetric] M_def [symmetric] min_def)
  define d where "d = limbs_val D"
  have d2: "d < 2 * M" using D(3) B(2) by (simp add: d_def)
  have dn: "d < 2 ^ (64 * (n + 1))"
  proof -
    have "2 * M \<le> 2 ^ 64 * 2 ^ (64 * n)" using M by simp
    then show ?thesis using d2 by (simp add: power_add)
  qed
  define p where "p = take (n + 1) D @ drop (n + 1) (mpi_p A)"
  have "limbs_val (drop (n + 1) (mpi_p A)) = 0"
  proof (rule no_limbs_above)
    have "(2 :: nat) ^ (64 * n) \<le> 2 ^ (64 * (n + 1))" by (intro power_increasing) simp_all
    then show "?a < 2 ^ (64 * (n + 1))" using A(2) by linarith
    show "n + 1 \<le> length (mpi_p A)" using A(1) by simp
  qed
  moreover have "limbs_val (take (n + 1) D) = d" unfolding d_def by (rule limbs_below) (use dn D(2) in \<open>simp_all add: d_def\<close>)
  ultimately have p: "limbs_val p = d" "length p = length (mpi_p A)" using A(1) D(2) by (simp_all add: p_def limbs_val_append)
  have mod: "2 ^ (64 * n) * d mod M = ?a * ?b mod M" using D(4) by (simp add: d_def)
  have c: "mpi_cmp_abs (A\<lparr>mpi_p := p\<rparr>) N \<ge> 0 \<longleftrightarrow> M \<le> d" by (simp add: mpi_cmp_abs_val sgn_if p(1) M_def)
  have run: "montmul A B N (montg_init (mpi_p N)) (2 * n + 2)
    = (if M \<le> d then bind_res (mpi_sub_hlp (mpi_p N) p) (\<lambda>p. Inr (A\<lparr>mpi_p := p\<rparr>))
       else bind_res (mpi_sub_hlp (take n p) (take n (mpi_p A) @ D)) (\<lambda>T. Inr (A\<lparr>mpi_p := p\<rparr>)))"
    using D(1,2) A(1) B(1) c unfolding montmul_def Let_def n_def [symmetric] by (simp add: p_def min_def)
  show ?thesis
  proof (cases "M \<le> d")
    case True
    obtain r where r: "mpi_sub_hlp (mpi_p N) p = Inr r" "length r = length p" "limbs_val r = d - M"
      using mpi_sub_hlp_ok [of "mpi_p N" p] A(1) p True by (auto simp: n_def M_def)
    have "2 ^ (64 * n) * (d - M) mod M = 2 ^ (64 * n) * d mod M"
    proof -
      have "2 ^ (64 * n) * d = 2 ^ (64 * n) * (d - M) + 2 ^ (64 * n) * M" using True by (simp flip: distrib_left)
      then show ?thesis by simp
    qed
    then show ?thesis using run True r p d2 mod by simp
  next
    case False
    have "limbs_val (take n p) \<le> limbs_val (take n (mpi_p A) @ D)"
    proof -
      have "limbs_val (take n p) \<le> d" using limbs_val_split [of n p] p A(1) by simp
      also have "d \<le> 2 ^ (64 * n) * d" by simp
      also have "\<dots> \<le> limbs_val (take n (mpi_p A) @ D)" using A(1) by (simp add: limbs_val_append d_def min_def)
      finally show ?thesis .
    qed
    then obtain r where "mpi_sub_hlp (take n p) (take n (mpi_p A) @ D) = Inr r"
    proof -
      have "length (take n p) \<le> length (take n (mpi_p A) @ D)" using A(1) p(2) D(2) by (simp add: min_def)
      then show ?thesis
        using that mpi_sub_hlp_ok [of "take n p" "take n (mpi_p A) @ D"]
          \<open>limbs_val (take n p) \<le> limbs_val (take n (mpi_p A) @ D)\<close> by blast
    qed
    then show ?thesis using run False p mod by simp
  qed
qed

section \<open>Montgomery form\<close>

lemma odd_cancel:
  fixes x y M :: int
  assumes "odd M" "x * 2 ^ k mod M = y * 2 ^ k mod M"
  shows "x mod M = y mod M"
proof -
  have "M dvd (x - y) * 2 ^ k" using assms(2) by (simp add: mod_eq_dvd_iff left_diff_distrib)
  moreover have "coprime M (2 ^ k)" using assms(1) by simp
  ultimately have "M dvd x - y" by (simp add: coprime_dvd_mult_left_iff)
  then show ?thesis by (simp add: mod_eq_dvd_iff)
qed

definition mont_rep :: "mpi \<Rightarrow> mpi \<Rightarrow> int \<Rightarrow> bool" where
  "mont_rep N X a \<longleftrightarrow> mpi_p N \<noteq> [] \<and> odd (mpi_p N ! 0) \<and> length (mpi_p N) + 1 < MPI_MAX_LIMBS
    \<and> mpi_s X = 1 \<and> length (mpi_p N) < length (mpi_p X) \<and> length (mpi_p X) < MPI_MAX_LIMBS
    \<and> limbs_val (mpi_p X) < limbs_val (mpi_p N)
    \<and> int (limbs_val (mpi_p X)) mod int (limbs_val (mpi_p N)) = a * 2 ^ (64 * length (mpi_p N)) mod int (limbs_val (mpi_p N))"

text \<open>A product of two numbers, seen from the Montgomery form.\<close>

lemma mont_product:
  fixes N X Y :: mpi and a :: int
  defines "M \<equiv> int (limbs_val (mpi_p N))" and "R \<equiv> 2 ^ (64 * length (mpi_p N))"
  assumes N: "mpi_p N \<noteq> []" "odd (mpi_p N ! 0)" "length (mpi_p N) + 1 < MPI_MAX_LIMBS"
    and X: "mpi_s X = 1" "length (mpi_p N) < length (mpi_p X)" "length (mpi_p X) < MPI_MAX_LIMBS" "limbs_val (mpi_p X) < limbs_val (mpi_p N)"
    and Y: "mpi_p Y \<noteq> []" "limbs_val (mpi_p Y) \<le> limbs_val (mpi_p N)"
    and prod: "int (limbs_val (mpi_p X)) * int (limbs_val (mpi_p Y)) mod M = a * R * R mod M"
  shows "\<exists>Z. montmul X Y N (montg_init (mpi_p N)) (2 * length (mpi_p N) + 2) = Inr Z \<and> mont_rep N Z a"
proof -
  let ?n = "length (mpi_p N)"
  have xb: "limbs_val (mpi_p X) < 2 ^ (64 * ?n)" using X(4) limbs_val_bound [of "mpi_p N"] by linarith
  obtain Z where Z: "montmul X Y N (montg_init (mpi_p N)) (2 * ?n + 2) = Inr Z" "mpi_s Z = mpi_s X" "length (mpi_p Z) = length (mpi_p X)"
      "limbs_val (mpi_p Z) < limbs_val (mpi_p N)"
      "2 ^ (64 * ?n) * limbs_val (mpi_p Z) mod limbs_val (mpi_p N) = limbs_val (mpi_p X) * limbs_val (mpi_p Y) mod limbs_val (mpi_p N)"
    using montmul_ok [OF N(1,2) X(2) xb Y] by blast
  have "int (2 ^ (64 * ?n) * limbs_val (mpi_p Z) mod limbs_val (mpi_p N)) = int (limbs_val (mpi_p X) * limbs_val (mpi_p Y) mod limbs_val (mpi_p N))"
    using Z(5) by (rule arg_cong)
  then have "R * int (limbs_val (mpi_p Z)) mod M = int (limbs_val (mpi_p X)) * int (limbs_val (mpi_p Y)) mod M"
    by (simp only: zmod_int of_nat_mult of_nat_power of_nat_numeral R_def M_def)
  then have "int (limbs_val (mpi_p Z)) * R mod M = a * R * R mod M"
    unfolding prod by (simp only: mult.commute [of "int (limbs_val (mpi_p Z))" R])
  then have e: "int (limbs_val (mpi_p Z)) * 2 ^ (64 * ?n) mod M = a * R * 2 ^ (64 * ?n) mod M" by (simp only: R_def)
  have "odd M" using odd_limbs [OF N(1)] N(2) by (simp add: M_def)
  from odd_cancel [OF this e] have "int (limbs_val (mpi_p Z)) mod M = a * R mod M" .
  then show ?thesis using Z(1-4) N X by (simp add: mont_rep_def M_def R_def)
qed

lemma copy_small:
  assumes "mpi_p Y \<noteq> []" "limbs_val (mpi_p Y) < 2 ^ (64 * k)" "0 < k" "k \<le> length (mpi_p X)" "length (mpi_p X) \<le> MPI_MAX_LIMBS"
  shows "\<exists>Z. mpi_copy X Y = ok Z \<and> mpi_s Z = mpi_s Y \<and> limbs_val (mpi_p Z) = limbs_val (mpi_p Y) \<and> length (mpi_p Z) = length (mpi_p X)"
proof -
  define i where "i = last_nonzero (mpi_p Y) (length (mpi_p Y) - 1) + 1"
  have u: "i = max 1 (used_limbs (mpi_p Y) (length (mpi_p Y)))"
    using last_nonzero_used [of "length (mpi_p Y) - 1" "mpi_p Y"] assms(1) by (cases "mpi_p Y") (auto simp: i_def)
  have "i \<le> k" unfolding u using used_limbs_bound [OF assms(2)] assms(3) by simp
  moreover have "i \<le> length (mpi_p Y)" unfolding u using used_limbs_le [of "mpi_p Y" "length (mpi_p Y)"] assms(1)
    by (cases "mpi_p Y") auto
  ultimately show ?thesis
    using assms limbs_val_last [OF assms(1)] unfolding mpi_copy_def Let_def i_def [symmetric]
    by (auto simp: mpi_grow_ok limbs_val_append)
qed

interpretation mont: multiplication "\<lambda>X Y. montmul X Y N (montg_init (mpi_p N)) (2 * length (mpi_p N) + 2)" "mont_rep N" "length (mpi_p N)" for N
proof unfold_locales
  fix X Y :: mpi and a c :: int
  let ?M = "int (limbs_val (mpi_p N))" and ?R = "2 ^ (64 * length (mpi_p N)) :: int"
  assume X: "mont_rep N X a" and Y: "mont_rep N Y c"
  have "int (limbs_val (mpi_p X)) * int (limbs_val (mpi_p Y)) mod ?M = (a * ?R) * (c * ?R) mod ?M"
    using X Y unfolding mont_rep_def by (metis mod_mult_cong)
  also have "(a * ?R) * (c * ?R) = a * c * ?R * ?R" by (simp only: ac_simps)
  finally show "\<exists>Z. montmul X Y N (montg_init (mpi_p N)) (2 * length (mpi_p N) + 2) = Inr Z \<and> mont_rep N Z (a * c)"
    using X Y by (intro mont_product) (auto simp: mont_rep_def)
next
  fix Y V :: mpi and a :: int
  assume Y: "mont_rep N Y a" and V: "mpi_p V = []"
  let ?V = "V\<lparr>mpi_p := replicate (length (mpi_p N) + 1) 0\<rparr>"
  have g: "mpi_grow V (length (mpi_p N) + 1) = ok ?V" using V Y by (simp add: mpi_grow_ok mont_rep_def)
  have "limbs_val (mpi_p Y) < 2 ^ (64 * length (mpi_p N))"
    using Y limbs_val_bound [of "mpi_p N"] unfolding mont_rep_def by linarith
  then obtain Z where "mpi_copy ?V Y = ok Z" "mpi_s Z = mpi_s Y" "limbs_val (mpi_p Z) = limbs_val (mpi_p Y)" "length (mpi_p Z) = length (mpi_p N) + 1"
    using copy_small [of Y "length (mpi_p N)" ?V] Y by (fastforce simp: mont_rep_def)
  then show "\<exists>V1 Z. mpi_grow V (length (mpi_p N) + 1) = ok V1 \<and> mpi_copy V1 Y = ok Z \<and> mont_rep N Z a"
    using g Y by (auto simp: mont_rep_def)
qed

end
