(* ===== verification/Mpi_Exp.thy ===== *)
theory Mpi_Exp
  imports Mpi_Mont
begin

text \<open>
  Modular exponentiation (\<open>mbedtls_mpi_exp_mod\<close> in \<open>bignum.c\<close>), and the proof that it gives the residue of the
  power.
\<close>

section \<open>Exponentiation\<close>

text \<open>\<open>R^2 mod N\<close>.\<close>

definition exp_rr :: "mpi \<Rightarrow> mpi crun" where
  "exp_rr N =
     crun_bind (Some (mpi_lset mpi_init 1)) (\<lambda>RR.
     crun_bind (Some (mpi_shift_l RR (length (mpi_p N) * 2 * 64))) (\<lambda>RR.
     mpi_mod_mpi RR RR N))"

text \<open>
  \<open>X\<close> is neither \<open>E\<close> nor \<open>N\<close>.  \<open>RRo\<close> is the argument that keeps \<open>R^2 mod N\<close> between calls; its content afterwards is
  returned.  An entry of \<open>W\<close> that has not been set is all zero.
\<close>

definition exp_mod :: "mpi \<Rightarrow> mpi \<Rightarrow> mpi \<Rightarrow> mpi \<Rightarrow> mpi option \<Rightarrow> (mpi \<times> mpi option) crun" where
  "exp_mod X A E N RRo =
     (if mpi_cmp_int N 0 < 0 then Some (fail ERR_MPI_BAD_INPUT_DATA)
      else if mpi_p N = [] then Some (Inl UB)
      else if mpi_p N ! 0 AND 1 = 0 then Some (fail ERR_MPI_BAD_INPUT_DATA)
      else if mpi_cmp_int E 0 < 0 then Some (fail ERR_MPI_BAD_INPUT_DATA)
      else
        let mm = montg_init (mpi_p N); wsize = window_size (mpi_bitlen E); n = length (mpi_p N); j = n + 1 in
        crun_bind (Some (mpi_grow X j)) (\<lambda>X.
        crun_bind (Some (mpi_grow \<lparr>mpi_s = 0, mpi_p = []\<rparr> j)) (\<lambda>W1.
        crun_bind (Some (mpi_grow mpi_init (j * 2))) (\<lambda>T.
        let mul = (\<lambda>X Y. montmul X Y N mm (length (mpi_p T))); neg = (mpi_s A = - 1) in
        crun_bind (Some (if neg then chk_bind (mpi_copy mpi_init A) (\<lambda>P. ok (P\<lparr>mpi_s := 1\<rparr>)) else ok A)) (\<lambda>A.
        crun_bind (case RRo of None \<Rightarrow> exp_rr N | Some RR \<Rightarrow> if mpi_p RR = [] then exp_rr N else done_with RR) (\<lambda>RR.
        crun_bind (if mpi_cmp_mpi A N \<ge> 0 then mpi_mod_mpi W1 A N else Some (mpi_copy W1 A)) (\<lambda>W1.
        crun_bind (Some (chk_res (mul W1 RR))) (\<lambda>W1.
        crun_bind (Some (mpi_copy X RR)) (\<lambda>X.
        crun_bind (Some (chk_res (montred X N mm (length (mpi_p T))))) (\<lambda>X.
        crun_bind (Some (exp_table mul n wsize ((replicate 128 \<lparr>mpi_s = 0, mpi_p = []\<rparr>)[1 := W1]))) (\<lambda>W.
        crun_bind (Some (chk_res (exp_loop mul wsize W (mpi_p E) (length (mpi_p E)) 0
          \<lparr>ex_X = X, ex_nbits = 0, ex_wbits = 0, ex_state = 0\<rparr>))) (\<lambda>st.
        crun_bind (Some (chk_res (exp_tail mul wsize (W ! 1) (ex_nbits st) (ex_wbits st) (ex_X st)))) (\<lambda>X.
        crun_bind (Some (chk_res (montred X N mm (length (mpi_p T))))) (\<lambda>X.
        crun_bind (Some (if neg then mpi_add_mpi X_is_B (X\<lparr>mpi_s := - 1\<rparr>) N (X\<lparr>mpi_s := - 1\<rparr>) else ok X)) (\<lambda>X.
        done_with (X, case RRo of None \<Rightarrow> None | Some _ \<Rightarrow> Some RR))))))))))))))))"

section \<open>Exponentiation, by value\<close>

lemma exp_rr_ok:
  assumes "fits N" "0 < mpi_val N" "2 * length (mpi_p N) + 3 \<le> MPI_MAX_LIMBS"
  shows "\<exists>RR. exp_rr N = done_with RR \<and> mpi_s RR = 1 \<and> mpi_p RR \<noteq> [] \<and> mpi_val RR = (2 ^ (64 * length (mpi_p N))) ^ 2 mod mpi_val N"
proof -
  let ?n = "length (mpi_p N)" and ?I = "\<lparr>mpi_s = 1, mpi_p = [1]\<rparr> :: mpi"
  have l: "mpi_lset mpi_init 1 = ok ?I" by (simp add: mpi_lset_ok mpi_init_def)
  have b: "mpi_bitlen ?I \<le> 1" by (rule bitlen_bound) simp
  have f: "mpi_bitlen ?I + ?n * 2 * 64 \<le> 64 * MPI_MAX_LIMBS" using b assms(3) by simp
  obtain S where S: "mpi_shift_l ?I (?n * 2 * 64) = ok S" "mpi_s S = 1" "limbs_val (mpi_p S) = 2 ^ (?n * 2 * 64)"
      "length (mpi_p S) = max 1 ((mpi_bitlen ?I + ?n * 2 * 64 + 63) div 64)"
    using mpi_shift_l_ok [OF f] by auto
  have "(mpi_bitlen ?I + ?n * 2 * 64 + 63) div 64 \<le> (2 * ?n + 1) * 64 div 64" using b by (intro div_le_mono) simp
  then have sl: "length (mpi_p S) \<le> 2 * ?n + 1" unfolding S(4) by simp
  have sn: "mpi_p S \<noteq> []" using S(4) by auto
  have sv: "mpi_val S = (2 ^ (64 * ?n)) ^ 2" using S(2,3) by (simp add: mpi_val_def ac_simps flip: power_mult)
  have "mpi_wf S" "mpi_wf N" "length (mpi_p N) < MPI_MAX_LIMBS" using S(2) assms(1) by (simp_all add: mpi_wf_def fits_def)
  then obtain RR where RR: "mpi_mod_mpi S S N = done_with RR" "mpi_val RR = mpi_val S mod mpi_val N" "mpi_s RR = 1" "length (mpi_p S) \<le> length (mpi_p RR)"
    using mod_mpi_ok [of S N S] assms(2,3) sl S(2) sn by auto
  have "mpi_p RR \<noteq> []" using RR(4) sn by auto
  then show ?thesis using l S(1) RR sv by (simp add: exp_rr_def mult.commute)
qed

lemma copy_nonempty: "mpi_p Y \<noteq> [] \<Longrightarrow> mpi_copy X Y = ok Z \<Longrightarrow> mpi_p Z \<noteq> []"
  by (auto simp: mpi_copy_def Let_def chk_bind_def split: sum.splits)

text \<open>The base: its residue, in an entry with room for the modulus.\<close>

lemma reduced_base_ok:
  assumes A: "mpi_wf A" "mpi_s A = 1" "mpi_p A \<noteq> []" "length (mpi_p A) + 2 \<le> MPI_MAX_LIMBS"
    and N: "fits N" "0 < mpi_val N" "mpi_p N \<noteq> []" "length (mpi_p N) < length (mpi_p W)" "length (mpi_p W) < MPI_MAX_LIMBS"
  shows "\<exists>W1. (if mpi_cmp_mpi A N \<ge> 0 then mpi_mod_mpi W A N else Some (mpi_copy W A)) = done_with W1
    \<and> mpi_s W1 = 1 \<and> mpi_val W1 = mpi_val A mod mpi_val N \<and> length (mpi_p N) < length (mpi_p W1) \<and> length (mpi_p W1) < MPI_MAX_LIMBS"
proof -
  have wfN: "mpi_wf N" "length (mpi_p N) < MPI_MAX_LIMBS" using N(1) by (simp_all add: fits_def)
  have c: "mpi_cmp_mpi A N \<ge> 0 \<longleftrightarrow> mpi_val N \<le> mpi_val A"
    using mpi_cmp_mpi_val [OF A(1) wfN(1)] by (simp add: sgn_if)
  show ?thesis
  proof (cases "mpi_val N \<le> mpi_val A")
    case True
    then show ?thesis using c mod_mpi_ok [OF A(1) wfN(1) N(2) wfN(2) A(4) N(5)] A(2,3) N(4) by auto
  next
    case False
    have sN: "mpi_s N = 1" using N(2) wfN(1) by (auto simp: mpi_val_def mpi_wf_def)
    have "int (limbs_val (mpi_p A)) < int (limbs_val (mpi_p N))" using False A(2) sN by (simp add: mpi_val_def)
    then have "limbs_val (mpi_p A) < 2 ^ (64 * length (mpi_p N))" using limbs_val_bound [of "mpi_p N"] by linarith
    then obtain W1 where "mpi_copy W A = ok W1" "mpi_s W1 = mpi_s A" "limbs_val (mpi_p W1) = limbs_val (mpi_p A)" "length (mpi_p W1) = length (mpi_p W)"
      using copy_small [OF A(3), of "length (mpi_p N)" W] N(3,4,5) by auto
    moreover have "mpi_val A mod mpi_val N = mpi_val A" using False A(2) by (intro mod_pos_pos_trivial) (simp_all add: mpi_val_def)
    ultimately show ?thesis using c False A(2) N(4,5) by (simp add: mpi_val_def)
  qed
qed

text \<open>Everything between the reduction of the base and the correction of the sign.\<close>

lemma mont_power_ok:
  fixes N :: mpi
  defines "n \<equiv> length (mpi_p N)" and "mm \<equiv> montg_init (mpi_p N)"
  defines "mul \<equiv> \<lambda>X Y. montmul X Y N mm (2 * n + 2)"
  assumes N: "mpi_p N \<noteq> []" "odd (mpi_p N ! 0)" "mpi_s N = 1" "n + 1 < MPI_MAX_LIMBS"
    and RR: "mpi_s RR = 1" "mpi_p RR \<noteq> []" "mpi_val RR = (2 ^ (64 * n)) ^ 2 mod mpi_val N"
    and W: "mpi_s W1 = 1" "mpi_val W1 = a mod mpi_val N" "n < length (mpi_p W1)" "length (mpi_p W1) < MPI_MAX_LIMBS"
    and X: "n < length (mpi_p X)" "length (mpi_p X) < MPI_MAX_LIMBS"
    and ws: "1 \<le> wsize" "wsize \<le> 6"
  shows "\<exists>W2 X1 X2 W3 st X3 X4. mul W1 RR = Inr W2 \<and> mpi_copy X RR = ok X1 \<and> montred X1 N mm (2 * n + 2) = Inr X2
    \<and> exp_table mul n wsize ((replicate 128 \<lparr>mpi_s = 0, mpi_p = []\<rparr>)[1 := W2]) = ok W3
    \<and> exp_loop mul wsize W3 E (length E) 0 \<lparr>ex_X = X2, ex_nbits = 0, ex_wbits = 0, ex_state = 0\<rparr> = Inr st
    \<and> exp_tail mul wsize (W3 ! 1) (ex_nbits st) (ex_wbits st) (ex_X st) = Inr X3
    \<and> montred X3 N mm (2 * n + 2) = Inr X4
    \<and> mpi_s X4 = 1 \<and> mpi_val X4 = a ^ limbs_val E mod mpi_val N \<and> length (mpi_p X4) < MPI_MAX_LIMBS"
proof -
  let ?R = "2 ^ (64 * n) :: int" and ?M = "mpi_val N"
  have M: "?M = int (limbs_val (mpi_p N))" using N(3) by (simp add: mpi_val_def)
  have M0: "0 < ?M" using odd_limbs [OF N(1)] N(2) odd_pos unfolding M by auto
  have rr: "int (limbs_val (mpi_p RR)) = ?R * ?R mod ?M" using RR(1,3) by (simp add: mpi_val_def power2_eq_square)
  have "int (limbs_val (mpi_p RR)) < ?M" unfolding rr by (rule pos_mod_bound [OF M0])
  then have rrl: "limbs_val (mpi_p RR) < limbs_val (mpi_p N)" unfolding M by simp
  have w: "int (limbs_val (mpi_p W1)) = a mod ?M" using W(1,2) by (simp add: mpi_val_def)
  have "int (limbs_val (mpi_p W1)) < ?M" unfolding w by (rule pos_mod_bound [OF M0])
  then have wl: "limbs_val (mpi_p W1) < limbs_val (mpi_p N)" unfolding M by simp
  have "int (limbs_val (mpi_p W1)) * int (limbs_val (mpi_p RR)) mod ?M = a * ?R * ?R mod ?M"
    unfolding w rr mod_mult_eq by (simp only: mult.assoc)
  then obtain W2 where W2: "mul W1 RR = Inr W2" "mont_rep N W2 a"
    using mont_product [OF N(1,2) _ W(1) _ W(4) wl RR(2), of a] N(4) W(3) rrl unfolding mul_def mm_def n_def M by auto
  have "limbs_val (mpi_p RR) < 2 ^ (64 * n)" using rrl limbs_val_bound [of "mpi_p N"] unfolding n_def by linarith
  then obtain X1 where X1: "mpi_copy X RR = ok X1" "mpi_s X1 = 1" "limbs_val (mpi_p X1) = limbs_val (mpi_p RR)" "length (mpi_p X1) = length (mpi_p X)"
    using copy_small [OF RR(2), of n X] N(1) X RR(1) by (auto simp: n_def)
  have one: "limbs_val (mpi_p \<lparr>mpi_s = 1, mpi_p = [1]\<rparr>) \<le> limbs_val (mpi_p N)" using M0 unfolding M by simp
  have "int (limbs_val (mpi_p X1)) * int (limbs_val (mpi_p \<lparr>mpi_s = 1, mpi_p = [1]\<rparr>)) mod ?M = 1 * ?R * ?R mod ?M"
    unfolding X1(3) rr by simp
  then obtain X2 where X2: "montred X1 N mm (2 * n + 2) = Inr X2" "mont_rep N X2 1"
    using mont_product [OF N(1,2) _ X1(2) _ _ _ _ one, of 1] N(4) X1(3,4) X rrl unfolding montred_def mm_def n_def M by auto
  let ?W = "(replicate 128 \<lparr>mpi_s = 0, mpi_p = []\<rparr>)[1 := W2]"
  have "(2 :: nat) ^ wsize \<le> 2 ^ 6" using ws(2) by (intro power_increasing) simp_all
  then have "2 ^ wsize \<le> length ?W" by simp
  moreover have "mont_rep N (?W ! 1) a" using W2(2) by simp
  moreover have "mpi_p (?W ! v) = []" if "1 < v" "v < length ?W" for v
  proof -
    have "?W ! v = replicate 128 \<lparr>mpi_s = 0, mpi_p = []\<rparr> ! v" using that(1) by (intro nth_list_update_neq) simp
    also have "\<dots> = \<lparr>mpi_s = 0, mpi_p = []\<rparr>" using that(2) by (intro nth_replicate) simp
    finally show ?thesis by simp
  qed
  ultimately obtain W3 where W3: "exp_table mul n wsize ?W = ok W3" "mont.table_ok N wsize W3 a"
    using mont.exp_table_ok [of N ?W a wsize] ws(1) unfolding mul_def mm_def n_def by blast
  obtain st X3 where st: "exp_loop mul wsize W3 E (length E) 0 \<lparr>ex_X = X2, ex_nbits = 0, ex_wbits = 0, ex_state = 0\<rparr> = Inr st"
      "exp_tail mul wsize (W3 ! 1) (ex_nbits st) (ex_wbits st) (ex_X st) = Inr X3" "mont_rep N X3 (a ^ limbs_val E)"
    using mont.exponent_ok [OF W3(2) X2(2) ws(1), of E] unfolding mul_def mm_def n_def by blast
  have x3: "mpi_s X3 = 1" "n < length (mpi_p X3)" "length (mpi_p X3) < MPI_MAX_LIMBS" "limbs_val (mpi_p X3) < limbs_val (mpi_p N)"
      "int (limbs_val (mpi_p X3)) mod ?M = a ^ limbs_val E * ?R mod ?M"
    using st(3) unfolding mont_rep_def n_def M by simp_all
  have xb: "limbs_val (mpi_p X3) < 2 ^ (64 * n)" using x3(4) limbs_val_bound [of "mpi_p N"] unfolding n_def by linarith
  obtain X4 where X4: "montred X3 N mm (2 * n + 2) = Inr X4" "mpi_s X4 = 1" "length (mpi_p X4) = length (mpi_p X3)" "limbs_val (mpi_p X4) < limbs_val (mpi_p N)"
      "2 ^ (64 * n) * limbs_val (mpi_p X4) mod limbs_val (mpi_p N) = limbs_val (mpi_p X3) mod limbs_val (mpi_p N)"
    using montmul_ok [OF N(1,2) x3(2) [unfolded n_def] xb [unfolded n_def] _ one] x3(1) unfolding montred_def mm_def n_def by auto
  have "int (2 ^ (64 * n) * limbs_val (mpi_p X4) mod limbs_val (mpi_p N)) = int (limbs_val (mpi_p X3) mod limbs_val (mpi_p N))"
    using X4(5) by (rule arg_cong)
  then have "?R * int (limbs_val (mpi_p X4)) mod ?M = int (limbs_val (mpi_p X3)) mod ?M"
    unfolding M by (simp only: zmod_int of_nat_mult of_nat_power of_nat_numeral)
  then have "?R * int (limbs_val (mpi_p X4)) mod ?M = a ^ limbs_val E * ?R mod ?M" unfolding x3(5) .
  then have e: "int (limbs_val (mpi_p X4)) * 2 ^ (64 * n) mod ?M = a ^ limbs_val E * 2 ^ (64 * n) mod ?M"
    by (simp only: mult.commute [of "int (limbs_val (mpi_p X4))" ?R])
  have "odd ?M" using odd_limbs [OF N(1)] N(2) by (simp add: M)
  from odd_cancel [OF this e] have "mpi_val X4 = a ^ limbs_val E mod ?M"
    using X4(2,4) unfolding M by (simp add: mpi_val_def)
  then show ?thesis using W2(1) X1(1) X2(1) W3(1) st(1,2) X4(1,2) X4(3) x3(3) by (metis (no_types, lifting))
qed

lemma window_size_range: "1 \<le> window_size i" "window_size i \<le> 6"
  by (simp_all add: window_size_def)

lemma exp_mod_ok:
  fixes N :: mpi
  defines "n \<equiv> length (mpi_p N)"
  assumes N: "fits N" "0 < mpi_val N" "mpi_p N \<noteq> []" "odd (mpi_p N ! 0)" "2 * n + 3 \<le> MPI_MAX_LIMBS"
    and A: "mpi_wf A" "mpi_p A \<noteq> []" "length (mpi_p A) + 2 \<le> MPI_MAX_LIMBS"
    and E: "mpi_wf E" "0 \<le> mpi_val E"
    and X: "length (mpi_p X) < MPI_MAX_LIMBS"
    and RRo: "case RRo of None \<Rightarrow> True | Some RR \<Rightarrow> mpi_p RR = [] \<or> mpi_s RR = 1 \<and> mpi_val RR = (2 ^ (64 * n)) ^ 2 mod mpi_val N"
  shows "\<exists>Y RR. exp_mod X A E N RRo = done_with (Y, case RRo of None \<Rightarrow> None | Some _ \<Rightarrow> Some RR)
    \<and> mpi_wf Y \<and> mpi_s RR = 1 \<and> mpi_val RR = (2 ^ (64 * n)) ^ 2 mod mpi_val N
    \<and> mpi_val Y = (let r = \<bar>mpi_val A\<bar> ^ nat (mpi_val E) mod mpi_val N in if mpi_s A = - 1 then mpi_val N - r else r)"
proof -
  define mm where "mm = montg_init (mpi_p N)"
  define wsize where "wsize = window_size (mpi_bitlen E)"
  let ?R2 = "(2 ^ (64 * n)) ^ 2 mod mpi_val N"
  have wfN: "mpi_wf N" "n + 1 < MPI_MAX_LIMBS" using N(1,5) by (simp_all add: fits_def)
  have sN: "mpi_s N = 1" using N(2) wfN(1) by (auto simp: mpi_val_def mpi_wf_def)
  have guards: "\<not> mpi_cmp_int N 0 < 0" "mpi_p N ! 0 AND 1 \<noteq> 0" "\<not> mpi_cmp_int E 0 < 0"
    using mpi_cmp_int_val [OF wfN(1), of 0] mpi_cmp_int_val [OF E(1), of 0] N(2,4) E(2)
    by (simp_all add: and_one_eq odd_iff_mod_2_eq_one)
  define X0 where "X0 = X\<lparr>mpi_p := mpi_p X @ replicate (n + 1 - length (mpi_p X)) 0\<rparr>"
  have X0: "mpi_grow X (n + 1) = ok X0" "n < length (mpi_p X0)" "length (mpi_p X0) < MPI_MAX_LIMBS"
    using X N(5) by (auto simp: X0_def mpi_grow_ok)
  define W0 where "W0 = \<lparr>mpi_s = 0 :: int, mpi_p = replicate (n + 1) (0 :: u64)\<rparr>"
  have W0: "mpi_grow \<lparr>mpi_s = 0, mpi_p = []\<rparr> (n + 1) = ok W0" "n < length (mpi_p W0)" "length (mpi_p W0) < MPI_MAX_LIMBS"
    using N(5) by (auto simp: W0_def mpi_grow_ok)
  have T: "mpi_grow mpi_init ((n + 1) * 2) = ok \<lparr>mpi_s = 1, mpi_p = replicate ((n + 1) * 2) 0\<rparr>"
    using N(5) by (simp add: mpi_grow_ok mpi_init_def)
  obtain A1 where A1: "(if mpi_s A = - 1 then chk_bind (mpi_copy mpi_init A) (\<lambda>P. ok (P\<lparr>mpi_s := 1\<rparr>)) else ok A) = ok A1"
      "mpi_wf A1" "mpi_s A1 = 1" "mpi_p A1 \<noteq> []" "length (mpi_p A1) + 2 \<le> MPI_MAX_LIMBS" "mpi_val A1 = \<bar>mpi_val A\<bar>"
  proof (cases "mpi_s A = - 1")
    case True
    obtain P where P: "mpi_copy mpi_init A = ok P" "limbs_val (mpi_p P) = limbs_val (mpi_p A)" "length (mpi_p P) \<le> length (mpi_p A)"
      using copy_signed [of A mpi_init] A(1,3) by (auto simp: mpi_init_def)
    have "mpi_p P \<noteq> []" by (rule copy_nonempty [OF A(2) P(1)])
    then show ?thesis using that [of "P\<lparr>mpi_s := 1\<rparr>"] True P A(3) by (simp add: mpi_wf_def mpi_val_def)
  next
    case False
    then show ?thesis using that [of A] A by (auto simp: mpi_wf_def mpi_val_def)
  qed
  obtain RR where RR: "(case RRo of None \<Rightarrow> exp_rr N | Some RR \<Rightarrow> if mpi_p RR = [] then exp_rr N else done_with RR) = done_with RR"
      "mpi_s RR = 1" "mpi_p RR \<noteq> []" "mpi_val RR = ?R2"
  proof -
    obtain R0 where R0: "exp_rr N = done_with R0" "mpi_s R0 = 1" "mpi_p R0 \<noteq> []" "mpi_val R0 = ?R2"
      using exp_rr_ok [OF N(1,2)] N(5) unfolding n_def by blast
    consider "RRo = None" | S where "RRo = Some S" "mpi_p S = []" | S where "RRo = Some S" "mpi_p S \<noteq> []" by (cases RRo) auto
    then show ?thesis using that R0 RRo by cases auto
  qed
  obtain W1 where W1: "(if mpi_cmp_mpi A1 N \<ge> 0 then mpi_mod_mpi W0 A1 N else Some (mpi_copy W0 A1)) = done_with W1"
      "mpi_s W1 = 1" "mpi_val W1 = \<bar>mpi_val A\<bar> mod mpi_val N" "n < length (mpi_p W1)" "length (mpi_p W1) < MPI_MAX_LIMBS"
    using reduced_base_ok [OF A1(2-5) N(1-3), of W0] W0(2,3) A1(6) unfolding n_def by auto
  have ws: "1 \<le> wsize" "wsize \<le> 6" unfolding wsize_def by (rule window_size_range)+
  have l: "length (mpi_p \<lparr>mpi_s = 1, mpi_p = replicate ((n + 1) * 2) (0 :: u64)\<rparr>) = 2 * n + 2" by simp
  obtain W2 X1 X2 W3 st X3 X4 where p: "montmul W1 RR N mm (2 * n + 2) = Inr W2" "mpi_copy X0 RR = ok X1" "montred X1 N mm (2 * n + 2) = Inr X2"
      "exp_table (\<lambda>X Y. montmul X Y N mm (2 * n + 2)) n wsize ((replicate 128 \<lparr>mpi_s = 0, mpi_p = []\<rparr>)[1 := W2]) = ok W3"
      "exp_loop (\<lambda>X Y. montmul X Y N mm (2 * n + 2)) wsize W3 (mpi_p E) (length (mpi_p E)) 0 \<lparr>ex_X = X2, ex_nbits = 0, ex_wbits = 0, ex_state = 0\<rparr> = Inr st"
      "exp_tail (\<lambda>X Y. montmul X Y N mm (2 * n + 2)) wsize (W3 ! 1) (ex_nbits st) (ex_wbits st) (ex_X st) = Inr X3"
      "montred X3 N mm (2 * n + 2) = Inr X4" "mpi_s X4 = 1" "mpi_val X4 = \<bar>mpi_val A\<bar> ^ limbs_val (mpi_p E) mod mpi_val N"
      "length (mpi_p X4) < MPI_MAX_LIMBS"
    using mont_power_ok [OF N(3,4) sN wfN(2) [unfolded n_def] RR(2,3) RR(4) [unfolded n_def] W1(2,3) W1(4) [unfolded n_def] W1(5)
      X0(2) [unfolded n_def] X0(3) ws, of "mpi_p E"] unfolding n_def mm_def by blast
  have e: "limbs_val (mpi_p E) = nat (mpi_val E)" using wf_val_abs [OF E(1)] E(2) by simp
  let ?r = "\<bar>mpi_val A\<bar> ^ nat (mpi_val E) mod mpi_val N"
  have "\<exists>Y. (if mpi_s A = - 1 then mpi_add_mpi X_is_B (X4\<lparr>mpi_s := - 1\<rparr>) N (X4\<lparr>mpi_s := - 1\<rparr>) else ok X4) = ok Y
    \<and> mpi_wf Y \<and> mpi_val Y = (if mpi_s A = - 1 then mpi_val N - ?r else ?r)"
  proof (cases "mpi_s A = - 1")
    case False
    then show ?thesis using p(8,9) e by (simp add: mpi_wf_def)
  next
    case True
    have "fits (X4\<lparr>mpi_s := - 1\<rparr>)" using p(10) by (simp add: fits_def mpi_wf_def)
    moreover have "mpi_val (X4\<lparr>mpi_s := - 1\<rparr>) = - mpi_val X4" using p(8) by (simp add: mpi_val_def)
    ultimately show ?thesis
      using True mpi_add_mpi_ok [of X_is_B "X4\<lparr>mpi_s := - 1\<rparr>" N "X4\<lparr>mpi_s := - 1\<rparr>"] N(1) p(9,10) e by auto
  qed
  then obtain Y where Y: "(if mpi_s A = - 1 then mpi_add_mpi X_is_B (X4\<lparr>mpi_s := - 1\<rparr>) N (X4\<lparr>mpi_s := - 1\<rparr>) else ok X4) = ok Y"
      "mpi_wf Y" "mpi_val Y = (if mpi_s A = - 1 then mpi_val N - ?r else ?r)" by blast
  have "exp_mod X A E N RRo = done_with (Y, case RRo of None \<Rightarrow> None | Some _ \<Rightarrow> Some RR)"
    using guards N(3) p(1-7) unfolding exp_mod_def Let_def n_def [symmetric] X0(1) W0(1) T A1(1) RR(1) W1(1) mm_def [symmetric] wsize_def [symmetric] l crun_bind_simps
    by (simp add: W1(1) Y(1))
  then show ?thesis using Y RR(2,4) by (intro exI [of _ Y] exI [of _ RR]) (simp add: Let_def)
qed

section \<open>The interface to the values\<close>

lemma exp_mod_null_base:
  assumes "fits N" "0 < mpi_val N" "mpi_p N \<noteq> []" "odd (mpi_p N ! 0)" "2 * length (mpi_p N) + 3 \<le> MPI_MAX_LIMBS"
    and "mpi_wf A" "mpi_p A = []" "mpi_wf E" "0 \<le> mpi_val E" "length (mpi_p X) < MPI_MAX_LIMBS"
    and RRo: "case RRo of None \<Rightarrow> True | Some RR \<Rightarrow> mpi_p RR = [] \<or> mpi_s RR = 1 \<and> mpi_val RR = (2 ^ (64 * length (mpi_p N))) ^ 2 mod mpi_val N"
  shows "exp_mod X A E N RRo = Some (Inl UB)"
proof -
  let ?n = "length (mpi_p N)"
  have wfN: "mpi_wf N" using assms(1) by (simp add: fits_def)
  have guards: "\<not> mpi_cmp_int N 0 < 0" "mpi_p N ! 0 AND 1 \<noteq> 0" "\<not> mpi_cmp_int E 0 < 0"
    using mpi_cmp_int_val [OF wfN, of 0] mpi_cmp_int_val [OF assms(8), of 0] assms(2,4,9)
    by (simp_all add: and_one_eq odd_iff_mod_2_eq_one)
  obtain R0 where R0: "exp_rr N = done_with R0" using exp_rr_ok [OF assms(1,2,5)] by blast
  obtain RR where RR: "(case RRo of None \<Rightarrow> exp_rr N | Some RR \<Rightarrow> if mpi_p RR = [] then exp_rr N else done_with RR) = done_with RR"
  proof (cases RRo)
    case None
    then show ?thesis using that R0 by simp
  next
    case (Some S)
    then show ?thesis using that R0 by (cases "mpi_p S = []") simp_all
  qed
  obtain A1 where A1: "(if mpi_s A = - 1 then chk_bind (mpi_copy mpi_init A) (\<lambda>P. ok (P\<lparr>mpi_s := 1\<rparr>)) else ok A) = ok A1"
      "mpi_wf A1" "mpi_p A1 = []"
    using assms(6,7) by (cases "mpi_s A = - 1") (simp_all add: mpi_copy_def mpi_init_def mpi_wf_def)
  have "\<not> mpi_cmp_mpi A1 N \<ge> 0"
    using mpi_cmp_mpi_val [OF A1(2) wfN] assms(2) A1(3) by (simp add: mpi_val_def [of A1])
  moreover have "mpi_copy W A1 = ok mpi_init" for W using A1(3) by (simp add: mpi_copy_def)
  moreover have "montmul mpi_init RR N mm tn = Inl UB" for mm tn by (simp add: montmul_def Let_def mpi_init_def)
  ultimately show ?thesis
    using guards assms(3,5,10) RR A1(1) by (simp add: exp_mod_def Let_def mpi_grow_ok)
qed

text \<open>C24: Modular exponentiation, for an odd positive modulus of up to 4998 limbs, any number as the base and any
  exponent that is not negative: it returns the residue of the power for a base that is not negative,
  whatever the window size, whether the square of the Montgomery radix was computed before or is computed
  now, and it leaves that square for the next call.  A negative base goes wrong for even exponents: the
  residue of the power of the magnitude is subtracted from the modulus whatever the exponent.  A base that is
  a null pointer (a number that was initialised and never set) is read through that pointer.\<close>

lemma exp_mod_power:
  assumes "fits N" "0 < mpi_val N" "mpi_p N \<noteq> []" "odd (mpi_p N ! 0)" "2 * length (mpi_p N) + 3 \<le> MPI_MAX_LIMBS"
    and "mpi_wf A" "length (mpi_p A) + 2 \<le> MPI_MAX_LIMBS" "mpi_wf E" "0 \<le> mpi_val E" "length (mpi_p X) < MPI_MAX_LIMBS"
    and "case RRo of None \<Rightarrow> True | Some RR \<Rightarrow> mpi_p RR = [] \<or> mpi_s RR = 1 \<and> mpi_val RR = (2 ^ (64 * length (mpi_p N))) ^ 2 mod mpi_val N"
  shows "if mpi_p A = [] then exp_mod X A E N RRo = Some (Inl UB)
    else (\<exists>Y RR. exp_mod X A E N RRo = done_with (Y, case RRo of None \<Rightarrow> None | Some _ \<Rightarrow> Some RR)
      \<and> mpi_wf Y \<and> mpi_s RR = 1 \<and> mpi_val RR = (2 ^ (64 * length (mpi_p N))) ^ 2 mod mpi_val N
      \<and> mpi_val Y = (if mpi_s A = 1 then mpi_val A ^ nat (mpi_val E) mod mpi_val N
          else mpi_val N - \<bar>mpi_val A\<bar> ^ nat (mpi_val E) mod mpi_val N))"
proof (cases "mpi_p A = []")
  case True
  then show ?thesis using exp_mod_null_base [OF assms(1-6) True assms(8-11)] by simp
next
  case False
  have s: "mpi_s A = 1 \<or> mpi_s A = - 1" using assms(6) by (simp add: mpi_wf_def)
  then have "\<bar>mpi_val A\<bar> = mpi_val A" if "mpi_s A = 1" using that by (simp add: mpi_val_def)
  then show ?thesis using exp_mod_ok [OF assms(1-6) False assms(7-11)] False s by (auto simp: Let_def)
qed

lemma exp_mod_power_witness:
  "(\<exists>Y. exp_mod mpi_init \<lparr>mpi_s = 1, mpi_p = [2]\<rparr> \<lparr>mpi_s = 1, mpi_p = [10]\<rparr> \<lparr>mpi_s = 1, mpi_p = [9]\<rparr> None = done_with (Y, None) \<and> mpi_val Y = 7)
   \<and> (\<exists>Y. exp_mod mpi_init \<lparr>mpi_s = - 1, mpi_p = [2]\<rparr> \<lparr>mpi_s = 1, mpi_p = [2]\<rparr> \<lparr>mpi_s = 1, mpi_p = [9]\<rparr> None = done_with (Y, None)
        \<and> mpi_val Y = 5 \<and> (- 2) ^ 2 mod 9 \<noteq> (5 :: int))"
proof -
  let ?N = "\<lparr>mpi_s = 1, mpi_p = [9]\<rparr> :: mpi"
  have N: "fits ?N" "0 < mpi_val ?N" "mpi_p ?N \<noteq> []" "odd (mpi_p ?N ! 0)" "2 * length (mpi_p ?N) + 3 \<le> MPI_MAX_LIMBS"
    by (simp_all add: fits_def mpi_wf_def mpi_val_def MPI_MAX_LIMBS_def)
  have X: "length (mpi_p mpi_init) < MPI_MAX_LIMBS" by (simp add: mpi_init_def MPI_MAX_LIMBS_def)
  show ?thesis
    using exp_mod_power [OF N, of "\<lparr>mpi_s = 1, mpi_p = [2]\<rparr>" "\<lparr>mpi_s = 1, mpi_p = [10]\<rparr>" mpi_init None]
      exp_mod_power [OF N, of "\<lparr>mpi_s = - 1, mpi_p = [2]\<rparr>" "\<lparr>mpi_s = 1, mpi_p = [2]\<rparr>" mpi_init None] X
    by (auto simp: mpi_wf_def mpi_val_def MPI_MAX_LIMBS_def)
qed

end
