(* ===== verification/Spec2Isabelle.thy ===== *)
theory Spec2Isabelle
  imports Event_Handler Gcm_Spec Mpi_Exp
begin

text \<open>
  Town Crier: an authenticated data feed for smart contracts.

  \<^bold>\<open>The program.\<close>  A contract logs a request.  A relay outside (\<open>python-relay\<close>, \<open>src/src/App\<close>) passes it into an
  SGX enclave (\<open>src/src/Enclave\<close>).  There \<open>handle_request\<close> of \<open>event_handler.cpp\<close> gives the request to the
  scraper of its type; the scraper fetches a page over HTTPS (\<open>tls_client_tiny.cpp\<close>, whose answers
  \<open>external/tinyhttp\<close> parses while they arrive), reads it (\<open>external/picojson.h\<close>), and returns a code and a
  number.  The handler makes an error flag and a response word of them, and \<open>form_transaction\<close>
  (\<open>eth_transaction.cpp\<close>) encodes the call \<open>deliver\<close> for the contract (\<open>eth_abi.cpp\<close>, \<open>encoding.cpp\<close>,
  \<open>external/keccak.c\<close>) and signs it with the wallet key (\<open>eth_ecdsa.cpp\<close> over \<open>ecdsa.c\<close>, \<open>ecp.c\<close>, \<open>bignum.c\<close>
  of mbedtls).  Requests may be encrypted for the enclave (\<open>hybrid_cipher.cpp\<close> over \<open>gcm.c\<close>, \<open>aes.c\<close>,
  \<open>ecdh.c\<close>, and \<open>base64.cpp\<close>).

  \<^bold>\<open>Conventions\<close> (\<^theory_text>\<open>Prelude\<close>).  Machine integers are words of their width; a C \<open>int\<close> that is only read as
  a number is an \<^typ>\<open>int\<close> with its overflow written out.  A \<open>uint8_t\<close> buffer is a list of bytes, a \<open>std::string\<close>
  a list of characters.  A computation is a sum: \<open>Inr\<close> a result, \<open>Inl (Throw e)\<close> a C++ exception, \<open>Inl UB\<close>
  what the language leaves undefined (a read past a buffer, a shift by the width, an overflow).
  \<open>None\<close> around it is a run that never returns.  Uninitialised locals are arguments
  (\<open>junk\<close>, the record \<open>stack\<close>).  Conversions of a \<open>double\<close> that C++ leaves undefined are those of x86-64, on
  which SGX enclaves run.

  \<^bold>\<open>Theories, from the bottom.\<close>
  \<^item> \<^theory_text>\<open>Codec\<close>: the locale of self-delimiting encodings, interpreted on RLP strings and on ABI words.
  \<^item> \<^theory_text>\<open>Encoding\<close> (\<open>encoding.cpp\<close>, \<open>encoding.h\<close>, \<open>commons.cpp\<close>): hexadecimal, byte classes, endianness, RLP
    strings; round trips, and every branch of \<open>append_as_uint256\<close>.
  \<^item> \<^theory_text>\<open>Eth_Abi\<close> (\<open>eth_abi.cpp\<close>): the ABI encoder; its head offsets point at their tails for two dynamic
    items and past them from the third on.
  \<^item> \<^theory_text>\<open>Keccak\<close> (\<open>external/keccak.c\<close>): the permutation equals the five step mappings of the standard, the
    hash is the sponge over it.
  \<^item> \<^theory_text>\<open>Env\<close> (\<open>env.cpp\<close>): the key-value store behind the contract address, with its locale.
  \<^item> \<^theory_text>\<open>Mpi\<close> (\<open>bignum.c\<close> by value), \<^theory_text>\<open>Ecp\<close> (\<open>ecp.c\<close>, \<open>ecdh.c\<close>), \<^theory_text>\<open>Ecdsa\<close> (\<open>ecdsa.c\<close>): modular inverse and its
    divergence for the modulus 1; signatures are in range, canonical, and verify when the curve obeys
    its laws.
  \<^item> \<^theory_text>\<open>Mpi_Limbs\<close> (\<open>bignum.c\<close> by limbs): the arrays of 64-bit limbs under the numbers; their loops compute on
    the values of \<^theory_text>\<open>Mpi\<close>.  \<^theory_text>\<open>Mpi_Div\<close>: long division with its estimated digits returns quotient and
    remainder; what is lost when operands are overwritten in place.  \<^theory_text>\<open>Mpi_Window\<close>, \<^theory_text>\<open>Mpi_Mont\<close>, \<^theory_text>\<open>Mpi_Exp\<close>:
    exponentiation gives the residue of the power; its windows are proved over any multiplication (a
    locale), which Montgomery multiplication interprets.
  \<^item> \<^theory_text>\<open>Eth_Ecdsa\<close> (\<open>eth_ecdsa.cpp\<close>, \<open>ecall_attestation.cpp\<close>): no signature leaves that does not verify;
    sealing and unsealing keep the key; the calibration call writes past its buffer.
  \<^item> \<^theory_text>\<open>Eth_Transaction\<close> (\<open>eth_transaction.cpp\<close>): what a delivery decodes to, and what stops it.
  \<^item> \<^theory_text>\<open>Base64\<close> (\<open>base64.cpp\<close>); \<^theory_text>\<open>Aes\<close>, \<^theory_text>\<open>Aes_Field\<close>, \<^theory_text>\<open>Aes_Rounds\<close>, \<^theory_text>\<open>Aes_Modes\<close> (\<open>aes.c\<close>); \<^theory_text>\<open>Gcm\<close>, \<^theory_text>\<open>Gcm_Aead\<close>,
    \<^theory_text>\<open>Gcm_Field\<close>, \<^theory_text>\<open>Gcm_Spec\<close> (\<open>gcm.c\<close>): round trips, the tables and rounds equal FIPS-197, the streaming
    code equals NIST SP 800-38D, decryption accepts exactly what encryption makes.
  \<^item> \<^theory_text>\<open>Hybrid_Cipher\<close> (\<open>hybrid_cipher.cpp\<close>): encrypted requests arrive unchanged; what is accepted is
    authentic.
  \<^item> \<^theory_text>\<open>Tinyhttp\<close>, \<^theory_text>\<open>Http_Response\<close> (\<open>external/tinyhttp\<close>), \<^theory_text>\<open>Tls_Client\<close> (\<open>tls_client_tiny.cpp\<close>): the parser stays
    inside its buffers in every reachable state and understands the grammar of responses however the
    bytes are cut; a page is fetched as it was sent; the two ways the end of the stream goes wrong.
  \<^item> \<^theory_text>\<open>Cstdlib\<close>: IEEE doubles, \<open>strtod\<close>, \<open>strtol\<close>, \<open>atoi\<close>.  \<^theory_text>\<open>Picojson\<close> (\<open>picojson.h\<close>): the JSON parser accepts
    a grammar, exactly.  \<^theory_text>\<open>Gmtime\<close> (\<open>gmtime.cpp\<close>): the calendar.
  \<^item> \<^theory_text>\<open>Scraper_Base\<close> (\<open>scraper_utils.cpp\<close>, \<open>yahoo_yql.cpp\<close>), \<^theory_text>\<open>Flight\<close> (\<open>flight.cpp\<close>), \<^theory_text>\<open>Scrapers\<close> (the other
    scrapers): requests, readings of answers, every exception they catch or let through.
  \<^item> \<^theory_text>\<open>Event_Handler\<close> (\<open>event_handler.cpp\<close>): the handler, the contract of its answer switches and of the
    scrapers that want data of one length as locales, and the theorems that run through all parts,
    from the encrypted request to the signed delivery.

  \<^bold>\<open>State.\<close>  The enclave keeps the environment (\<open>g_env\<close>, of \<open>env.cpp\<close>), the wallet key and the hybrid key
  (\<open>g_key\<close>, \<open>None\<close> before provisioning); \<open>Event_Handler.enclave\<close> gathers them with the parameters
  below.  The AES, GCM and HTTP contexts are records with the fields of the C structures.

  \<^bold>\<open>Parameters and hypotheses.\<close>  The results of the TLS library for each request (seeding, handshake, writes,
  reads) are an arbitrary list; random generators are arbitrary functions with a state; SGX sealing
  is a pair of functions that undo each other where a theorem says so; the comb multiplication and
  addition of points are functions of the curve record, and \<open>curve_laws\<close> names the laws of the
  group a theorem needs.  Each theorem with such a hypothesis is applied to a concrete instance, a
  curve with three points among them.

  \<^bold>\<open>Fuel and termination.\<close>  The JSON parser recurses with fuel \<open>2 * length + 1\<close>, which is proved to be enough for
  every text.  A network run that ends its list of results while the code still wants to read is
  \<open>None\<close>, the run that waits.  The loops of \<open>mpi_inv_mod\<close> are partial functions: they are proved to end for
  every modulus above 1 and not to end for 1.  The loops of the long division that compare and subtract are
  partial functions too, and are proved to end.  All other loops terminate by a measure.

  \<^bold>\<open>Not modelled.\<close>  The TLS protocol, certificates, RSA, the hash functions and the generator of mbedtls, the
  primality tests and text forms of \<open>bignum.c\<close>, and the multiplication of points (vendored code behind the
  parameters above); SGX and the generated proxies; the relay, its sockets and configuration
  (I/O); log output; scrapers and parts of scrapers no request reaches (\<open>stock_ticker.cpp\<close>,
  \<open>csv_parser.cpp\<close>, the \<open>current_\<close> scrapers for Google, Yahoo and Bloomberg, the text search of
  \<open>steam2.cpp\<close>); the earlier client \<open>tls_client.cpp\<close>, which the build leaves out, and \<open>http_parser.c\<close>, which only
  it calls;
  the Windows copy under \<open>src/win\<close>.  Allocation does not fail and the stack does not overflow.
\<close>

end
